(* ===== verification/Axivc_Prelude.thy ===== *)
theory Axivc_Prelude
  imports Main "HOL-Library.Word"
begin

unbundle bit_operations_syntax

text \<open>
  Shared vocabulary of the development: the C integer types, the error numbers of the
  kernel and of the C library, byte buffers with \<open>memcpy\<close>, and the lemmas on lists and
  words that the component theories rely on.

  Conventions used throughout.
  \<^item> \<open>u8\<close>, \<open>u16\<close>, \<open>u32\<close>, \<open>u64\<close> are words of that width and wrap around as in C.
    \<open>size_t\<close> values that count bytes of a buffer held in memory are \<open>nat\<close>.
  \<^item> A C function that returns \<open>0\<close> or a negative error number returns \<open>errno option\<close>:
    \<open>None\<close> is \<open>0\<close> and \<open>Some e\<close> is \<open>-e\<close>. A function that returns a byte count or a
    negative error number returns \<open>errno + nat\<close>.
  \<^item> An object reached through a pointer and changed by a call is an argument and a
    component of the result.
\<close>

section \<open>Types\<close>

type_synonym u8 = "8 word"
type_synonym u16 = "16 word"
type_synonym u32 = "32 word"
type_synonym u64 = "64 word"
type_synonym bytes = "u8 list"

text \<open>
  The error numbers the sources name. \<open>EOTHER\<close> stands for a number that an external
  function returned and that the sources only pass on.
\<close>

datatype errno =
    EAGAIN | EBUSY | ECONNRESET | EFAULT | EINVAL | EIO | EMSGSIZE | ENODEV | ENOENT
  | ENOMEM | ENOMSG | ENOSPC | EOPNOTSUPP | EOVERFLOW | EPIPE | EPROTO
  | EPROTONOSUPPORT | ERESTARTSYS | ETIMEDOUT | EOTHER nat

type_synonym status = "errno option"

abbreviation OK :: status where "OK \<equiv> None"
abbreviation Err :: "errno \<Rightarrow> status" where "Err \<equiv> Some"

section \<open>Byte buffers\<close>

text \<open>\<open>memcpy(buf + off, src, length src)\<close> into a buffer that holds the range.\<close>

definition memcpy_at :: "nat \<Rightarrow> 'a list \<Rightarrow> 'a list \<Rightarrow> 'a list" where
  "memcpy_at off src buf = take off buf @ src @ drop (off + length src) buf"

lemma length_memcpy_at [simp]:
  "off + length src \<le> length buf \<Longrightarrow> length (memcpy_at off src buf) = length buf"
  by (simp add: memcpy_at_def)

lemma nth_memcpy_at:
  assumes "off + length src \<le> length buf" "i < length buf"
  shows "memcpy_at off src buf ! i =
    (if off \<le> i \<and> i < off + length src then src ! (i - off) else buf ! i)"
  using assms by (auto simp: memcpy_at_def nth_append min_def)

lemma memcpy_at_Nil [simp]: "memcpy_at off [] buf = buf"
  by (simp add: memcpy_at_def)

lemma take_memcpy_at_before [simp]:
  "n \<le> off \<Longrightarrow> off \<le> length buf \<Longrightarrow> take n (memcpy_at off src buf) = take n buf"
  by (simp add: memcpy_at_def min_def)

lemma take_memcpy_at_end [simp]:
  "off \<le> length buf \<Longrightarrow> take (off + length src) (memcpy_at off src buf) = take off buf @ src"
  by (simp add: memcpy_at_def)

lemma take_drop_memcpy_at [simp]:
  "off \<le> length buf \<Longrightarrow> take (length src) (drop off (memcpy_at off src buf)) = src"
  by (simp add: memcpy_at_def)

lemma memcpy_at_append:
  "off + length xs + length ys \<le> length buf \<Longrightarrow>
    memcpy_at (off + length xs) ys (memcpy_at off xs buf) = memcpy_at off (xs @ ys) buf"
  by (simp add: memcpy_at_def add.commute add.left_commute)

section \<open>Words\<close>

named_theorems word_nat \<comment> \<open>rules that move a word computation to the natural numbers\<close>

lemma unat_of_nat_u64 [word_nat]: "n < 2 ^ 64 \<Longrightarrow> unat (of_nat n :: u64) = n"
  by (simp add: unat_of_nat take_bit_nat_eq_self)

lemma unat_of_nat_u32 [word_nat]: "n < 2 ^ 32 \<Longrightarrow> unat (of_nat n :: u32) = n"
  by (simp add: unat_of_nat take_bit_nat_eq_self)

lemma unat_u64_less: "unat (w :: u64) < 2 ^ 64"
  using unsigned_less[of w, where ?'a = nat] by simp

lemma unat_add_no_wrap [word_nat]:
  fixes a b :: "'a::len word"
  assumes "unat a + unat b < 2 ^ LENGTH('a)"
  shows "unat (a + b) = unat a + unat b"
  using assms by (simp add: unat_word_ariths)

lemma mod_add_left_inj:
  fixes a i j n :: nat
  assumes "(a + i) mod n = (a + j) mod n" "i < n" "j < n"
  shows "i = j"
proof (rule ccontr)
  assume "i \<noteq> j"
  then consider "i < j" | "j < i" by linarith
  then show False
  proof cases
    case 1
    with assms(1) have "n dvd j - i"
      by (metis add_diff_cancel_left less_imp_le mod_eq_dvd_iff_nat nat_add_left_cancel_le)
    with 1 assms(3) show False by (auto dest: dvd_imp_le)
  next
    case 2
    with assms(1) have "n dvd i - j"
      by (metis add_diff_cancel_left less_imp_le mod_eq_dvd_iff_nat nat_add_left_cancel_le)
    with 2 assms(2) show False by (auto dest: dvd_imp_le)
  qed
qed

lemma unat_sub_no_wrap [word_nat]:
  fixes a b :: "'a::len word"
  assumes "b \<le> a"
  shows "unat (a - b) = unat a - unat b"
  using assms by (simp add: unat_sub)

end
