(* ===== verification/Axivc_Ring.thy ===== *)
theory Axivc_Ring
  imports Axivc_Prelude
begin

text \<open>
  The opaque-slot SPSC ring of \<^verbatim>\<open>ivc/ring.c\<close> and \<^verbatim>\<open>ivc/includes/ring.h\<close>: its
  layout, the four ring operations, the ring invariant, and the refinement of the ring to
  a bounded first-in first-out queue of slots, stated as the locale \<open>slot_queue\<close> and
  discharged by an interpretation on the ring operations.
\<close>

section \<open>Layout and operations\<close>

definition AXIVC_SLOT_SIZE :: nat where "AXIVC_SLOT_SIZE = 256"
definition AXIVC_RING_CAPACITY :: nat where "AXIVC_RING_CAPACITY = 32"

definition AXIVC_RING_DIRECTION_PUBLISHER_TO_SUBSCRIBER :: u32 where
  "AXIVC_RING_DIRECTION_PUBLISHER_TO_SUBSCRIBER = 1"
definition AXIVC_RING_DIRECTION_SUBSCRIBER_TO_PUBLISHER :: u32 where
  "AXIVC_RING_DIRECTION_SUBSCRIBER_TO_PUBLISHER = 2"

lemmas ring_consts = AXIVC_SLOT_SIZE_def AXIVC_RING_CAPACITY_def

type_synonym slot = bytes

record axivc_ring =
  r_direction :: u32
  r_capacity :: u32
  r_slot_size :: u32
  r_head :: u32
  r_tail :: u32
  r_reserved :: "u32 list"
  r_slots :: "slot list"

text \<open>
  \<open>axivc_ring_initialize\<close> as the sequence of its stores, in program order; a peer that
  maps the same memory can observe the ring between any two of them.
\<close>

definition axivc_ring_init_stores :: "u32 \<Rightarrow> (axivc_ring \<Rightarrow> axivc_ring) list" where
  "axivc_ring_init_stores direction =
    [\<lambda>r. r\<lparr>r_direction := direction\<rparr>,
     \<lambda>r. r\<lparr>r_capacity := of_nat AXIVC_RING_CAPACITY\<rparr>,
     \<lambda>r. r\<lparr>r_slot_size := of_nat AXIVC_SLOT_SIZE\<rparr>,
     \<lambda>r. r\<lparr>r_head := 0\<rparr>,
     \<lambda>r. r\<lparr>r_slots := replicate AXIVC_RING_CAPACITY (replicate AXIVC_SLOT_SIZE 0)\<rparr>,
     \<lambda>r. r\<lparr>r_tail := 0\<rparr>]"

definition axivc_ring_initialize :: "axivc_ring \<Rightarrow> u32 \<Rightarrow> axivc_ring" where
  "axivc_ring_initialize ring direction = fold (\<lambda>st r. st r) (axivc_ring_init_stores direction) ring"

definition slot_index :: "u32 \<Rightarrow> nat" where
  "slot_index i = unat (i mod of_nat AXIVC_RING_CAPACITY)"

text \<open>
  The accesses to the slot array. C checks no index: a store out of range corrupts the
  shared memory, written here as the loss of the whole array, and a load out of range
  yields no slot at all. Neither result has the layout of a ring.
\<close>

definition store_slot :: "slot list \<Rightarrow> nat \<Rightarrow> slot \<Rightarrow> slot list" where
  "store_slot slots i slot = (if i < length slots then slots[i := slot] else [])"

definition load_slot :: "slot list \<Rightarrow> nat \<Rightarrow> slot" where
  "load_slot slots i = (if i < length slots then slots ! i else [])"

definition axivc_ring_try_push_slot :: "axivc_ring \<Rightarrow> slot \<Rightarrow> bool \<times> axivc_ring" where
  "axivc_ring_try_push_slot ring slot =
    (let tail = r_tail ring; head = r_head ring in
     if tail - head \<ge> of_nat AXIVC_RING_CAPACITY then (False, ring)
     else (True, ring\<lparr>r_slots := store_slot (r_slots ring) (slot_index tail) slot,
       r_tail := tail + 1\<rparr>))"

definition axivc_ring_try_peek_slot :: "axivc_ring \<Rightarrow> slot option" where
  "axivc_ring_try_peek_slot ring =
    (let head = r_head ring; tail = r_tail ring in
     if head = tail then None else Some (load_slot (r_slots ring) (slot_index head)))"

definition axivc_ring_pop_slot :: "axivc_ring \<Rightarrow> axivc_ring" where
  "axivc_ring_pop_slot ring = ring\<lparr>r_head := r_head ring + 1\<rparr>"

section \<open>Invariant and abstraction\<close>

definition slot_wf :: "slot \<Rightarrow> bool" where
  "slot_wf s \<longleftrightarrow> length s = AXIVC_SLOT_SIZE"

definition ring_layout :: "axivc_ring \<Rightarrow> bool" where
  "ring_layout r \<longleftrightarrow> length (r_slots r) = AXIVC_RING_CAPACITY \<and> list_all slot_wf (r_slots r)"

definition ring_used :: "axivc_ring \<Rightarrow> nat" where
  "ring_used r = unat (r_tail r - r_head r)"

definition ring_wf :: "axivc_ring \<Rightarrow> bool" where
  "ring_wf r \<longleftrightarrow> ring_layout r \<and> ring_used r \<le> AXIVC_RING_CAPACITY"

definition ring_contents :: "axivc_ring \<Rightarrow> slot list" where
  "ring_contents r = map (\<lambda>i. r_slots r ! slot_index (r_head r + of_nat i)) [0..<ring_used r]"

lemma slot_index_eq: "slot_index i = unat i mod 32"
  by (simp add: slot_index_def ring_consts unat_mod)

lemma slot_index_less [simp]: "slot_index i < AXIVC_RING_CAPACITY"
  by (simp add: slot_index_eq ring_consts)

lemma slot_index_in_layout: "ring_layout r \<Longrightarrow> slot_index i < length (r_slots r)"
  by (simp add: ring_layout_def)

lemma store_slot_in_layout [simp]:
  "ring_layout r \<Longrightarrow> store_slot (r_slots r) (slot_index i) s = (r_slots r)[slot_index i := s]"
  by (simp add: store_slot_def slot_index_in_layout)

lemma load_slot_in_layout [simp]:
  "ring_layout r \<Longrightarrow> load_slot (r_slots r) (slot_index i) = r_slots r ! slot_index i"
  by (simp add: load_slot_def slot_index_in_layout)

text \<open>
  The capacity divides \<open>2 ^ 32\<close>, so a free-running index that wraps keeps stepping
  through the slots in order.
\<close>

lemma slot_index_add: "slot_index (h + of_nat n) = (unat h + n) mod 32"
proof -
  have "unat (h + of_nat n) = (unat h + n) mod 2 ^ 32"
    by (simp add: unat_word_ariths unat_of_nat take_bit_eq_mod mod_simps)
  also have "\<dots> mod 32 = (unat h + n) mod 32"
    by (rule mod_mod_cancel) simp
  finally show ?thesis by (simp add: slot_index_eq)
qed

lemma slot_index_inj:
  assumes "i < 32" "j < 32" "slot_index (h + of_nat i) = slot_index (h + of_nat j)"
  shows "i = j"
  using assms by (auto simp: slot_index_add dest: mod_add_left_inj)

lemma ring_wf_layout: "ring_wf r \<Longrightarrow> ring_layout r"
  by (simp add: ring_wf_def)

lemma length_ring_contents [simp]: "length (ring_contents r) = ring_used r"
  by (simp add: ring_contents_def)

lemma tail_as_head: "r_tail r = r_head r + of_nat (ring_used r)"
  by (simp add: ring_used_def)

section \<open>Each operation on the abstract queue\<close>

lemma ring_initialize_fields:
  "axivc_ring_initialize ring d =
    ring\<lparr>r_direction := d, r_capacity := of_nat AXIVC_RING_CAPACITY,
      r_slot_size := of_nat AXIVC_SLOT_SIZE, r_head := 0, r_tail := 0,
      r_slots := replicate AXIVC_RING_CAPACITY (replicate AXIVC_SLOT_SIZE 0)\<rparr>"
  by (simp add: axivc_ring_initialize_def axivc_ring_init_stores_def)

lemma ring_initialize_wf: "ring_wf (axivc_ring_initialize ring d)"
  by (simp add: ring_initialize_fields ring_wf_def ring_layout_def ring_used_def slot_wf_def
      list_all_iff)

lemma ring_initialize_empty: "ring_contents (axivc_ring_initialize ring d) = []"
  by (simp add: ring_initialize_fields ring_contents_def ring_used_def)

lemma ring_full_iff:
  "r_tail r - r_head r \<ge> of_nat AXIVC_RING_CAPACITY \<longleftrightarrow> AXIVC_RING_CAPACITY \<le> ring_used r"
  by (simp add: ring_used_def ring_consts word_le_nat_alt)

lemma ring_used_push:
  assumes "ring_used r < AXIVC_RING_CAPACITY"
  shows "unat (r_tail r + 1 - r_head r) = Suc (ring_used r)"
proof -
  have "unat ((r_tail r - r_head r) + 1) = ring_used r + unat (1 :: u32)"
    using assms unfolding ring_used_def by (intro unat_add_no_wrap) (simp add: ring_consts)
  moreover have "(r_tail r - r_head r) + 1 = r_tail r + 1 - r_head r" by simp
  ultimately show ?thesis by simp
qed

lemma push_full:
  "ring_used r \<ge> AXIVC_RING_CAPACITY \<Longrightarrow> axivc_ring_try_push_slot r s = (False, r)"
  by (simp add: axivc_ring_try_push_slot_def ring_full_iff Let_def)

lemma push_accepts:
  "ring_used r < AXIVC_RING_CAPACITY \<Longrightarrow> fst (axivc_ring_try_push_slot r s)"
  by (simp add: axivc_ring_try_push_slot_def ring_full_iff Let_def)

lemma push_room:
  "ring_layout r \<Longrightarrow> ring_used r < AXIVC_RING_CAPACITY \<Longrightarrow> axivc_ring_try_push_slot r s =
    (True, r\<lparr>r_slots := (r_slots r)[slot_index (r_tail r) := s], r_tail := r_tail r + 1\<rparr>)"
  by (simp add: axivc_ring_try_push_slot_def ring_full_iff Let_def)

text \<open>The slot a push writes is none of the slots that are in the queue.\<close>

lemma push_slot_free:
  assumes "ring_used r < AXIVC_RING_CAPACITY" "i < ring_used r"
  shows "slot_index (r_head r + of_nat i) \<noteq> slot_index (r_tail r)"
proof
  assume "slot_index (r_head r + of_nat i) = slot_index (r_tail r)"
  then have "slot_index (r_head r + of_nat i) = slot_index (r_head r + of_nat (ring_used r))"
    by (simp add: ring_used_def)
  then have "i = ring_used r"
    using assms slot_index_inj[of i "ring_used r" "r_head r"] by (simp add: ring_consts)
  with assms(2) show False by simp
qed

lemma free_slot_contents:
  "ring_used r < AXIVC_RING_CAPACITY \<Longrightarrow>
    ring_contents (r\<lparr>r_slots := (r_slots r)[slot_index (r_tail r) := s]\<rparr>) = ring_contents r"
  using push_slot_free[of r]
  by (fastforce simp: ring_contents_def ring_used_def intro!: nth_list_update_neq)

lemma tail_store_contents:
  assumes "ring_used r < AXIVC_RING_CAPACITY"
  shows "ring_contents (r\<lparr>r_tail := r_tail r + 1\<rparr>) =
    ring_contents r @ [r_slots r ! slot_index (r_tail r)]"
  using ring_used_push[OF assms] by (simp add: ring_contents_def ring_used_def)

lemma push_contents:
  assumes "ring_layout r" "ring_used r < AXIVC_RING_CAPACITY"
  shows "ring_contents (snd (axivc_ring_try_push_slot r s)) = ring_contents r @ [s]"
proof -
  let ?r = "r\<lparr>r_slots := (r_slots r)[slot_index (r_tail r) := s]\<rparr>"
  have "ring_used ?r < AXIVC_RING_CAPACITY" using assms(2) by (simp add: ring_used_def)
  from tail_store_contents[OF this] show ?thesis
    using assms by (simp add: push_room free_slot_contents ring_layout_def)
qed

lemma push_layout:
  "ring_layout r \<Longrightarrow> slot_wf s \<Longrightarrow> ring_layout (snd (axivc_ring_try_push_slot r s))"
  by (auto simp: axivc_ring_try_push_slot_def ring_layout_def Let_def list_all_iff
      dest: set_update_subset_insert[THEN subsetD])

lemma push_wf: "ring_wf r \<Longrightarrow> slot_wf s \<Longrightarrow> ring_wf (snd (axivc_ring_try_push_slot r s))"
proof (cases "ring_used r < AXIVC_RING_CAPACITY")
  case True
  assume *: "ring_wf r" "slot_wf s"
  then have "ring_used (snd (axivc_ring_try_push_slot r s)) = Suc (ring_used r)"
    using ring_used_push[OF True] True by (simp add: push_room ring_wf_def ring_used_def)
  with * True show ?thesis by (simp add: ring_wf_def push_layout)
qed (simp add: push_full)

lemma peek_contents:
  assumes "ring_layout r"
  shows "axivc_ring_try_peek_slot r =
    (case ring_contents r of [] \<Rightarrow> None | s # _ \<Rightarrow> Some s)"
proof (cases "ring_used r")
  case 0
  then show ?thesis
    by (simp add: axivc_ring_try_peek_slot_def ring_used_def ring_contents_def Let_def unat_eq_zero)
next
  case (Suc n)
  then have "r_head r \<noteq> r_tail r" by (auto simp: ring_used_def)
  with Suc assms show ?thesis
    by (simp add: axivc_ring_try_peek_slot_def ring_contents_def upt_conv_Cons Let_def del: upt_Suc)
qed

lemma pop_used:
  assumes "ring_used r = Suc n"
  shows "ring_used (axivc_ring_pop_slot r) = n"
proof -
  have "unat (r_tail r - r_head r - 1) = unat (r_tail r - r_head r) - unat (1 :: u32)"
    using assms by (intro unat_sub_no_wrap) (simp add: ring_used_def word_le_nat_alt)
  with assms show ?thesis
    by (simp add: axivc_ring_pop_slot_def ring_used_def diff_diff_eq)
qed

lemma pop_fields [simp]:
  "r_head (axivc_ring_pop_slot r) = r_head r + 1"
  "r_tail (axivc_ring_pop_slot r) = r_tail r"
  "r_slots (axivc_ring_pop_slot r) = r_slots r"
  by (simp_all add: axivc_ring_pop_slot_def)

lemma pop_contents:
  assumes "ring_contents r \<noteq> []"
  shows "ring_contents (axivc_ring_pop_slot r) = tl (ring_contents r)"
proof -
  from assms obtain n where n: "ring_used r = Suc n"
    by (cases "ring_used r") (auto simp: ring_contents_def)
  have "[0..<Suc n] = 0 # map Suc [0..<n]" by (simp add: upt_conv_Cons map_Suc_upt del: upt_Suc)
  then show ?thesis
    by (simp add: ring_contents_def n pop_used[OF n] pop_fields ac_simps comp_def del: upt_Suc)
qed

lemma pop_wf: "ring_wf r \<Longrightarrow> ring_contents r \<noteq> [] \<Longrightarrow> ring_wf (axivc_ring_pop_slot r)"
proof -
  assume *: "ring_wf r" "ring_contents r \<noteq> []"
  then obtain n where n: "ring_used r = Suc n"
    by (cases "ring_used r") (auto simp: ring_contents_def)
  show ?thesis
    using * pop_used[OF n] n
    by (simp add: ring_wf_def ring_layout_def axivc_ring_pop_slot_def)
qed

lemma contents_slot_wf: "ring_wf r \<Longrightarrow> s \<in> set (ring_contents r) \<Longrightarrow> slot_wf s"
  by (auto simp: ring_contents_def ring_wf_def ring_layout_def list_all_length)

section \<open>The interface of a bounded slot queue\<close>

text \<open>
  What the message layer relies on: a push appends or is refused when the queue is full,
  a peek returns the oldest element, a pop after a successful peek removes it.
\<close>

locale slot_queue =
  fixes push :: "'q \<Rightarrow> 'a \<Rightarrow> bool \<times> 'q"
    and peek :: "'q \<Rightarrow> 'a option"
    and pop :: "'q \<Rightarrow> 'q"
    and contents :: "'q \<Rightarrow> 'a list"
    and invar :: "'q \<Rightarrow> bool"
    and elem_ok :: "'a \<Rightarrow> bool"
    and cap :: nat
  assumes bounded: "invar q \<Longrightarrow> length (contents q) \<le> cap"
    and elems_ok: "invar q \<Longrightarrow> x \<in> set (contents q) \<Longrightarrow> elem_ok x"
    and push_refused: "invar q \<Longrightarrow> length (contents q) = cap \<Longrightarrow> push q x = (False, q)"
    and push_accepted: "invar q \<Longrightarrow> length (contents q) < cap \<Longrightarrow> fst (push q x)"
    and push_appends:
      "invar q \<Longrightarrow> length (contents q) < cap \<Longrightarrow> contents (snd (push q x)) = contents q @ [x]"
    and push_invar: "invar q \<Longrightarrow> elem_ok x \<Longrightarrow> invar (snd (push q x))"
    and peek_oldest: "invar q \<Longrightarrow> peek q = (case contents q of [] \<Rightarrow> None | x # _ \<Rightarrow> Some x)"
    and pop_removes: "invar q \<Longrightarrow> contents q \<noteq> [] \<Longrightarrow> contents (pop q) = tl (contents q)"
    and pop_invar: "invar q \<Longrightarrow> contents q \<noteq> [] \<Longrightarrow> invar (pop q)"
begin

lemma push_cases:
  assumes "invar q" "elem_ok x"
  obtains (full) "push q x = (False, q)" "length (contents q) = cap"
  | (room) q' where "push q x = (True, q')" "invar q'" "contents q' = contents q @ [x]"
      "length (contents q) < cap"
proof (cases "length (contents q) = cap")
  case True
  with assms show ?thesis by (intro full) (auto simp: push_refused)
next
  case False
  with assms have lt: "length (contents q) < cap" using bounded by force
  show ?thesis
  proof (rule room[of "snd (push q x)"])
    show "push q x = (True, snd (push q x))"
      using push_accepted[OF assms(1) lt, of x] by (cases "push q x") simp
  qed (use assms lt in \<open>simp_all add: push_invar push_appends\<close>)
qed

lemma push_accepted_iff:
  "invar q \<Longrightarrow> fst (push q x) \<longleftrightarrow> length (contents q) < cap"
  using bounded[of q] push_refused[of q x] push_accepted[of q x]
  by (cases "length (contents q) = cap") (auto simp: le_less)

lemma peek_None_iff: "invar q \<Longrightarrow> peek q = None \<longleftrightarrow> contents q = []"
  by (auto simp: peek_oldest split: list.splits)

lemma peek_SomeD:
  assumes "invar q" "peek q = Some x"
  shows "contents q = x # contents (pop q)" "invar (pop q)" "elem_ok x"
proof -
  have c: "contents q = x # tl (contents q)"
    using assms by (auto simp: peek_oldest split: list.splits)
  then have ne: "contents q \<noteq> []" by auto
  show "contents q = x # contents (pop q)"
    using c assms(1) ne by (metis pop_removes)
  show "invar (pop q)" using assms(1) ne by (rule pop_invar)
  show "elem_ok x" using assms(1) c by (metis elems_ok list.set_intros(1))
qed

text \<open>Pushing a batch until the queue refuses; popping a number of elements.\<close>

fun push_all :: "'q \<Rightarrow> 'a list \<Rightarrow> nat \<times> 'q" where
  "push_all q [] = (0, q)"
| "push_all q (x # xs) =
    (case push q x of
      (False, q') \<Rightarrow> (0, q')
    | (True, q') \<Rightarrow> (case push_all q' xs of (n, q'') \<Rightarrow> (Suc n, q'')))"

fun pop_n :: "nat \<Rightarrow> 'q \<Rightarrow> 'a list \<times> 'q" where
  "pop_n 0 q = ([], q)"
| "pop_n (Suc n) q =
    (case peek q of None \<Rightarrow> ([], q)
     | Some x \<Rightarrow> (case pop_n n (pop q) of (xs, q') \<Rightarrow> (x # xs, q')))"

lemma push_all_spec:
  assumes "invar q" "list_all elem_ok xs" "push_all q xs = (n, q')"
  shows "n = min (length xs) (cap - length (contents q)) \<and>
    contents q' = contents q @ take n xs \<and> invar q'"
  using assms
proof (induction xs arbitrary: q n)
  case Nil
  then show ?case by simp
next
  case (Cons x xs)
  from Cons.prems(1) have "elem_ok x \<Longrightarrow> ?case"
  proof (cases rule: push_cases[of q x, case_names ok full room])
    case full
    with Cons.prems show ?thesis by auto
  next
    case (room q1)
    with Cons.prems obtain m where m: "push_all q1 xs = (m, q')" "n = Suc m"
      by (auto split: prod.splits)
    have "m = min (length xs) (cap - length (contents q1)) \<and>
      contents q' = contents q1 @ take m xs \<and> invar q'"
      using Cons.IH[OF room(2) _ m(1)] Cons.prems(2) by simp
    with room m(2) show ?thesis by auto
  qed
  then show ?case using Cons.prems(2) by simp
qed

lemma pop_n_spec:
  assumes "invar q" "pop_n n q = (xs, q')"
  shows "xs = take n (contents q) \<and> contents q' = drop n (contents q) \<and> invar q'"
  using assms
proof (induction n arbitrary: q xs)
  case 0
  then show ?case by simp
next
  case (Suc n)
  show ?case
  proof (cases "peek q")
    case None
    with Suc.prems show ?thesis by (simp add: peek_None_iff)
  next
    case (Some x)
    with Suc.prems obtain ys where ys: "pop_n n (pop q) = (ys, q')" "xs = x # ys"
      by (auto split: prod.splits)
    note front = peek_SomeD[OF Suc.prems(1) Some]
    have "ys = take n (contents (pop q)) \<and> contents q' = drop n (contents (pop q)) \<and> invar q'"
      using Suc.IH[OF front(2) ys(1)] .
    with front(1) ys(2) show ?thesis by simp
  qed
qed

text \<open>First in, first out: a batch that fits comes out whole and in order.\<close>

lemma push_all_pop_n:
  assumes "invar q" "list_all elem_ok xs" "length (contents q) + length xs \<le> cap"
    and "push_all q xs = (n, q1)" "pop_n (length (contents q) + length xs) q1 = (ys, q2)"
  shows "ys = contents q @ xs \<and> contents q2 = []"
proof -
  have q1: "contents q1 = contents q @ xs" "invar q1"
    using push_all_spec[OF assms(1,2,4)] assms(3) by auto
  show ?thesis
    using pop_n_spec[OF q1(2) assms(5)] q1(1) by simp
qed

end

text \<open>The ring operations implement the interface.\<close>

interpretation rq: slot_queue axivc_ring_try_push_slot axivc_ring_try_peek_slot
  axivc_ring_pop_slot ring_contents ring_wf slot_wf AXIVC_RING_CAPACITY
proof
  fix r s
  assume wf: "ring_wf r"
  show "length (ring_contents r) \<le> AXIVC_RING_CAPACITY"
    using wf by (simp add: ring_wf_def)
  show "axivc_ring_try_push_slot r s = (False, r)" if "length (ring_contents r) = AXIVC_RING_CAPACITY"
    using that by (simp add: push_full)
  show "fst (axivc_ring_try_push_slot r s)" if "length (ring_contents r) < AXIVC_RING_CAPACITY"
    using that wf by (simp add: push_accepts)
  show "ring_contents (snd (axivc_ring_try_push_slot r s)) = ring_contents r @ [s]"
    if "length (ring_contents r) < AXIVC_RING_CAPACITY"
    using that wf by (simp add: push_contents ring_wf_def)
qed (auto simp: contents_slot_wf push_wf ring_wf_layout peek_contents pop_contents pop_wf)

section \<open>Properties\<close>

text \<open>
  C8. The ring refines a bounded first-in first-out queue of slots, for every value of
  the free-running 32-bit indices and across their wrap-around. On a well-formed ring a
  push is refused, with the ring unchanged, exactly when all 32 slots are in use, and
  otherwise appends the slot; a peek returns the oldest slot and fails exactly on the
  empty ring; a pop after a successful peek removes the oldest slot; all keep the ring
  well-formed.
\<close>

theorem ring_refines_queue:
  assumes "ring_wf r" "slot_wf s"
  shows "(axivc_ring_try_push_slot r s = (False, r) \<and> length (ring_contents r) = AXIVC_RING_CAPACITY \<or>
      (\<exists>r'. axivc_ring_try_push_slot r s = (True, r') \<and> ring_wf r' \<and>
        ring_contents r' = ring_contents r @ [s] \<and> length (ring_contents r) < AXIVC_RING_CAPACITY)) \<and>
    (axivc_ring_try_peek_slot r = None \<and> ring_contents r = [] \<or>
      (\<exists>x. axivc_ring_try_peek_slot r = Some x \<and> slot_wf x \<and> ring_wf (axivc_ring_pop_slot r) \<and>
        ring_contents r = x # ring_contents (axivc_ring_pop_slot r)))"
  (is "?push \<and> ?peek")
proof
  show ?push using assms by (cases rule: rq.push_cases) auto
  show ?peek
  proof (cases "axivc_ring_try_peek_slot r")
    case None
    with assms(1) show ?thesis by (simp add: rq.peek_None_iff)
  next
    case (Some x)
    with rq.peek_SomeD[OF assms(1) Some] show ?thesis by auto
  qed
qed

definition wrap_ring :: axivc_ring where
  "wrap_ring = \<lparr>r_direction = 1, r_capacity = 32, r_slot_size = 256, r_head = 0xFFFFFFFF,
    r_tail = 0, r_reserved = [0, 0, 0], r_slots = replicate 32 (replicate 256 0)\<rparr>"

lemma wrap_ring_wf: "ring_wf wrap_ring"
  by (simp add: wrap_ring_def ring_wf_def ring_layout_def ring_used_def slot_wf_def ring_consts
      list_all_iff)

text \<open>
  A ring whose tail index has already wrapped to \<open>0\<close> while its head is still at
  \<open>2 ^ 32 - 1\<close>: one slot is in use and a push appends after it.
\<close>

theorem ring_refines_queue_witness:
  "ring_wf wrap_ring \<and> slot_wf (replicate 256 7) \<and>
    ring_contents (snd (axivc_ring_try_push_slot wrap_ring (replicate 256 7))) =
      ring_contents wrap_ring @ [replicate 256 7]"
proof -
  have s: "slot_wf (replicate 256 7)" by (simp add: slot_wf_def ring_consts)
  have "length (ring_contents wrap_ring) \<noteq> AXIVC_RING_CAPACITY"
    by (simp add: wrap_ring_def ring_used_def ring_consts)
  then show ?thesis
    using ring_refines_queue[OF wrap_ring_wf s] wrap_ring_wf s by auto
qed

text \<open>
  C30. Memory safety against an untrusted peer. The indices live in memory that the other
  virtual machine can write. Whatever values they have, index \<open>tail mod 32\<close> lies inside
  the slot array and an accepted push leaves the array as it was but for that one slot,
  which holds the pushed bytes; a refused push touches nothing. A peek that finds the
  indices different reads exactly the slot \<open>head mod 32\<close>, again inside the array, and a
  pop touches no slot. No operation changes the size of the array or of a slot, whereas an
  access outside the array would destroy it.
\<close>

theorem ring_access_in_bounds:
  assumes "ring_layout r" "slot_wf s"
  shows "unat (r_tail r) mod 32 < length (r_slots r) \<and> unat (r_head r) mod 32 < length (r_slots r) \<and>
    axivc_ring_try_push_slot r s =
      (if unat (r_tail r - r_head r) < 32
       then (True, r\<lparr>r_slots := (r_slots r)[unat (r_tail r) mod 32 := s], r_tail := r_tail r + 1\<rparr>)
       else (False, r)) \<and>
    axivc_ring_try_peek_slot r =
      (if r_head r = r_tail r then None else Some (r_slots r ! (unat (r_head r) mod 32))) \<and>
    r_slots (axivc_ring_pop_slot r) = r_slots r \<and>
    ring_layout (snd (axivc_ring_try_push_slot r s)) \<and>
    list_all slot_wf (case axivc_ring_try_peek_slot r of None \<Rightarrow> [] | Some x \<Rightarrow> [x])"
proof -
  have idx: "unat i mod 32 < length (r_slots r)" for i :: u32
    using assms(1) by (simp add: ring_layout_def ring_consts)
  have push: "axivc_ring_try_push_slot r s =
      (if unat (r_tail r - r_head r) < 32
       then (True, r\<lparr>r_slots := (r_slots r)[unat (r_tail r) mod 32 := s], r_tail := r_tail r + 1\<rparr>)
       else (False, r))"
    using push_room[OF assms(1), of s] push_full[of r s]
    by (simp add: slot_index_eq ring_used_def ring_consts)
  have peek: "axivc_ring_try_peek_slot r =
      (if r_head r = r_tail r then None else Some (r_slots r ! (unat (r_head r) mod 32)))"
    using load_slot_in_layout[OF assms(1), of "r_head r"]
    by (simp add: axivc_ring_try_peek_slot_def Let_def slot_index_eq)
  have "slot_wf (r_slots r ! (unat (r_head r) mod 32))"
    using assms(1) idx by (simp add: ring_layout_def list_all_length)
  with push peek idx push_layout[OF assms] show ?thesis by simp
qed

theorem ring_access_in_bounds_witness:
  "ring_layout (wrap_ring\<lparr>r_head := 12345, r_tail := 12350\<rparr>) \<and> slot_wf (replicate 256 7) \<and>
    r_slots (snd (axivc_ring_try_push_slot (wrap_ring\<lparr>r_head := 12345, r_tail := 12350\<rparr>)
      (replicate 256 7))) = (r_slots wrap_ring)[30 := replicate 256 7]"
proof -
  have l: "ring_layout (wrap_ring\<lparr>r_head := 12345, r_tail := 12350\<rparr>)"
    using wrap_ring_wf by (simp add: ring_wf_def ring_layout_def)
  have s: "slot_wf (replicate 256 7)" by (simp add: slot_wf_def ring_consts)
  show ?thesis using ring_access_in_bounds[OF l s] l s by simp
qed

end
