(* ===== verification/Axivc_Spsc.thy ===== *)
theory Axivc_Spsc
  imports Axivc_Ring
begin

text \<open>
  The ring of \<^verbatim>\<open>ivc/ring.c\<close> used by one producer and one consumer at the same time.
  Every access to the shared memory is a step of its own (the index reads, each byte of
  the two \<open>memcpy\<close> calls, the two index stores), and the two sides interleave freely. The
  acquire/release pairs of the sources are read as sequentially consistent accesses.
  The invariant shows that no interleaving tears, loses, duplicates or reorders a slot,
  and the sequential functions of \<open>Axivc_Ring\<close> compute exactly what the uninterrupted
  runs of one side's steps lead to.
\<close>

section \<open>Steps\<close>

datatype producer =
    P_Idle
  | P_Tail slot u32          \<comment> \<open>tail was read, head is read next\<close>
  | P_Copy slot u32 nat      \<comment> \<open>there is room; this many bytes of the slot are written\<close>

datatype consumer =
    C_Idle
  | C_Head u32               \<comment> \<open>head was read, tail is read next\<close>
  | C_Copy u32 slot          \<comment> \<open>not empty; the bytes copied out so far\<close>
  | C_Peeked slot            \<comment> \<open>the peek returned this slot\<close>
  | C_Pop slot u32           \<comment> \<open>the pop has read head and stores head + 1 next\<close>

record spsc =
  sp_ring :: axivc_ring
  sp_prod :: producer
  sp_cons :: consumer
  sp_pushed :: "slot list"      \<comment> \<open>every slot whose push returned true, oldest first\<close>
  sp_popped :: "slot list"      \<comment> \<open>every slot that was peeked and then popped, oldest first\<close>

definition put_byte :: "axivc_ring \<Rightarrow> u32 \<Rightarrow> nat \<Rightarrow> u8 \<Rightarrow> axivc_ring" where
  "put_byte r t n b =
    r\<lparr>r_slots := (r_slots r)[slot_index t := (r_slots r ! slot_index t)[n := b]]\<rparr>"

inductive spsc_step :: "spsc \<Rightarrow> spsc \<Rightarrow> bool" where
  p_read_tail: "sp_prod s = P_Idle \<Longrightarrow> slot_wf x \<Longrightarrow>
    spsc_step s (s\<lparr>sp_prod := P_Tail x (r_tail (sp_ring s))\<rparr>)"
| p_full: "sp_prod s = P_Tail x t \<Longrightarrow> t - r_head (sp_ring s) \<ge> of_nat AXIVC_RING_CAPACITY \<Longrightarrow>
    spsc_step s (s\<lparr>sp_prod := P_Idle\<rparr>)"
| p_room: "sp_prod s = P_Tail x t \<Longrightarrow> \<not> t - r_head (sp_ring s) \<ge> of_nat AXIVC_RING_CAPACITY \<Longrightarrow>
    spsc_step s (s\<lparr>sp_prod := P_Copy x t 0\<rparr>)"
| p_copy: "sp_prod s = P_Copy x t n \<Longrightarrow> n < AXIVC_SLOT_SIZE \<Longrightarrow>
    spsc_step s (s\<lparr>sp_ring := put_byte (sp_ring s) t n (x ! n), sp_prod := P_Copy x t (Suc n)\<rparr>)"
| p_store_tail: "sp_prod s = P_Copy x t AXIVC_SLOT_SIZE \<Longrightarrow>
    spsc_step s (s\<lparr>sp_ring := (sp_ring s)\<lparr>r_tail := t + 1\<rparr>, sp_prod := P_Idle, sp_pushed := sp_pushed s @ [x]\<rparr>)"
| c_read_head: "sp_cons s = C_Idle \<Longrightarrow> spsc_step s (s\<lparr>sp_cons := C_Head (r_head (sp_ring s))\<rparr>)"
| c_empty: "sp_cons s = C_Head h \<Longrightarrow> h = r_tail (sp_ring s) \<Longrightarrow> spsc_step s (s\<lparr>sp_cons := C_Idle\<rparr>)"
| c_found: "sp_cons s = C_Head h \<Longrightarrow> h \<noteq> r_tail (sp_ring s) \<Longrightarrow> spsc_step s (s\<lparr>sp_cons := C_Copy h []\<rparr>)"
| c_copy: "sp_cons s = C_Copy h b \<Longrightarrow> length b < AXIVC_SLOT_SIZE \<Longrightarrow>
    spsc_step s (s\<lparr>sp_cons := C_Copy h (b @ [r_slots (sp_ring s) ! slot_index h ! length b])\<rparr>)"
| c_peeked: "sp_cons s = C_Copy h b \<Longrightarrow> length b = AXIVC_SLOT_SIZE \<Longrightarrow>
    spsc_step s (s\<lparr>sp_cons := C_Peeked b\<rparr>)"
| c_keep: "sp_cons s = C_Peeked b \<Longrightarrow> spsc_step s (s\<lparr>sp_cons := C_Idle\<rparr>)"
| c_pop_read: "sp_cons s = C_Peeked b \<Longrightarrow> spsc_step s (s\<lparr>sp_cons := C_Pop b (r_head (sp_ring s))\<rparr>)"
| c_pop_store: "sp_cons s = C_Pop b h \<Longrightarrow>
    spsc_step s (s\<lparr>sp_ring := (sp_ring s)\<lparr>r_head := h + 1\<rparr>, sp_cons := C_Idle, sp_popped := sp_popped s @ [b]\<rparr>)"

definition spsc_init :: "axivc_ring \<Rightarrow> spsc" where
  "spsc_init r = \<lparr>sp_ring = r, sp_prod = P_Idle, sp_cons = C_Idle, sp_pushed = ring_contents r, sp_popped = []\<rparr>"

inductive spsc_reach :: "axivc_ring \<Rightarrow> spsc \<Rightarrow> bool" for r where
  reach_init: "spsc_reach r (spsc_init r)"
| reach_step: "spsc_reach r s \<Longrightarrow> spsc_step s t \<Longrightarrow> spsc_reach r t"

section \<open>The invariant\<close>

fun prod_ok :: "axivc_ring \<Rightarrow> producer \<Rightarrow> bool" where
  "prod_ok r P_Idle = True"
| "prod_ok r (P_Tail x t) = (t = r_tail r \<and> slot_wf x)"
| "prod_ok r (P_Copy x t n) = (t = r_tail r \<and> slot_wf x \<and> ring_used r < AXIVC_RING_CAPACITY \<and>
    n \<le> AXIVC_SLOT_SIZE \<and> take n (r_slots r ! slot_index t) = take n x)"

fun cons_ok :: "axivc_ring \<Rightarrow> consumer \<Rightarrow> bool" where
  "cons_ok r C_Idle = True"
| "cons_ok r (C_Head h) = (h = r_head r)"
| "cons_ok r (C_Copy h b) = (h = r_head r \<and> ring_contents r \<noteq> [] \<and>
    length b \<le> AXIVC_SLOT_SIZE \<and> b = take (length b) (hd (ring_contents r)))"
| "cons_ok r (C_Peeked b) = (ring_contents r \<noteq> [] \<and> b = hd (ring_contents r))"
| "cons_ok r (C_Pop b h) = (h = r_head r \<and> ring_contents r \<noteq> [] \<and> b = hd (ring_contents r))"

definition spsc_inv :: "spsc \<Rightarrow> bool" where
  "spsc_inv s \<longleftrightarrow> ring_wf (sp_ring s) \<and> sp_popped s @ ring_contents (sp_ring s) = sp_pushed s \<and>
    prod_ok (sp_ring s) (sp_prod s) \<and> cons_ok (sp_ring s) (sp_cons s)"

lemma spsc_inv_init: "ring_wf r \<Longrightarrow> spsc_inv (spsc_init r)"
  by (simp add: spsc_inv_def spsc_init_def)

lemma hd_contents:
  "ring_contents r \<noteq> [] \<Longrightarrow> hd (ring_contents r) = r_slots r ! slot_index (r_head r)"
  by (simp add: ring_contents_def hd_map)

text \<open>What the consumer knows depends on the head and on the slots in the queue only, and
  stays true when the queue grows at its end.\<close>

lemma cons_ok_grow:
  assumes "cons_ok r c" "r_head r' = r_head r" "ring_contents r' = ring_contents r @ xs"
  shows "cons_ok r' c"
  using assms by (cases c) auto

lemma slots_wf_nth: "ring_layout r \<Longrightarrow> slot_wf (r_slots r ! slot_index i)"
  by (simp add: ring_layout_def list_all_length)

lemma put_byte_contents:
  "ring_used r < AXIVC_RING_CAPACITY \<Longrightarrow> ring_contents (put_byte r (r_tail r) n b) = ring_contents r"
  by (simp add: put_byte_def free_slot_contents)

lemma put_byte_wf: "ring_wf r \<Longrightarrow> ring_wf (put_byte r t n b)"
  using slots_wf_nth[of r t]
  by (auto simp: ring_wf_def ring_layout_def put_byte_def ring_used_def slot_wf_def list_all_iff
      dest: set_update_subset_insert[THEN subsetD])

lemma put_byte_prefix:
  assumes "ring_layout r" "n < AXIVC_SLOT_SIZE" "slot_wf x"
    and "take n (r_slots r ! slot_index t) = take n x"
  shows "take (Suc n) (r_slots (put_byte r t n (x ! n)) ! slot_index t) = take (Suc n) x"
proof -
  have "slot_index t < length (r_slots r)"
    using assms(1) by (simp add: ring_layout_def)
  moreover have "length (r_slots r ! slot_index t) = AXIVC_SLOT_SIZE" "length x = AXIVC_SLOT_SIZE"
    using slots_wf_nth[OF assms(1)] assms(3) by (simp_all add: slot_wf_def)
  ultimately show ?thesis
    using assms(2,4) by (simp add: put_byte_def take_Suc_conv_app_nth)
qed

lemma prod_ok_pop:
  assumes "prod_ok r p" "ring_used r = Suc n"
  shows "prod_ok (axivc_ring_pop_slot r) p"
  using assms pop_used[OF assms(2)] by (cases p) auto

lemma pop_store_eq: "r\<lparr>r_head := r_head r + 1\<rparr> = axivc_ring_pop_slot r"
  by (simp add: axivc_ring_pop_slot_def)

lemma contents_Nil_iff: "ring_contents r = [] \<longleftrightarrow> r_head r = r_tail r"
  by (auto simp: ring_contents_def ring_used_def unat_eq_zero)

lemma contents_used: "ring_contents r \<noteq> [] \<Longrightarrow> \<exists>n. ring_used r = Suc n"
  by (cases "ring_used r") (auto simp: ring_contents_def)

lemma spsc_inv_producer_copy:
  assumes inv: "spsc_inv s" and p: "sp_prod s = P_Copy x t n" "n < AXIVC_SLOT_SIZE"
  shows "spsc_inv (s\<lparr>sp_ring := put_byte (sp_ring s) t n (x ! n), sp_prod := P_Copy x t (Suc n)\<rparr>)"
proof -
  let ?r = "put_byte (sp_ring s) t n (x ! n)"
  from inv p have t: "t = r_tail (sp_ring s)" "slot_wf x" "ring_used (sp_ring s) < AXIVC_RING_CAPACITY"
      "take n (r_slots (sp_ring s) ! slot_index t) = take n x"
    by (auto simp: spsc_inv_def)
  from inv have wf: "ring_wf (sp_ring s)" by (simp add: spsc_inv_def)
  have c: "ring_contents ?r = ring_contents (sp_ring s)"
    using t by (simp add: put_byte_contents)
  have "cons_ok ?r (sp_cons s)"
    using inv c cons_ok_grow[of "sp_ring s" "sp_cons s" ?r "[]"]
    by (simp add: spsc_inv_def) (simp add: put_byte_def)
  moreover have "prod_ok ?r (P_Copy x t (Suc n))"
    using t p(2) wf put_byte_prefix[of "sp_ring s" n x t]
    by (simp add: ring_wf_def) (simp add: put_byte_def ring_used_def)
  ultimately show ?thesis
    using inv c put_byte_wf[OF wf] by (simp add: spsc_inv_def)
qed

lemma spsc_inv_store_tail:
  assumes inv: "spsc_inv s" and p: "sp_prod s = P_Copy x t AXIVC_SLOT_SIZE"
  shows "spsc_inv (s\<lparr>sp_ring := (sp_ring s)\<lparr>r_tail := t + 1\<rparr>, sp_prod := P_Idle,
    sp_pushed := sp_pushed s @ [x]\<rparr>)"
proof -
  let ?q = "sp_ring s" and ?r = "(sp_ring s)\<lparr>r_tail := t + 1\<rparr>"
  from inv p have t: "t = r_tail ?q" "slot_wf x" "ring_used ?q < AXIVC_RING_CAPACITY"
      "take AXIVC_SLOT_SIZE (r_slots ?q ! slot_index t) = take AXIVC_SLOT_SIZE x"
    by (auto simp: spsc_inv_def)
  from inv have wf: "ring_wf ?q" by (simp add: spsc_inv_def)
  then have "r_slots ?q ! slot_index t = x"
    using t slots_wf_nth[of ?q t] by (simp add: ring_wf_def slot_wf_def)
  then have c: "ring_contents ?r = ring_contents ?q @ [x]"
    using tail_store_contents[OF t(3)] t(1) by simp
  have "ring_wf ?r"
    using wf ring_used_push[OF t(3)] t(1,3) by (simp add: ring_wf_def ring_layout_def ring_used_def)
  moreover have "cons_ok ?r (sp_cons s)"
    using inv by (intro cons_ok_grow[OF _ _ c]) (simp_all add: spsc_inv_def)
  ultimately show ?thesis
    using inv c by (auto simp: spsc_inv_def)
qed

lemma spsc_inv_pop_store:
  assumes inv: "spsc_inv s" and c: "sp_cons s = C_Pop b h"
  shows "spsc_inv (s\<lparr>sp_ring := (sp_ring s)\<lparr>r_head := h + 1\<rparr>, sp_cons := C_Idle,
    sp_popped := sp_popped s @ [b]\<rparr>)"
proof -
  from inv c have h: "h = r_head (sp_ring s)" "ring_contents (sp_ring s) \<noteq> []"
      "b = hd (ring_contents (sp_ring s))"
    by (auto simp: spsc_inv_def)
  from contents_used[OF h(2)] obtain n where "ring_used (sp_ring s) = Suc n" ..
  with inv h show ?thesis
    by (simp add: spsc_inv_def pop_store_eq pop_wf pop_contents prod_ok_pop)
qed

lemma spsc_inv_step: "spsc_step s t \<Longrightarrow> spsc_inv s \<Longrightarrow> spsc_inv t"
proof (induction rule: spsc_step.induct)
  case (c_copy s h b)
  then have "length (hd (ring_contents (sp_ring s))) = AXIVC_SLOT_SIZE"
    using contents_slot_wf[of "sp_ring s" "hd (ring_contents (sp_ring s))"]
    by (auto simp: spsc_inv_def slot_wf_def)
  with c_copy show ?case
    by (auto simp: spsc_inv_def hd_contents take_Suc_conv_app_nth)
next
  case (c_peeked s h b)
  then have "length (hd (ring_contents (sp_ring s))) = AXIVC_SLOT_SIZE"
    using contents_slot_wf[of "sp_ring s" "hd (ring_contents (sp_ring s))"]
    by (auto simp: spsc_inv_def slot_wf_def)
  with c_peeked show ?case by (auto simp: spsc_inv_def)
next
  case (c_found s h)
  then show ?case by (auto simp: spsc_inv_def contents_Nil_iff)
next
  case (p_copy s x t n)
  then show ?case by (intro spsc_inv_producer_copy)
next
  case (p_store_tail s x t)
  then show ?case by (intro spsc_inv_store_tail)
next
  case (c_pop_store s b h)
  then show ?case by (intro spsc_inv_pop_store)
qed (auto simp: spsc_inv_def ring_full_iff)

lemma spsc_reach_inv: "spsc_reach r s \<Longrightarrow> ring_wf r \<Longrightarrow> spsc_inv s"
  by (induction rule: spsc_reach.induct) (auto intro: spsc_inv_init spsc_inv_step)

section \<open>Calls without interruption\<close>

text \<open>
  A step of the producer in the middle of a push, and of the consumer in the middle of a
  peek or a pop. A call is the first read of the side's own index followed by such steps
  until the call returns; a peek that found a slot returns it in \<open>C_Peeked\<close>.
\<close>

definition producer_runs :: "spsc \<Rightarrow> spsc \<Rightarrow> bool" where
  "producer_runs s t \<longleftrightarrow> sp_prod s \<noteq> P_Idle \<and> spsc_step s t \<and> sp_cons t = sp_cons s"

definition consumer_returned :: "consumer \<Rightarrow> bool" where
  "consumer_returned c \<longleftrightarrow> (case c of C_Idle \<Rightarrow> True | C_Peeked _ \<Rightarrow> True | _ \<Rightarrow> False)"

definition consumer_runs :: "spsc \<Rightarrow> spsc \<Rightarrow> bool" where
  "consumer_runs s t \<longleftrightarrow> \<not> consumer_returned (sp_cons s) \<and> spsc_step s t \<and> sp_prod t = sp_prod s"

definition push_call :: "spsc \<Rightarrow> slot \<Rightarrow> spsc \<Rightarrow> bool" where
  "push_call s x t \<longleftrightarrow> sp_prod s = P_Idle \<and>
    (\<exists>s1. spsc_step s s1 \<and> sp_prod s1 = P_Tail x (r_tail (sp_ring s)) \<and>
      producer_runs\<^sup>*\<^sup>* s1 t \<and> sp_prod t = P_Idle)"

definition peek_call :: "spsc \<Rightarrow> spsc \<Rightarrow> bool" where
  "peek_call s t \<longleftrightarrow> sp_cons s = C_Idle \<and>
    (\<exists>s1. spsc_step s s1 \<and> sp_cons s1 = C_Head (r_head (sp_ring s)) \<and>
      consumer_runs\<^sup>*\<^sup>* s1 t \<and> consumer_returned (sp_cons t))"

definition pop_call :: "spsc \<Rightarrow> slot \<Rightarrow> spsc \<Rightarrow> bool" where
  "pop_call s x t \<longleftrightarrow> sp_cons s = C_Peeked x \<and>
    (\<exists>s1. spsc_step s s1 \<and> sp_cons s1 = C_Pop x (r_head (sp_ring s)) \<and>
      consumer_runs\<^sup>*\<^sup>* s1 t \<and> consumer_returned (sp_cons t))"

text \<open>Each side is deterministic, and a call that has returned takes no further step.\<close>

fun producer_next :: "producer \<Rightarrow> spsc \<Rightarrow> spsc" where
  "producer_next P_Idle s = s"
| "producer_next (P_Tail x t) s =
    (if t - r_head (sp_ring s) \<ge> of_nat AXIVC_RING_CAPACITY then s\<lparr>sp_prod := P_Idle\<rparr>
     else s\<lparr>sp_prod := P_Copy x t 0\<rparr>)"
| "producer_next (P_Copy x t n) s =
    (if n < AXIVC_SLOT_SIZE
     then s\<lparr>sp_ring := put_byte (sp_ring s) t n (x ! n), sp_prod := P_Copy x t (Suc n)\<rparr>
     else s\<lparr>sp_ring := (sp_ring s)\<lparr>r_tail := t + 1\<rparr>, sp_prod := P_Idle, sp_pushed := sp_pushed s @ [x]\<rparr>)"

fun consumer_next :: "consumer \<Rightarrow> spsc \<Rightarrow> spsc" where
  "consumer_next (C_Head h) s =
    (if h = r_tail (sp_ring s) then s\<lparr>sp_cons := C_Idle\<rparr> else s\<lparr>sp_cons := C_Copy h []\<rparr>)"
| "consumer_next (C_Copy h b) s =
    (if length b < AXIVC_SLOT_SIZE
     then s\<lparr>sp_cons := C_Copy h (b @ [r_slots (sp_ring s) ! slot_index h ! length b])\<rparr>
     else s\<lparr>sp_cons := C_Peeked b\<rparr>)"
| "consumer_next (C_Pop b h) s =
    s\<lparr>sp_ring := (sp_ring s)\<lparr>r_head := h + 1\<rparr>, sp_cons := C_Idle, sp_popped := sp_popped s @ [b]\<rparr>"
| "consumer_next _ s = s"

lemma producer_runs_next: "producer_runs s t \<Longrightarrow> t = producer_next (sp_prod s) s"
  unfolding producer_runs_def by (elim conjE, erule spsc_step.cases) auto

lemma consumer_runs_next: "consumer_runs s t \<Longrightarrow> t = consumer_next (sp_cons s) s"
  unfolding consumer_runs_def consumer_returned_def
  by (elim conjE, erule spsc_step.cases) (auto split: consumer.splits)

lemma terminal_run_unique:
  assumes det: "\<forall>a b. R a b \<longrightarrow> b = f a" and "R\<^sup>*\<^sup>* s t" "\<forall>b. \<not> R t b"
  shows "R\<^sup>*\<^sup>* s u \<Longrightarrow> \<forall>b. \<not> R u b \<Longrightarrow> u = t"
  using assms(2,3)
proof (induction arbitrary: u rule: converse_rtranclp_induct)
  case base
  then show ?case by (metis converse_rtranclpE)
next
  case (step a b)
  then have "R\<^sup>*\<^sup>* b u" using det by (metis converse_rtranclpE)
  with step show ?case by blast
qed

lemma producer_run_unique:
  assumes "producer_runs\<^sup>*\<^sup>* s t" "sp_prod t = P_Idle" "producer_runs\<^sup>*\<^sup>* s u" "sp_prod u = P_Idle"
  shows "u = t"
  using terminal_run_unique[of producer_runs "\<lambda>s. producer_next (sp_prod s) s" s t u] assms
  by (simp add: producer_runs_next) (simp add: producer_runs_def)

lemma consumer_run_unique:
  assumes "consumer_runs\<^sup>*\<^sup>* s t" "consumer_returned (sp_cons t)"
    and "consumer_runs\<^sup>*\<^sup>* s u" "consumer_returned (sp_cons u)"
  shows "u = t"
  using terminal_run_unique[of consumer_runs "\<lambda>s. consumer_next (sp_cons s) s" s t u] assms
  by (simp add: consumer_runs_next) (simp add: consumer_runs_def)

section \<open>Where the uninterrupted calls lead\<close>

lemma producer_runsI:
  "spsc_step s t \<Longrightarrow> sp_prod s \<noteq> P_Idle \<Longrightarrow> sp_cons t = sp_cons s \<Longrightarrow> producer_runs s t"
  by (simp add: producer_runs_def)

lemma consumer_runsI:
  "spsc_step s t \<Longrightarrow> \<not> consumer_returned (sp_cons s) \<Longrightarrow> sp_prod t = sp_prod s \<Longrightarrow> consumer_runs s t"
  by (simp add: consumer_runs_def)

lemma consumer_returned_simps [simp]:
  "consumer_returned C_Idle" "consumer_returned (C_Peeked b)" "\<not> consumer_returned (C_Head h)"
  "\<not> consumer_returned (C_Copy h b)" "\<not> consumer_returned (C_Pop b h)"
  by (simp_all add: consumer_returned_def)

lemma producer_copy_run:
  assumes "sp_prod s = P_Copy x t 0" "slot_wf x" "ring_layout (sp_ring s)" "n \<le> AXIVC_SLOT_SIZE"
  shows "producer_runs\<^sup>*\<^sup>* s (s\<lparr>sp_ring := (sp_ring s)\<lparr>r_slots := (r_slots (sp_ring s))
    [slot_index t := take n x @ drop n (r_slots (sp_ring s) ! slot_index t)]\<rparr>, sp_prod := P_Copy x t n\<rparr>)"
  using assms(4)
proof (induction n)
  case 0
  then show ?case using assms(1) by (cases s) simp
next
  case (Suc n)
  let ?old = "r_slots (sp_ring s) ! slot_index t"
  let ?s = "\<lambda>n. s\<lparr>sp_ring := (sp_ring s)\<lparr>r_slots := (r_slots (sp_ring s))
    [slot_index t := take n x @ drop n ?old]\<rparr>, sp_prod := P_Copy x t n\<rparr>"
  have len: "length ?old = AXIVC_SLOT_SIZE" "length x = AXIVC_SLOT_SIZE"
    using slots_wf_nth[OF assms(3)] assms(2) by (simp_all add: slot_wf_def)
  have idx: "slot_index t < length (r_slots (sp_ring s))"
    using assms(3) by (simp add: ring_layout_def)
  have "(take n x @ drop n ?old)[n := x ! n] = take (Suc n) x @ drop (Suc n) ?old"
    using Suc.prems len
    by (simp add: list_update_append take_Suc_conv_app_nth Cons_nth_drop_Suc[symmetric])
  then have "?s (Suc n) =
      (?s n)\<lparr>sp_ring := put_byte (sp_ring (?s n)) t n (x ! n), sp_prod := P_Copy x t (Suc n)\<rparr>"
    using idx by (simp add: put_byte_def)
  also have "producer_runs (?s n) \<dots>"
    using Suc.prems by (intro producer_runsI spsc_step.p_copy) auto
  finally show ?case
    using Suc by (simp add: rtranclp.rtrancl_into_rtrancl)
qed

lemma push_run:
  assumes "slot_wf x" "ring_layout (sp_ring s)"
  shows "producer_runs\<^sup>*\<^sup>* (s\<lparr>sp_prod := P_Tail x (r_tail (sp_ring s))\<rparr>)
    (s\<lparr>sp_ring := snd (axivc_ring_try_push_slot (sp_ring s) x), sp_prod := P_Idle,
      sp_pushed := sp_pushed s @ (if fst (axivc_ring_try_push_slot (sp_ring s) x) then [x] else [])\<rparr>)"
proof -
  let ?q = "sp_ring s"
  let ?s1 = "s\<lparr>sp_prod := P_Tail x (r_tail ?q)\<rparr>"
  show ?thesis
  proof (cases "r_tail ?q - r_head ?q \<ge> of_nat AXIVC_RING_CAPACITY")
    case True
    then have "producer_runs ?s1 (?s1\<lparr>sp_prod := P_Idle\<rparr>)"
      by (intro producer_runsI spsc_step.p_full) auto
    with True show ?thesis by (simp add: axivc_ring_try_push_slot_def)
  next
    case False
    let ?s2 = "s\<lparr>sp_prod := P_Copy x (r_tail ?q) 0\<rparr>"
    let ?r3 = "?q\<lparr>r_slots := (r_slots ?q)[slot_index (r_tail ?q) := x]\<rparr>"
    let ?s3 = "s\<lparr>sp_ring := ?r3, sp_prod := P_Copy x (r_tail ?q) AXIVC_SLOT_SIZE\<rparr>"
    let ?s4 = "s\<lparr>sp_ring := ?r3\<lparr>r_tail := r_tail ?q + 1\<rparr>, sp_prod := P_Idle,
      sp_pushed := sp_pushed s @ [x]\<rparr>"
    have "producer_runs ?s1 (?s1\<lparr>sp_prod := P_Copy x (r_tail ?q) 0\<rparr>)"
      using False by (intro producer_runsI spsc_step.p_room) auto
    then have s2: "producer_runs ?s1 ?s2" by simp
    have "length (r_slots ?q ! slot_index (r_tail ?q)) = AXIVC_SLOT_SIZE" "length x = AXIVC_SLOT_SIZE"
      using slots_wf_nth[OF assms(2)] assms(1) by (simp_all add: slot_wf_def)
    then have s3: "producer_runs\<^sup>*\<^sup>* ?s2 ?s3"
      using producer_copy_run[of ?s2 x "r_tail ?q" AXIVC_SLOT_SIZE] assms by simp
    have "producer_runs ?s3 (?s3\<lparr>sp_ring := (sp_ring ?s3)\<lparr>r_tail := r_tail ?q + 1\<rparr>,
        sp_prod := P_Idle, sp_pushed := sp_pushed ?s3 @ [x]\<rparr>)"
      by (intro producer_runsI spsc_step.p_store_tail) simp_all
    then have s4: "producer_runs ?s3 ?s4" by simp
    from s2 s3 s4 have "producer_runs\<^sup>*\<^sup>* ?s1 ?s4"
      by (meson converse_rtranclp_into_rtranclp rtranclp.rtrancl_into_rtrancl)
    moreover have "axivc_ring_try_push_slot ?q x = (True, ?r3\<lparr>r_tail := r_tail ?q + 1\<rparr>)"
      using False assms(2) by (simp add: axivc_ring_try_push_slot_def Let_def)
    ultimately show ?thesis by simp
  qed
qed

lemma consumer_copy_run:
  assumes "sp_cons s = C_Copy h []" "ring_layout (sp_ring s)" "n \<le> AXIVC_SLOT_SIZE"
  shows "consumer_runs\<^sup>*\<^sup>* s (s\<lparr>sp_cons := C_Copy h (take n (r_slots (sp_ring s) ! slot_index h))\<rparr>)"
  using assms(3)
proof (induction n)
  case 0
  then show ?case using assms(1) by (cases s) simp
next
  case (Suc n)
  let ?x = "r_slots (sp_ring s) ! slot_index h"
  let ?s = "\<lambda>n. s\<lparr>sp_cons := C_Copy h (take n ?x)\<rparr>"
  have len: "length ?x = AXIVC_SLOT_SIZE"
    using slots_wf_nth[OF assms(2)] by (simp add: slot_wf_def)
  have "?s (Suc n) = (?s n)\<lparr>sp_cons := C_Copy h (take n ?x @
      [r_slots (sp_ring (?s n)) ! slot_index h ! length (take n ?x)])\<rparr>"
    using Suc.prems len by (simp add: take_Suc_conv_app_nth)
  also have "consumer_runs (?s n) \<dots>"
    using Suc.prems len by (intro consumer_runsI spsc_step.c_copy) auto
  finally show ?case
    using Suc by (simp add: rtranclp.rtrancl_into_rtrancl)
qed

lemma peek_run:
  assumes "ring_layout (sp_ring s)"
  shows "consumer_runs\<^sup>*\<^sup>* (s\<lparr>sp_cons := C_Head (r_head (sp_ring s))\<rparr>) (s\<lparr>sp_cons :=
    (case axivc_ring_try_peek_slot (sp_ring s) of None \<Rightarrow> C_Idle | Some x \<Rightarrow> C_Peeked x)\<rparr>)"
proof -
  let ?q = "sp_ring s"
  let ?s1 = "s\<lparr>sp_cons := C_Head (r_head ?q)\<rparr>"
  show ?thesis
  proof (cases "r_head ?q = r_tail ?q")
    case True
    then have "consumer_runs ?s1 (?s1\<lparr>sp_cons := C_Idle\<rparr>)"
      by (intro consumer_runsI spsc_step.c_empty) auto
    with True show ?thesis by (simp add: axivc_ring_try_peek_slot_def Let_def)
  next
    case False
    let ?x = "r_slots ?q ! slot_index (r_head ?q)"
    let ?s2 = "s\<lparr>sp_cons := C_Copy (r_head ?q) []\<rparr>" and ?s3 = "s\<lparr>sp_cons := C_Copy (r_head ?q) ?x\<rparr>"
    have "consumer_runs ?s1 (?s1\<lparr>sp_cons := C_Copy (r_head ?q) []\<rparr>)"
      using False by (intro consumer_runsI spsc_step.c_found) auto
    then have s2: "consumer_runs ?s1 ?s2" by simp
    have len: "length ?x = AXIVC_SLOT_SIZE"
      using slots_wf_nth[OF assms] by (simp add: slot_wf_def)
    then have s3: "consumer_runs\<^sup>*\<^sup>* ?s2 ?s3"
      using consumer_copy_run[of ?s2 "r_head ?q" AXIVC_SLOT_SIZE] assms by simp
    have "consumer_runs ?s3 (?s3\<lparr>sp_cons := C_Peeked ?x\<rparr>)"
      using len by (intro consumer_runsI spsc_step.c_peeked) auto
    with s2 s3 have "consumer_runs\<^sup>*\<^sup>* ?s1 (s\<lparr>sp_cons := C_Peeked ?x\<rparr>)"
      by (simp add: converse_rtranclp_into_rtranclp rtranclp.rtrancl_into_rtrancl)
    with False assms show ?thesis by (simp add: axivc_ring_try_peek_slot_def Let_def)
  qed
qed

lemma pop_run:
  "consumer_runs\<^sup>*\<^sup>* (s\<lparr>sp_cons := C_Pop x (r_head (sp_ring s))\<rparr>)
    (s\<lparr>sp_ring := axivc_ring_pop_slot (sp_ring s), sp_cons := C_Idle, sp_popped := sp_popped s @ [x]\<rparr>)"
proof -
  let ?s1 = "s\<lparr>sp_cons := C_Pop x (r_head (sp_ring s))\<rparr>"
  have "consumer_runs ?s1 (?s1\<lparr>sp_ring := (sp_ring ?s1)\<lparr>r_head := r_head (sp_ring s) + 1\<rparr>,
      sp_cons := C_Idle, sp_popped := sp_popped ?s1 @ [x]\<rparr>)"
    by (intro consumer_runsI spsc_step.c_pop_store) simp_all
  then show ?thesis by (simp add: pop_store_eq)
qed

text \<open>The first step of each call is determined too.\<close>

lemma push_entry:
  "sp_prod s = P_Idle \<Longrightarrow> slot_wf x \<Longrightarrow>
    spsc_step s s1 \<and> sp_prod s1 = P_Tail x (r_tail (sp_ring s)) \<longleftrightarrow>
    s1 = s\<lparr>sp_prod := P_Tail x (r_tail (sp_ring s))\<rparr>"
  by (auto intro: spsc_step.p_read_tail elim: spsc_step.cases)

lemma peek_entry:
  "sp_cons s = C_Idle \<Longrightarrow>
    spsc_step s s1 \<and> sp_cons s1 = C_Head (r_head (sp_ring s)) \<longleftrightarrow>
    s1 = s\<lparr>sp_cons := C_Head (r_head (sp_ring s))\<rparr>"
  by (auto intro: spsc_step.c_read_head elim: spsc_step.cases)

lemma pop_entry:
  "sp_cons s = C_Peeked x \<Longrightarrow>
    spsc_step s s1 \<and> sp_cons s1 = C_Pop x (r_head (sp_ring s)) \<longleftrightarrow>
    s1 = s\<lparr>sp_cons := C_Pop x (r_head (sp_ring s))\<rparr>"
  by (auto intro: spsc_step.c_pop_read elim: spsc_step.cases)

lemma determined_call:
  assumes "\<And>s1. A s1 \<and> B s1 \<longleftrightarrow> s1 = e" "R\<^sup>*\<^sup>* e u" "Q u"
    and "\<And>t. R\<^sup>*\<^sup>* e t \<Longrightarrow> Q t \<Longrightarrow> t = u"
  shows "(\<exists>s1. A s1 \<and> B s1 \<and> R\<^sup>*\<^sup>* s1 t \<and> Q t) \<longleftrightarrow> t = u"
proof
  assume "\<exists>s1. A s1 \<and> B s1 \<and> R\<^sup>*\<^sup>* s1 t \<and> Q t"
  then obtain s1 where "A s1 \<and> B s1" "R\<^sup>*\<^sup>* s1 t" "Q t" by blast
  then show "t = u" using assms(1)[of s1] assms(4) by simp
next
  assume "t = u"
  moreover have "A e \<and> B e" using assms(1)[of e] by simp
  ultimately show "\<exists>s1. A s1 \<and> B s1 \<and> R\<^sup>*\<^sup>* s1 t \<and> Q t" using assms(2,3) by blast
qed

lemma push_call_iff:
  assumes "sp_prod s = P_Idle" "slot_wf x" "ring_layout (sp_ring s)"
  shows "push_call s x t \<longleftrightarrow> t = s\<lparr>sp_ring := snd (axivc_ring_try_push_slot (sp_ring s) x),
      sp_pushed := sp_pushed s @ (if fst (axivc_ring_try_push_slot (sp_ring s) x) then [x] else [])\<rparr>"
    (is "_ \<longleftrightarrow> t = ?t")
proof -
  have t: "?t = s\<lparr>sp_ring := snd (axivc_ring_try_push_slot (sp_ring s) x), sp_prod := P_Idle,
      sp_pushed := sp_pushed s @ (if fst (axivc_ring_try_push_slot (sp_ring s) x) then [x] else [])\<rparr>"
    using assms(1) by (cases s) simp
  have run: "producer_runs\<^sup>*\<^sup>* (s\<lparr>sp_prod := P_Tail x (r_tail (sp_ring s))\<rparr>) ?t"
    unfolding t by (rule push_run[OF assms(2,3)])
  have "(\<exists>s1. spsc_step s s1 \<and> sp_prod s1 = P_Tail x (r_tail (sp_ring s)) \<and>
      producer_runs\<^sup>*\<^sup>* s1 t \<and> sp_prod t = P_Idle) \<longleftrightarrow> t = ?t"
  proof (rule determined_call[where Q = "\<lambda>t. sp_prod t = P_Idle", OF push_entry[OF assms(1,2)] run])
    show idle: "sp_prod ?t = P_Idle" using assms(1) by simp
    show "u = ?t" if "producer_runs\<^sup>*\<^sup>* (s\<lparr>sp_prod := P_Tail x (r_tail (sp_ring s))\<rparr>) u"
      "sp_prod u = P_Idle" for u
      using run idle that by (rule producer_run_unique)
  qed
  with assms(1) show ?thesis by (simp add: push_call_def)
qed

lemma peek_call_iff:
  assumes "sp_cons s = C_Idle" "ring_layout (sp_ring s)"
  shows "peek_call s t \<longleftrightarrow> t = s\<lparr>sp_cons :=
    (case axivc_ring_try_peek_slot (sp_ring s) of None \<Rightarrow> C_Idle | Some x \<Rightarrow> C_Peeked x)\<rparr>"
    (is "_ \<longleftrightarrow> t = ?t")
proof -
  note run = peek_run[OF assms(2)]
  have ret: "consumer_returned (sp_cons ?t)" by (simp split: option.split)
  have "(\<exists>s1. spsc_step s s1 \<and> sp_cons s1 = C_Head (r_head (sp_ring s)) \<and>
      consumer_runs\<^sup>*\<^sup>* s1 t \<and> consumer_returned (sp_cons t)) \<longleftrightarrow> t = ?t"
    by (rule determined_call[where Q = "\<lambda>t. consumer_returned (sp_cons t)",
          OF peek_entry[OF assms(1)] run ret consumer_run_unique[OF run ret]])
  with assms(1) show ?thesis by (simp add: peek_call_def)
qed

lemma pop_call_iff:
  assumes "sp_cons s = C_Peeked x"
  shows "pop_call s x t \<longleftrightarrow> t = s\<lparr>sp_ring := axivc_ring_pop_slot (sp_ring s), sp_cons := C_Idle,
    sp_popped := sp_popped s @ [x]\<rparr>" (is "_ \<longleftrightarrow> t = ?t")
proof -
  note run = pop_run[where s = s and x = x]
  have ret: "consumer_returned (sp_cons ?t)" by simp
  have "(\<exists>s1. spsc_step s s1 \<and> sp_cons s1 = C_Pop x (r_head (sp_ring s)) \<and>
      consumer_runs\<^sup>*\<^sup>* s1 t \<and> consumer_returned (sp_cons t)) \<longleftrightarrow> t = ?t"
    by (rule determined_call[where Q = "\<lambda>t. consumer_returned (sp_cons t)",
          OF pop_entry[OF assms] run ret consumer_run_unique[OF run ret]])
  with assms show ?thesis by (simp add: pop_call_def)
qed

section \<open>Properties\<close>

text \<open>
  C3. No torn, lost, duplicated or reordered slot, whatever the interleaving. Start from a
  well-formed ring and let one producer and one consumer take their memory accesses in
  any order. In every reachable state the slots the consumer has popped, followed by the
  slots in the ring, are exactly the slots the producer has pushed, in order; a slot that
  a peek has copied out is the oldest slot in the ring, whole; and the ring never holds
  more than 32 slots.
\<close>

theorem spsc_linearizable:
  assumes "ring_wf r" "spsc_reach r s"
  shows "sp_popped s @ ring_contents (sp_ring s) = sp_pushed s \<and> ring_wf (sp_ring s) \<and>
    (\<forall>x. sp_cons s \<noteq> C_Peeked x \<or> (\<exists>xs. ring_contents (sp_ring s) = x # xs))"
proof -
  have inv: "spsc_inv s" using spsc_reach_inv[OF assms(2,1)] .
  have "\<exists>xs. ring_contents (sp_ring s) = x # xs" if "sp_cons s = C_Peeked x" for x
    using inv that by (cases "ring_contents (sp_ring s)") (auto simp: spsc_inv_def)
  then show ?thesis using inv by (auto simp: spsc_inv_def)
qed

lemma reach_producer_runs: "producer_runs\<^sup>*\<^sup>* s t \<Longrightarrow> spsc_reach r s \<Longrightarrow> spsc_reach r t"
  by (induction rule: rtranclp_induct) (auto simp: producer_runs_def intro: spsc_reach.reach_step)

lemma reach_consumer_runs: "consumer_runs\<^sup>*\<^sup>* s t \<Longrightarrow> spsc_reach r s \<Longrightarrow> spsc_reach r t"
  by (induction rule: rtranclp_induct) (auto simp: consumer_runs_def intro: spsc_reach.reach_step)

lemma reach_calls:
  "push_call s x t \<Longrightarrow> spsc_reach r s \<Longrightarrow> spsc_reach r t"
  "peek_call s t \<Longrightarrow> spsc_reach r s \<Longrightarrow> spsc_reach r t"
  unfolding push_call_def peek_call_def
  by (blast intro: reach_producer_runs reach_consumer_runs spsc_reach.reach_step)+

text \<open>The wrapping ring of \<open>Axivc_Ring\<close>: a push and then a peek of the slot that was there.\<close>

theorem spsc_linearizable_witness:
  "\<exists>s. spsc_reach wrap_ring s \<and> length (sp_pushed s) = 2 \<and> sp_cons s \<noteq> C_Idle \<and>
    sp_popped s @ ring_contents (sp_ring s) = sp_pushed s"
proof -
  let ?x = "replicate 256 7 :: slot" and ?s0 = "spsc_init wrap_ring"
  obtain ok r where push: "axivc_ring_try_push_slot wrap_ring ?x = (ok, r)" by fastforce
  have x: "slot_wf ?x" by (simp add: slot_wf_def ring_consts)
  have l: "ring_layout wrap_ring" using wrap_ring_wf by (simp add: ring_wf_def)
  have ok: "ok" using push by (auto simp: wrap_ring_def axivc_ring_try_push_slot_def ring_consts)
  let ?s1 = "?s0\<lparr>sp_ring := r, sp_prod := P_Idle, sp_pushed := sp_pushed ?s0 @ [?x]\<rparr>"
  have "push_call ?s0 ?x ?s1"
    using push_call_iff[of ?s0 ?x ?s1] x l push ok by (simp add: spsc_init_def)
  then have r1: "spsc_reach wrap_ring ?s1"
    using spsc_reach.reach_init by (rule reach_calls)
  have lr: "ring_layout r" using push_layout[OF l x] push by simp
  have "axivc_ring_try_peek_slot r \<noteq> None"
    using push by (auto simp: wrap_ring_def axivc_ring_try_push_slot_def axivc_ring_try_peek_slot_def
        ring_consts)
  then obtain y where y: "axivc_ring_try_peek_slot r = Some y" by auto
  have "spsc_reach wrap_ring (?s1\<lparr>sp_cons := C_Peeked y\<rparr>)"
    using reach_calls(2)[OF _ r1] peek_call_iff[of ?s1] lr y by (simp add: spsc_init_def)
  from spsc_linearizable[OF wrap_ring_wf this] this show ?thesis
    by (intro exI[of _ "?s1\<lparr>sp_cons := C_Peeked y\<rparr>"])
      (simp add: spsc_init_def wrap_ring_def ring_used_def)
qed

text \<open>
  C29. The ring functions and the concurrent steps are the same code. A push that starts in
  an idle producer and is not interrupted can end in exactly one state: the one that
  \<open>axivc_ring_try_push_slot\<close> computes, the slot counted as pushed exactly when that function
  returns true. A peek by an idle consumer ends in exactly the result of
  \<open>axivc_ring_try_peek_slot\<close>, and a pop after a peek in exactly the ring of
  \<open>axivc_ring_pop_slot\<close>. Only steps of the one side are taken, and every such call returns.
\<close>

theorem ring_functions_are_step_runs:
  assumes "ring_layout (sp_ring s)" "slot_wf x"
  shows "(sp_prod s = P_Idle \<longrightarrow> (\<forall>t. push_call s x t \<longleftrightarrow>
      t = s\<lparr>sp_ring := snd (axivc_ring_try_push_slot (sp_ring s) x),
        sp_pushed := sp_pushed s @ (if fst (axivc_ring_try_push_slot (sp_ring s) x) then [x] else [])\<rparr>)) \<and>
    (sp_cons s = C_Idle \<longrightarrow> (\<forall>t. peek_call s t \<longleftrightarrow>
      t = s\<lparr>sp_cons := (case axivc_ring_try_peek_slot (sp_ring s) of
        None \<Rightarrow> C_Idle | Some y \<Rightarrow> C_Peeked y)\<rparr>)) \<and>
    (\<forall>y. sp_cons s = C_Peeked y \<longrightarrow> (\<forall>t. pop_call s y t \<longleftrightarrow>
      t = s\<lparr>sp_ring := axivc_ring_pop_slot (sp_ring s), sp_cons := C_Idle,
        sp_popped := sp_popped s @ [y]\<rparr>))"
  using push_call_iff[OF _ assms(2,1)] peek_call_iff[OF _ assms(1)] pop_call_iff by simp

theorem ring_functions_are_step_runs_witness:
  "ring_layout (sp_ring (spsc_init wrap_ring)) \<and> slot_wf (replicate 256 7) \<and>
    push_call (spsc_init wrap_ring) (replicate 256 7)
      ((spsc_init wrap_ring)\<lparr>sp_ring := snd (axivc_ring_try_push_slot wrap_ring (replicate 256 7)),
        sp_pushed := ring_contents wrap_ring @ [replicate 256 7]\<rparr>)"
proof -
  have l: "ring_layout (sp_ring (spsc_init wrap_ring))"
    using wrap_ring_wf by (simp add: ring_wf_def spsc_init_def)
  have x: "slot_wf (replicate 256 7)" by (simp add: slot_wf_def ring_consts)
  have "fst (axivc_ring_try_push_slot wrap_ring (replicate 256 7))"
    by (simp add: wrap_ring_def axivc_ring_try_push_slot_def ring_consts)
  then show ?thesis
    using ring_functions_are_step_runs[OF l x] l x by (simp add: spsc_init_def)
qed

end
