(* ===== verification/Axivc_Frame.thy ===== *)
theory Axivc_Frame
  imports Axivc_Ring
begin

text \<open>
  The Message V1 frame codec of \<^verbatim>\<open>ivc/message.c\<close> (little-endian helpers, frame shape
  check, \<open>axivc_encode_frame\<close>, \<open>axivc_decode_frame\<close>) and the wire constants of
  \<^verbatim>\<open>ivc/includes/message.h\<close>. The lemmas give the byte layout of an encoded slot, both
  directions of the round trip, and exactly which slots the decoder accepts.
\<close>

section \<open>Wire constants\<close>

definition AXIVC_MESSAGE_VERSION_V1 :: u8 where "AXIVC_MESSAGE_VERSION_V1 = 1"
definition AXIVC_V1_HEADER_LEN :: nat where "AXIVC_V1_HEADER_LEN = 24"
definition AXIVC_FRAGMENT_CAPACITY :: nat where
  "AXIVC_FRAGMENT_CAPACITY = AXIVC_SLOT_SIZE - AXIVC_V1_HEADER_LEN"

definition AXIVC_FRAME_FLAG_FIRST :: u8 where "AXIVC_FRAME_FLAG_FIRST = push_bit 0 1"
definition AXIVC_FRAME_FLAG_LAST :: u8 where "AXIVC_FRAME_FLAG_LAST = push_bit 1 1"
definition AXIVC_FRAME_FLAG_ABORT :: u8 where "AXIVC_FRAME_FLAG_ABORT = push_bit 2 1"

definition KNOWN_FLAGS :: u8 where
  "KNOWN_FLAGS = AXIVC_FRAME_FLAG_FIRST OR AXIVC_FRAME_FLAG_LAST OR AXIVC_FRAME_FLAG_ABORT"

definition VERSION_OFFSET :: nat where "VERSION_OFFSET = 0"
definition FLAGS_OFFSET :: nat where "FLAGS_OFFSET = 1"
definition HEADER_LEN_OFFSET :: nat where "HEADER_LEN_OFFSET = 2"
definition FRAGMENT_LEN_OFFSET :: nat where "FRAGMENT_LEN_OFFSET = 4"
definition MESSAGE_ID_OFFSET :: nat where "MESSAGE_ID_OFFSET = 8"
definition MESSAGE_LEN_OFFSET :: nat where "MESSAGE_LEN_OFFSET = 16"

lemmas wire_consts = ring_consts AXIVC_MESSAGE_VERSION_V1_def AXIVC_V1_HEADER_LEN_def
  AXIVC_FRAGMENT_CAPACITY_def
lemmas flag_consts = AXIVC_FRAME_FLAG_FIRST_def AXIVC_FRAME_FLAG_LAST_def
  AXIVC_FRAME_FLAG_ABORT_def KNOWN_FLAGS_def
lemmas offset_consts = VERSION_OFFSET_def FLAGS_OFFSET_def HEADER_LEN_OFFSET_def
  FRAGMENT_LEN_OFFSET_def MESSAGE_ID_OFFSET_def MESSAGE_LEN_OFFSET_def

section \<open>Little-endian integers\<close>

definition axivc_read_le16 :: "bytes \<Rightarrow> u16" where
  "axivc_read_le16 p = ucast (p ! 0) OR push_bit 8 (ucast (p ! 1))"

definition axivc_read_le32 :: "bytes \<Rightarrow> u32" where
  "axivc_read_le32 p = ucast (p ! 0) OR push_bit 8 (ucast (p ! 1)) OR
    push_bit 16 (ucast (p ! 2)) OR push_bit 24 (ucast (p ! 3))"

definition axivc_read_le64 :: "bytes \<Rightarrow> u64" where
  "axivc_read_le64 p =
    ucast (axivc_read_le32 p) OR push_bit 32 (ucast (axivc_read_le32 (drop 4 p)))"

definition le16 :: "u16 \<Rightarrow> bytes" where
  "le16 v = [ucast (v AND 0xff), ucast (drop_bit 8 v AND 0xff)]"

definition le32 :: "u32 \<Rightarrow> bytes" where
  "le32 v = [ucast (v AND 0xff), ucast (drop_bit 8 v AND 0xff),
    ucast (drop_bit 16 v AND 0xff), ucast (drop_bit 24 v AND 0xff)]"

text \<open>The writers store at an offset of the slot, as \<open>slot + OFFSET\<close> does.\<close>

definition axivc_write_le16 :: "nat \<Rightarrow> u16 \<Rightarrow> bytes \<Rightarrow> bytes" where
  "axivc_write_le16 off v buf = memcpy_at off (le16 v) buf"

definition axivc_write_le32 :: "nat \<Rightarrow> u32 \<Rightarrow> bytes \<Rightarrow> bytes" where
  "axivc_write_le32 off v buf = memcpy_at off (le32 v) buf"

definition axivc_write_le64 :: "nat \<Rightarrow> u64 \<Rightarrow> bytes \<Rightarrow> bytes" where
  "axivc_write_le64 off v buf =
    axivc_write_le32 (off + 4) (ucast (drop_bit 32 v))
      (axivc_write_le32 off (ucast (v AND 0xffffffff)) buf)"

section \<open>Frame shape, encoder and decoder\<close>

definition axivc_validate_frame_shape :: "u64 \<Rightarrow> nat \<Rightarrow> bool \<Rightarrow> bool \<Rightarrow> bool \<Rightarrow> status" where
  "axivc_validate_frame_shape message_len fragment_len is_first is_last is_abort =
    (if is_abort then
       (if is_first \<or> is_last \<or> fragment_len \<noteq> 0 then Err EPROTO else OK)
     else if message_len = 0 then
       (if \<not> is_first \<or> \<not> is_last \<or> fragment_len \<noteq> 0 then Err EPROTO else OK)
     else if fragment_len = 0 then Err EPROTO
     else OK)"

definition frame_flags :: "bool \<Rightarrow> bool \<Rightarrow> bool \<Rightarrow> u8" where
  "frame_flags is_first is_last is_abort =
    (let flags = 0;
         flags = (if is_first then flags OR AXIVC_FRAME_FLAG_FIRST else flags);
         flags = (if is_last then flags OR AXIVC_FRAME_FLAG_LAST else flags)
     in if is_abort then flags OR AXIVC_FRAME_FLAG_ABORT else flags)"

definition axivc_encode_frame ::
  "u64 \<Rightarrow> u64 \<Rightarrow> bool \<Rightarrow> bool \<Rightarrow> bool \<Rightarrow> bytes \<Rightarrow> nat \<Rightarrow> errno + slot" where
  "axivc_encode_frame message_id message_len is_first is_last is_abort fragment fragment_len =
    (if message_id = 0 \<or> fragment_len > AXIVC_FRAGMENT_CAPACITY then Inl EPROTO
     else case axivc_validate_frame_shape message_len fragment_len is_first is_last is_abort of
       Some e \<Rightarrow> Inl e
     | None \<Rightarrow>
       (let slot = replicate AXIVC_SLOT_SIZE 0;
            slot = slot[VERSION_OFFSET := AXIVC_MESSAGE_VERSION_V1];
            slot = slot[FLAGS_OFFSET := frame_flags is_first is_last is_abort];
            slot = axivc_write_le16 HEADER_LEN_OFFSET (of_nat AXIVC_V1_HEADER_LEN) slot;
            slot = axivc_write_le32 FRAGMENT_LEN_OFFSET (of_nat fragment_len) slot;
            slot = axivc_write_le64 MESSAGE_ID_OFFSET message_id slot;
            slot = axivc_write_le64 MESSAGE_LEN_OFFSET message_len slot
        in Inr (if fragment_len > 0
                then memcpy_at AXIVC_V1_HEADER_LEN (take fragment_len fragment) slot
                else slot)))"

record axivc_decoded_frame =
  f_message_id :: u64
  f_message_len :: u64
  f_fragment :: bytes         \<comment> \<open>the rest of the slot from the pointer on\<close>
  f_fragment_len :: nat
  f_first :: bool
  f_last :: bool
  f_abort :: bool

definition axivc_decode_frame :: "slot \<Rightarrow> errno + axivc_decoded_frame" where
  "axivc_decode_frame slot =
    (let version = slot ! VERSION_OFFSET;
         flags = slot ! FLAGS_OFFSET;
         header_len = axivc_read_le16 (drop HEADER_LEN_OFFSET slot);
         fragment_len = axivc_read_le32 (drop FRAGMENT_LEN_OFFSET slot);
         message_id = axivc_read_le64 (drop MESSAGE_ID_OFFSET slot);
         message_len = axivc_read_le64 (drop MESSAGE_LEN_OFFSET slot);
         is_first = (flags AND AXIVC_FRAME_FLAG_FIRST \<noteq> 0);
         is_last = (flags AND AXIVC_FRAME_FLAG_LAST \<noteq> 0);
         is_abort = (flags AND AXIVC_FRAME_FLAG_ABORT \<noteq> 0)
     in if version \<noteq> AXIVC_MESSAGE_VERSION_V1 then Inl EPROTONOSUPPORT
        else if flags AND NOT KNOWN_FLAGS \<noteq> 0 then Inl EPROTO
        else if header_len \<noteq> of_nat AXIVC_V1_HEADER_LEN then Inl EPROTO
        else if fragment_len > of_nat AXIVC_SLOT_SIZE - ucast header_len then Inl EPROTO
        else if message_id = 0 then Inl EPROTO
        else case axivc_validate_frame_shape message_len (unat fragment_len)
                    is_first is_last is_abort of
          Some e \<Rightarrow> Inl e
        | None \<Rightarrow> Inr \<lparr>f_message_id = message_id, f_message_len = message_len,
            f_fragment = drop (unat header_len) slot, f_fragment_len = unat fragment_len,
            f_first = is_first, f_last = is_last, f_abort = is_abort\<rparr>)"

section \<open>Round trips of the little-endian helpers\<close>

lemma length_le [simp]: "length (le16 v) = 2" "length (le32 w) = 4"
  by (simp_all add: le16_def le32_def)

lemma and_0xff: "(v :: 'a::len word) AND 0xff = take_bit 8 v"
  by (simp add: take_bit_eq_mask mask_numeral)

lemma ucast_take_bit_8 [simp]: "(ucast (take_bit 8 v) :: u8) = ucast (v :: 'a::len word)"
  by (rule bit_word_eqI) (simp add: bit_simps)

lemma le16_ucast: "le16 v = [ucast v, ucast (drop_bit 8 v)]"
  by (simp add: le16_def and_0xff)

lemma le32_ucast:
  "le32 v = [ucast v, ucast (drop_bit 8 v), ucast (drop_bit 16 v), ucast (drop_bit 24 v)]"
  by (simp add: le32_def and_0xff)

lemma read_le16_append [simp]: "axivc_read_le16 (le16 v @ rest) = v"
proof (rule bit_word_eqI)
  fix n
  assume "n < LENGTH(16)"
  then consider "n < 8" | "8 \<le> n" "n - 8 < 8" by fastforce
  then show "bit (axivc_read_le16 (le16 v @ rest)) n = bit v n"
    by cases (auto simp: axivc_read_le16_def le16_ucast bit_simps)
qed

lemma read_le32_append [simp]: "axivc_read_le32 (le32 v @ rest) = v"
proof (rule bit_word_eqI)
  fix n
  assume "n < LENGTH(32)"
  then consider "n < 8" | "8 \<le> n" "n < 16" | "16 \<le> n" "n < 24" | "24 \<le> n" "n < 32"
    by fastforce
  then show "bit (axivc_read_le32 (le32 v @ rest)) n = bit v n"
    by cases (auto simp: axivc_read_le32_def le32_ucast bit_simps)
qed

definition le64 :: "u64 \<Rightarrow> bytes" where
  "le64 v = le32 (ucast (v AND 0xffffffff)) @ le32 (ucast (drop_bit 32 v))"

lemma length_le64 [simp]: "length (le64 v) = 8"
  by (simp add: le64_def)

lemma and_0xffffffff: "(v :: u64) AND 0xffffffff = take_bit 32 v"
  by (simp add: take_bit_eq_mask mask_numeral)

lemma read_le64_append [simp]: "axivc_read_le64 (le64 v @ rest) = v"
proof -
  have lo: "axivc_read_le32 (le64 v @ rest) = ucast (take_bit 32 v)"
    by (simp add: le64_def and_0xffffffff)
  have hi: "axivc_read_le32 (drop 4 (le64 v @ rest)) = ucast (drop_bit 32 v)"
    by (simp add: le64_def)
  show ?thesis
  proof (rule bit_word_eqI)
    fix n
    assume "n < LENGTH(64)"
    then consider "n < 32" | "32 \<le> n" "n < 64" by fastforce
    then show "bit (axivc_read_le64 (le64 v @ rest)) n = bit v n"
      unfolding axivc_read_le64_def lo hi by cases (auto simp: bit_simps)
  qed
qed

lemma write_le64_eq:
  "off + 8 \<le> length buf \<Longrightarrow> axivc_write_le64 off v buf = memcpy_at off (le64 v) buf"
  by (simp add: axivc_write_le64_def axivc_write_le32_def memcpy_at_def le64_def min_def
      add.commute)

text \<open>The converse: re-encoding what was read gives the bytes back.\<close>

lemma le16_read:
  assumes "2 \<le> length p"
  shows "le16 (axivc_read_le16 p) = take 2 p"
proof -
  have "ucast (axivc_read_le16 p) = p ! 0" "ucast (drop_bit 8 (axivc_read_le16 p)) = p ! 1"
    by (rule bit_word_eqI; auto simp: axivc_read_le16_def bit_simps dest: bit_imp_le_length)+
  moreover have "take 2 p = [p ! 0, p ! 1]"
    using assms by (cases p; cases "tl p") auto
  ultimately show ?thesis by (simp add: le16_ucast)
qed

lemma le32_read:
  assumes "4 \<le> length p"
  shows "le32 (axivc_read_le32 p) = take 4 p"
proof -
  have "ucast (axivc_read_le32 p) = p ! 0"
    "ucast (drop_bit 8 (axivc_read_le32 p)) = p ! 1"
    "ucast (drop_bit 16 (axivc_read_le32 p)) = p ! 2"
    "ucast (drop_bit 24 (axivc_read_le32 p)) = p ! 3"
    by (rule bit_word_eqI; auto simp: axivc_read_le32_def bit_simps dest: bit_imp_le_length)+
  moreover have "take 4 p = [p ! 0, p ! 1, p ! 2, p ! 3]"
    using assms by (cases p; cases "tl p"; cases "tl (tl p)"; cases "tl (tl (tl p))") auto
  ultimately show ?thesis by (simp add: le32_ucast)
qed

lemma le64_read:
  assumes "8 \<le> length p"
  shows "le64 (axivc_read_le64 p) = take 8 p"
proof -
  let ?lo = "axivc_read_le32 p" and ?hi = "axivc_read_le32 (drop 4 p)"
  have "ucast (axivc_read_le64 p AND 0xffffffff) = ?lo"
    unfolding and_0xffffffff
    by (rule bit_word_eqI) (auto simp: axivc_read_le64_def bit_simps)
  moreover have "ucast (drop_bit 32 (axivc_read_le64 p)) = ?hi"
    by (rule bit_word_eqI) (auto simp: axivc_read_le64_def bit_simps dest: bit_imp_le_length)
  ultimately have "le64 (axivc_read_le64 p) = take 4 p @ take 4 (drop 4 p)"
    using assms by (simp add: le64_def le32_read)
  also have "\<dots> = take (4 + 4) p" by (rule take_add[symmetric])
  finally show ?thesis by simp
qed

section \<open>Layout of an encoded slot\<close>

definition frame_header :: "u8 \<Rightarrow> nat \<Rightarrow> u64 \<Rightarrow> u64 \<Rightarrow> bytes" where
  "frame_header flags fragment_len message_id message_len =
    [AXIVC_MESSAGE_VERSION_V1, flags] @ le16 (of_nat AXIVC_V1_HEADER_LEN) @
    le32 (of_nat fragment_len) @ le64 message_id @ le64 message_len"

lemma length_frame_header [simp]: "length (frame_header fl n i l) = AXIVC_V1_HEADER_LEN"
  by (simp add: frame_header_def wire_consts)

lemma memcpy_at_exact:
  "length pre = off \<Longrightarrow> length mid = length src \<Longrightarrow>
    memcpy_at off src (pre @ mid @ post) = pre @ src @ post"
  by (simp add: memcpy_at_def)

lemma zero_slot_split:
  "replicate AXIVC_SLOT_SIZE (0 :: u8) =
    [0, 0] @ replicate 2 0 @ replicate 4 0 @ replicate 8 0 @ replicate 8 0 @
    replicate AXIVC_FRAGMENT_CAPACITY 0"
proof -
  have split: "AXIVC_SLOT_SIZE = 2 + 2 + 4 + 8 + 8 + AXIVC_FRAGMENT_CAPACITY"
    by (simp add: wire_consts)
  have two: "replicate 2 (0 :: u8) = [0, 0]" by (simp add: numeral_eq_Suc)
  show ?thesis unfolding split replicate_add append_assoc two ..
qed

lemma encode_frame_eq:
  assumes "message_id \<noteq> 0" "n \<le> AXIVC_FRAGMENT_CAPACITY" "length fragment = n"
    and "axivc_validate_frame_shape message_len n fi la ab = OK"
  shows "axivc_encode_frame message_id message_len fi la ab fragment n =
    Inr (frame_header (frame_flags fi la ab) n message_id message_len @ fragment @
      replicate (AXIVC_FRAGMENT_CAPACITY - n) 0)"
proof -
  let ?h = "frame_header (frame_flags fi la ab) n message_id message_len"
  have "axivc_write_le64 MESSAGE_LEN_OFFSET message_len
      (axivc_write_le64 MESSAGE_ID_OFFSET message_id
        (axivc_write_le32 FRAGMENT_LEN_OFFSET (of_nat n)
          (axivc_write_le16 HEADER_LEN_OFFSET (of_nat AXIVC_V1_HEADER_LEN)
            ((replicate AXIVC_SLOT_SIZE 0)[VERSION_OFFSET := AXIVC_MESSAGE_VERSION_V1,
              FLAGS_OFFSET := frame_flags fi la ab])))) =
    ?h @ replicate AXIVC_FRAGMENT_CAPACITY 0"
    unfolding zero_slot_split
    by (simp add: write_le64_eq axivc_write_le32_def axivc_write_le16_def memcpy_at_def
        frame_header_def offset_consts)
  moreover have "memcpy_at AXIVC_V1_HEADER_LEN fragment (?h @ replicate AXIVC_FRAGMENT_CAPACITY 0) =
    ?h @ fragment @ replicate (AXIVC_FRAGMENT_CAPACITY - n) 0"
    using assms(2,3) by (simp add: memcpy_at_def)
  ultimately show ?thesis
    using assms by (cases "n = 0") (simp_all add: axivc_encode_frame_def Let_def)
qed

section \<open>Decoding\<close>

lemma flag_words:
  "AXIVC_FRAME_FLAG_FIRST = 2 ^ 0" "AXIVC_FRAME_FLAG_LAST = 2 ^ 1" "AXIVC_FRAME_FLAG_ABORT = 2 ^ 2"
  by (simp_all add: flag_consts)

lemma flags_bits:
  "(fl :: u8) AND AXIVC_FRAME_FLAG_FIRST = 0 \<longleftrightarrow> \<not> bit fl 0"
  "fl AND AXIVC_FRAME_FLAG_LAST = 0 \<longleftrightarrow> \<not> bit fl 1"
  "fl AND AXIVC_FRAME_FLAG_ABORT = 0 \<longleftrightarrow> \<not> bit fl 2"
  unfolding flag_words by (rule and_exp_eq_0_iff_not_bit)+

lemma known_flags_mask: "KNOWN_FLAGS = mask 3"
  by (simp add: flag_consts mask_numeral)

lemma bit_frame_flags:
  "bit (frame_flags fi la ab) n \<longleftrightarrow> n = 0 \<and> fi \<or> n = 1 \<and> la \<or> n = 2 \<and> ab"
proof -
  have "bit AXIVC_FRAME_FLAG_FIRST n \<longleftrightarrow> n = 0" "bit AXIVC_FRAME_FLAG_LAST n \<longleftrightarrow> n = 1"
    "bit AXIVC_FRAME_FLAG_ABORT n \<longleftrightarrow> n = 2"
    unfolding flag_words bit_exp_iff by auto
  then show ?thesis by (auto simp: frame_flags_def Let_def bit_or_iff)
qed

lemma frame_flags_known: "frame_flags fi la ab AND NOT KNOWN_FLAGS = 0"
  unfolding known_flags_mask by (rule bit_word_eqI) (auto simp: bit_simps bit_frame_flags)

lemma known_flags_decode:
  assumes "fl AND NOT KNOWN_FLAGS = 0"
  shows "fl = frame_flags (bit fl 0) (bit fl 1) (bit fl 2)"
proof (rule bit_word_eqI)
  fix n
  have "bit fl n \<Longrightarrow> n < 3"
    using arg_cong[OF assms, of "\<lambda>w. bit w n"] bit_imp_le_length[of fl n]
    unfolding known_flags_mask by (auto simp: bit_simps)
  then show "bit fl n = bit (frame_flags (bit fl 0) (bit fl 1) (bit fl 2)) n"
    by (auto simp: bit_frame_flags less_Suc_eq numeral_3_eq_3 numeral_2_eq_2)
qed

text \<open>
  A slot read as header fields, fragment and padding. Every slot of full length is the
  image of its fields when the fixed fields are right.
\<close>

lemma slot_fields:
  fixes s :: slot
  assumes "s = frame_header fl n i l @ body" "n \<le> AXIVC_FRAGMENT_CAPACITY"
  shows "s ! VERSION_OFFSET = AXIVC_MESSAGE_VERSION_V1" "s ! FLAGS_OFFSET = fl"
    "axivc_read_le16 (drop HEADER_LEN_OFFSET s) = of_nat AXIVC_V1_HEADER_LEN"
    "axivc_read_le32 (drop FRAGMENT_LEN_OFFSET s) = of_nat n"
    "axivc_read_le64 (drop MESSAGE_ID_OFFSET s) = i"
    "axivc_read_le64 (drop MESSAGE_LEN_OFFSET s) = l"
    "drop AXIVC_V1_HEADER_LEN s = body"
  by (simp_all add: assms(1) frame_header_def offset_consts wire_consts drop_Cons')

lemma decode_frame_eq:
  assumes s: "s = frame_header (frame_flags fi la ab) n i l @ body"
    and "i \<noteq> 0" "n \<le> AXIVC_FRAGMENT_CAPACITY" "axivc_validate_frame_shape l n fi la ab = OK"
  shows "axivc_decode_frame s =
    Inr \<lparr>f_message_id = i, f_message_len = l, f_fragment = body, f_fragment_len = n,
      f_first = fi, f_last = la, f_abort = ab\<rparr>"
proof -
  have "unat (of_nat n :: u32) = n"
    using assms(3) by (intro unat_of_nat_u32) (simp add: wire_consts)
  moreover have "\<not> (of_nat n :: u32) > of_nat AXIVC_SLOT_SIZE - ucast (of_nat AXIVC_V1_HEADER_LEN :: u16)"
    using assms(3) calculation by (simp add: wire_consts word_less_nat_alt)
  moreover have "unat (of_nat AXIVC_V1_HEADER_LEN :: u16) = AXIVC_V1_HEADER_LEN"
    by (simp add: wire_consts)
  ultimately show ?thesis
    using assms(2-4) slot_fields[OF s assms(3)]
    by (simp add: axivc_decode_frame_def frame_flags_known flags_bits bit_frame_flags Let_def)
qed

definition frame_ok :: "axivc_decoded_frame \<Rightarrow> bool" where
  "frame_ok f \<longleftrightarrow> f_message_id f \<noteq> 0 \<and> f_fragment_len f \<le> AXIVC_FRAGMENT_CAPACITY \<and>
    axivc_validate_frame_shape (f_message_len f) (f_fragment_len f) (f_first f) (f_last f) (f_abort f) = OK"

definition frame_image :: "axivc_decoded_frame \<Rightarrow> slot" where
  "frame_image f = frame_header (frame_flags (f_first f) (f_last f) (f_abort f)) (f_fragment_len f)
    (f_message_id f) (f_message_len f) @ f_fragment f"

lemma slot_from_fields:
  fixes s :: slot
  assumes "slot_wf s"
  shows "s = [s ! VERSION_OFFSET, s ! FLAGS_OFFSET] @ le16 (axivc_read_le16 (drop HEADER_LEN_OFFSET s)) @
    le32 (axivc_read_le32 (drop FRAGMENT_LEN_OFFSET s)) @ le64 (axivc_read_le64 (drop MESSAGE_ID_OFFSET s)) @
    le64 (axivc_read_le64 (drop MESSAGE_LEN_OFFSET s)) @ drop AXIVC_V1_HEADER_LEN s"
proof -
  have len: "length s = 256" using assms by (simp add: slot_wf_def wire_consts)
  have "take 2 s = [s ! 0, s ! 1]" using len by (cases s; cases "tl s") auto
  then have "[s ! 0, s ! 1] @ take 2 (drop 2 s) @ take 4 (drop 4 s) @ take 8 (drop 8 s) @
      take 8 (drop 16 s) @ drop 24 s = take (2 + 2 + 4 + 8 + 8) s @ drop 24 s"
    by (simp only: take_add append_assoc drop_drop) simp
  then show ?thesis
    using len by (simp add: offset_consts wire_consts le16_read le32_read le64_read)
qed

lemma decode_frame_inv:
  assumes "slot_wf s" "axivc_decode_frame s = Inr f"
  shows "frame_ok f \<and> s = frame_image f"
proof -
  let ?v = "s ! VERSION_OFFSET" and ?fl = "s ! FLAGS_OFFSET"
  let ?h = "axivc_read_le16 (drop HEADER_LEN_OFFSET s)"
  let ?n = "axivc_read_le32 (drop FRAGMENT_LEN_OFFSET s)"
  let ?i = "axivc_read_le64 (drop MESSAGE_ID_OFFSET s)"
  let ?l = "axivc_read_le64 (drop MESSAGE_LEN_OFFSET s)"
  have hdr: "?v = AXIVC_MESSAGE_VERSION_V1" "?fl AND NOT KNOWN_FLAGS = 0"
      "?h = of_nat AXIVC_V1_HEADER_LEN" "?i \<noteq> 0"
      "?n \<le> of_nat AXIVC_SLOT_SIZE - ucast ?h"
    and shape: "axivc_validate_frame_shape ?l (unat ?n) (bit ?fl 0) (bit ?fl 1) (bit ?fl 2) = OK"
    and f: "f = \<lparr>f_message_id = ?i, f_message_len = ?l, f_fragment = drop (unat ?h) s,
      f_fragment_len = unat ?n, f_first = bit ?fl 0, f_last = bit ?fl 1, f_abort = bit ?fl 2\<rparr>"
    using assms(2)
    by (auto simp: axivc_decode_frame_def Let_def flags_bits linorder_not_less
        split: if_splits option.splits)
  have h: "unat ?h = AXIVC_V1_HEADER_LEN" using hdr(3) by (simp add: wire_consts)
  have "unat ?n \<le> AXIVC_FRAGMENT_CAPACITY"
    using hdr(3,5) by (simp add: wire_consts word_le_nat_alt)
  then have "frame_ok f" using hdr(4) shape by (simp add: frame_ok_def f)
  moreover have "s = frame_image f"
    unfolding frame_image_def frame_header_def f
    using slot_from_fields[OF assms(1)] known_flags_decode[OF hdr(2)] hdr(1,3) h by simp
  ultimately show ?thesis ..
qed

lemma decode_frame_iff:
  assumes "slot_wf s"
  shows "axivc_decode_frame s = Inr f \<longleftrightarrow> frame_ok f \<and> s = frame_image f"
proof
  assume "frame_ok f \<and> s = frame_image f"
  then show "axivc_decode_frame s = Inr f"
    using decode_frame_eq[of s "f_first f" "f_last f" "f_abort f" "f_fragment_len f" "f_message_id f"
        "f_message_len f" "f_fragment f"]
    by (simp add: frame_ok_def frame_image_def)
qed (rule decode_frame_inv[OF assms])

lemma encode_frame_cases:
  assumes "length fragment = n"
  obtains (bad) "axivc_encode_frame i l fi la ab fragment n = Inl EPROTO"
      "i = 0 \<or> n > AXIVC_FRAGMENT_CAPACITY \<or> axivc_validate_frame_shape l n fi la ab = Err EPROTO"
  | (good) s where "axivc_encode_frame i l fi la ab fragment n = Inr s" "slot_wf s"
      "i \<noteq> 0" "n \<le> AXIVC_FRAGMENT_CAPACITY" "axivc_validate_frame_shape l n fi la ab = OK"
      "s = frame_header (frame_flags fi la ab) n i l @ fragment @
        replicate (AXIVC_FRAGMENT_CAPACITY - n) 0"
proof (cases "i = 0 \<or> n > AXIVC_FRAGMENT_CAPACITY \<or> axivc_validate_frame_shape l n fi la ab \<noteq> OK")
  case True
  have "axivc_validate_frame_shape l n fi la ab \<in> {OK, Err EPROTO}"
    by (auto simp: axivc_validate_frame_shape_def)
  with True show ?thesis by (intro bad) (auto simp: axivc_encode_frame_def)
next
  case False
  then have ok: "i \<noteq> 0" "n \<le> AXIVC_FRAGMENT_CAPACITY" "axivc_validate_frame_shape l n fi la ab = OK"
    by auto
  show ?thesis
    using encode_frame_eq[OF ok(1,2) assms ok(3)] ok assms
    by (intro good) (auto simp: slot_wf_def wire_consts)
qed

section \<open>Properties\<close>

text \<open>
  C31. Encoding then decoding. Encoding fails, with \<open>EPROTO\<close>, exactly when the message id is
  zero, the fragment exceeds the 232 payload bytes of a slot, or the flags and lengths have
  no valid shape. Otherwise it fills one 256-byte slot, and decoding that slot returns the
  same id, message length, flags and fragment.
\<close>

theorem frame_encode_decode:
  assumes "length fragment = n"
  shows "(case axivc_encode_frame i l fi la ab fragment n of
      Inl e \<Rightarrow> e = EPROTO \<and> (i = 0 \<or> n > AXIVC_FRAGMENT_CAPACITY \<or>
        axivc_validate_frame_shape l n fi la ab = Err EPROTO)
    | Inr s \<Rightarrow> slot_wf s \<and> (\<exists>rest. axivc_decode_frame s =
        Inr \<lparr>f_message_id = i, f_message_len = l, f_fragment = fragment @ rest, f_fragment_len = n,
          f_first = fi, f_last = la, f_abort = ab\<rparr>))"
proof (cases rule: encode_frame_cases[OF assms, of i l fi la ab, case_names bad good])
  case bad
  then show ?thesis by auto
next
  case (good s)
  then show ?thesis using decode_frame_eq[OF good(6,3,4,5)] by auto
qed

theorem frame_encode_decode_witness:
  "length [1, 2, 3 :: u8] = 3 \<and> (\<exists>s rest. axivc_encode_frame 5 3 True True False [1, 2, 3] 3 = Inr s \<and>
    axivc_decode_frame s = Inr \<lparr>f_message_id = 5, f_message_len = 3, f_fragment = [1, 2, 3] @ rest,
      f_fragment_len = 3, f_first = True, f_last = True, f_abort = False\<rparr>)"
  using frame_encode_decode[of "[1, 2, 3]" 3 5 3 True True False]
  by (auto simp: wire_consts axivc_validate_frame_shape_def split: sum.splits)

text \<open>
  C32. The decoder accepts exactly the well-formed frames. A 256-byte slot decodes to a frame
  if and only if the slot is the wire image of that frame and the frame has a non-zero id,
  at most 232 fragment bytes and a valid shape; every other slot is rejected with
  \<open>EPROTONOSUPPORT\<close> for a foreign version and \<open>EPROTO\<close> otherwise.
\<close>

theorem decode_accepts_exactly_images:
  assumes "slot_wf s"
  shows "(axivc_decode_frame s = Inr f \<longleftrightarrow> frame_ok f \<and> s = frame_image f) \<and>
    (axivc_decode_frame s = Inl e \<longleftrightarrow> (\<nexists>g. frame_ok g \<and> s = frame_image g) \<and>
      e = (if s ! VERSION_OFFSET = AXIVC_MESSAGE_VERSION_V1 then EPROTO else EPROTONOSUPPORT))"
proof -
  have err: "axivc_decode_frame s = Inl e \<Longrightarrow>
      e = (if s ! VERSION_OFFSET = AXIVC_MESSAGE_VERSION_V1 then EPROTO else EPROTONOSUPPORT)" for e
    by (auto simp: axivc_decode_frame_def axivc_validate_frame_shape_def Let_def
        split: if_splits option.splits)
  have "axivc_decode_frame s = Inl e \<longleftrightarrow> (\<nexists>g. axivc_decode_frame s = Inr g) \<and>
      e = (if s ! VERSION_OFFSET = AXIVC_MESSAGE_VERSION_V1 then EPROTO else EPROTONOSUPPORT)"
    using err by (cases "axivc_decode_frame s") auto
  then show ?thesis by (simp only: decode_frame_iff[OF assms] simp_thms)
qed

theorem decode_accepts_exactly_images_witness:
  "slot_wf (replicate 256 0) \<and> axivc_decode_frame (replicate 256 0) = Inl EPROTONOSUPPORT \<and>
    (\<nexists>g. frame_ok g \<and> replicate 256 0 = frame_image g)"
proof -
  have wf: "slot_wf (replicate 256 0)" by (simp add: slot_wf_def ring_consts)
  have "axivc_decode_frame (replicate 256 0) = Inl EPROTONOSUPPORT"
    by (simp add: axivc_decode_frame_def offset_consts wire_consts Let_def)
  with decode_accepts_exactly_images[OF wf] wf show ?thesis by simp
qed

end
