(* ===== verification/Axivc_Sender.thy ===== *)
theory Axivc_Sender
  imports Axivc_Frame
begin

text \<open>
  The sending half of the message layer of \<^verbatim>\<open>ivc/message.c\<close>: \<open>axivc_message_start\<close>,
  \<open>axivc_message_try_write\<close> (with \<open>axivc_publish_empty_message\<close>) and
  \<open>axivc_message_try_abort\<close>. The ring that the C sender points to is an argument and a
  result. The lemmas state which frames each call appends to the ring.
\<close>

section \<open>State and operations\<close>

record axivc_message_meta =
  m_id :: u64
  m_len :: u64

record axivc_message_sender =
  tx_next_message_id :: u64
  tx_sending :: bool
  tx_active :: axivc_message_meta
  tx_sent :: u64
  tx_published_any :: bool

record axivc_send_progress =
  sp_consumed :: nat
  sp_published_slots :: nat
  sp_complete :: bool

definition axivc_message_sender_init :: axivc_message_sender where
  "axivc_message_sender_init = \<lparr>tx_next_message_id = 1, tx_sending = False,
    tx_active = \<lparr>m_id = 0, m_len = 0\<rparr>, tx_sent = 0, tx_published_any = False\<rparr>"

definition axivc_message_start ::
  "axivc_message_sender \<Rightarrow> u64 \<Rightarrow> status \<times> axivc_message_sender" where
  "axivc_message_start sender message_len =
    (if tx_sending sender then (Err EBUSY, sender)
     else if tx_next_message_id sender = 0 then (Err EOVERFLOW, sender)
     else let message_id = tx_next_message_id sender in
       (OK, sender\<lparr>
         tx_next_message_id := (if message_id = NOT 0 then 0 else message_id + 1),
         tx_sending := True,
         tx_active := \<lparr>m_id = message_id, m_len = message_len\<rparr>,
         tx_sent := 0,
         tx_published_any := False\<rparr>))"

definition no_progress :: axivc_send_progress where
  "no_progress = \<lparr>sp_consumed = 0, sp_published_slots = 0, sp_complete = False\<rparr>"

definition axivc_publish_empty_message ::
  "axivc_message_sender \<Rightarrow> axivc_ring \<Rightarrow> axivc_send_progress \<Rightarrow>
    status \<times> axivc_message_sender \<times> axivc_ring \<times> axivc_send_progress" where
  "axivc_publish_empty_message sender ring progress =
    (case axivc_encode_frame (m_id (tx_active sender)) 0 True True False [] 0 of
      Inl err \<Rightarrow> (Err err, sender, ring, progress)
    | Inr slot \<Rightarrow>
      (case axivc_ring_try_push_slot ring slot of
        (False, ring') \<Rightarrow> (OK, sender, ring', progress)
      | (True, ring') \<Rightarrow> (OK, sender\<lparr>tx_sending := False\<rparr>, ring',
          progress\<lparr>sp_published_slots := 1, sp_complete := True\<rparr>)))"

text \<open>The \<open>while (consumed < input_len)\<close> loop of \<open>axivc_message_try_write\<close>.\<close>

function try_write_loop ::
  "axivc_message_sender \<Rightarrow> axivc_ring \<Rightarrow> bytes \<Rightarrow> nat \<Rightarrow> nat \<Rightarrow>
    status \<times> axivc_message_sender \<times> axivc_ring \<times> axivc_send_progress" where
  "try_write_loop sender ring input consumed published_slots =
    (if consumed < length input then
       let fragment_len = min AXIVC_FRAGMENT_CAPACITY (length input - consumed);
           next_sent = tx_sent sender + of_nat fragment_len;
           complete = (next_sent = m_len (tx_active sender))
       in case axivc_encode_frame (m_id (tx_active sender)) (m_len (tx_active sender))
                 (\<not> tx_published_any sender) complete False (drop consumed input) fragment_len of
         Inl err \<Rightarrow> (Err err, sender, ring, no_progress)
       | Inr slot \<Rightarrow>
         (case axivc_ring_try_push_slot ring slot of
           (False, ring') \<Rightarrow> (OK, sender, ring',
             \<lparr>sp_consumed = consumed, sp_published_slots = published_slots, sp_complete = False\<rparr>)
         | (True, ring') \<Rightarrow>
           let sender' = sender\<lparr>tx_sent := next_sent, tx_published_any := True\<rparr> in
           if complete then
             (OK, sender'\<lparr>tx_sending := False\<rparr>, ring',
               \<lparr>sp_consumed = consumed + fragment_len, sp_published_slots = published_slots + 1,
                 sp_complete = True\<rparr>)
           else try_write_loop sender' ring' input (consumed + fragment_len) (published_slots + 1))
     else (OK, sender, ring,
       \<lparr>sp_consumed = consumed, sp_published_slots = published_slots, sp_complete = False\<rparr>))"
  by pat_completeness auto
termination
  by (relation "measure (\<lambda>(sender, ring, input, consumed, n). length input - consumed)")
    (auto simp: wire_consts)

declare try_write_loop.simps [simp del]

definition axivc_message_try_write ::
  "axivc_message_sender \<Rightarrow> axivc_ring \<Rightarrow> bytes \<Rightarrow>
    status \<times> axivc_message_sender \<times> axivc_ring \<times> axivc_send_progress" where
  "axivc_message_try_write sender ring input =
    (if \<not> tx_sending sender then (Err ENOMSG, sender, ring, no_progress)
     else let remaining = m_len (tx_active sender) - tx_sent sender in
       if length input > unat remaining then (Err EINVAL, sender, ring, no_progress)
       else if m_len (tx_active sender) = 0 then axivc_publish_empty_message sender ring no_progress
       else try_write_loop sender ring input 0 0)"

definition axivc_message_try_abort ::
  "axivc_message_sender \<Rightarrow> axivc_ring \<Rightarrow> status \<times> axivc_message_sender \<times> axivc_ring" where
  "axivc_message_try_abort sender ring =
    (if \<not> tx_sending sender then (Err ENOMSG, sender, ring)
     else if \<not> tx_published_any sender then (OK, sender\<lparr>tx_sending := False\<rparr>, ring)
     else case axivc_encode_frame (m_id (tx_active sender)) (m_len (tx_active sender))
                 False False True [] 0 of
       Inl err \<Rightarrow> (Err err, sender, ring)
     | Inr slot \<Rightarrow>
       (case axivc_ring_try_push_slot ring slot of
         (False, ring') \<Rightarrow> (Err EAGAIN, sender, ring')
       | (True, ring') \<Rightarrow> (OK, sender\<lparr>tx_sending := False\<rparr>, ring')))"

section \<open>Frames of a message\<close>

definition frame_slot :: "u64 \<Rightarrow> u64 \<Rightarrow> bool \<Rightarrow> bool \<Rightarrow> bool \<Rightarrow> bytes \<Rightarrow> slot" where
  "frame_slot i l fi la ab fragment =
    frame_header (frame_flags fi la ab) (length fragment) i l @ fragment @
      replicate (AXIVC_FRAGMENT_CAPACITY - length fragment) 0"

text \<open>The frames of consecutive fragments of a message, from a byte offset on.\<close>

fun frames_from :: "u64 \<Rightarrow> u64 \<Rightarrow> nat \<Rightarrow> bytes list \<Rightarrow> slot list" where
  "frames_from i l off [] = []"
| "frames_from i l off (fr # frs) =
    frame_slot i l (off = 0) (off + length fr = unat l) False fr #
      frames_from i l (off + length fr) frs"

text \<open>Cutting a payload into fragments of at most the fragment capacity.\<close>

function chunks :: "bytes \<Rightarrow> bytes list" where
  "chunks xs = (if xs = [] then []
    else take AXIVC_FRAGMENT_CAPACITY xs # chunks (drop AXIVC_FRAGMENT_CAPACITY xs))"
  by pat_completeness auto
termination
  by (relation "measure length") (auto simp: wire_consts)

declare chunks.simps [simp del]

lemma chunks_Nil [simp]: "chunks [] = []"
  by (simp add: chunks.simps)

lemma chunks_step:
  "xs \<noteq> [] \<Longrightarrow> chunks xs = take AXIVC_FRAGMENT_CAPACITY xs # chunks (drop AXIVC_FRAGMENT_CAPACITY xs)"
  by (simp add: chunks.simps[of xs])

lemma concat_chunks [simp]: "concat (chunks xs) = xs"
proof (induction xs rule: chunks.induct)
  case (1 xs)
  then show ?case by (cases "xs = []") (simp_all add: chunks_step)
qed

lemma chunks_eq_Nil [simp]: "chunks xs = [] \<longleftrightarrow> xs = []"
  by (cases "xs = []") (simp_all add: chunks_step)

definition fragment_ok :: "bytes \<Rightarrow> bool" where
  "fragment_ok fr \<longleftrightarrow> fr \<noteq> [] \<and> length fr \<le> AXIVC_FRAGMENT_CAPACITY"

lemma chunks_ok: "fr \<in> set (chunks xs) \<Longrightarrow> fragment_ok fr"
proof (induction xs rule: chunks.induct)
  case (1 xs)
  then show ?case
    by (cases "xs = []") (auto simp: chunks_step fragment_ok_def wire_consts)
qed

lemma frames_from_append:
  "frames_from i l off (xs @ ys) = frames_from i l off xs @ frames_from i l (off + length (concat xs)) ys"
  by (induction xs arbitrary: off) (simp_all add: add.assoc)

lemma length_frames_from [simp]: "length (frames_from i l off frs) = length frs"
  by (induction frs arbitrary: off) simp_all

lemma take_frames_from: "take n (frames_from i l off frs) = frames_from i l off (take n frs)"
  by (induction frs arbitrary: off n) (simp_all add: take_Cons')

lemma frame_slot_wf: "length fr \<le> AXIVC_FRAGMENT_CAPACITY \<Longrightarrow> slot_wf (frame_slot i l fi la ab fr)"
  by (simp add: frame_slot_def slot_wf_def wire_consts)

lemma frames_from_wf: "list_all fragment_ok frs \<Longrightarrow> list_all slot_wf (frames_from i l off frs)"
  by (induction frs arbitrary: off) (simp_all add: fragment_ok_def frame_slot_wf)

lemma encode_take: "axivc_encode_frame i l fi la ab fr n = axivc_encode_frame i l fi la ab (take n fr) n"
  by (simp add: axivc_encode_frame_def Let_def split: option.split)

lemma encode_data_slot:
  assumes "i \<noteq> 0" "l \<noteq> 0" "0 < n" "n \<le> AXIVC_FRAGMENT_CAPACITY" "n \<le> length fr"
  shows "axivc_encode_frame i l fi la False fr n = Inr (frame_slot i l fi la False (take n fr))"
proof -
  have "axivc_validate_frame_shape l n fi la False = OK"
    using assms by (simp add: axivc_validate_frame_shape_def)
  then show ?thesis
    using assms encode_frame_eq[of i n "take n fr" l fi la False]
    by (simp add: encode_take[of _ _ _ _ _ fr] frame_slot_def)
qed

lemma encode_abort_slot:
  "i \<noteq> 0 \<Longrightarrow> axivc_encode_frame i l False False True [] 0 = Inr (frame_slot i l False False True [])"
  by (simp add: encode_frame_eq axivc_validate_frame_shape_def frame_slot_def)

lemma encode_empty_slot:
  "i \<noteq> 0 \<Longrightarrow> axivc_encode_frame i 0 True True False [] 0 = Inr (frame_slot i 0 True True False [])"
  by (simp add: encode_frame_eq axivc_validate_frame_shape_def frame_slot_def)

section \<open>What a write appends to the ring\<close>

definition write_count :: "axivc_ring \<Rightarrow> bytes \<Rightarrow> nat" where
  "write_count ring input =
    min (length (chunks input)) (AXIVC_RING_CAPACITY - length (ring_contents ring))"

definition write_bytes :: "axivc_ring \<Rightarrow> bytes \<Rightarrow> nat" where
  "write_bytes ring input = length (concat (take (write_count ring input) (chunks input)))"

lemma write_count_full [simp]:
  "length (ring_contents ring) = AXIVC_RING_CAPACITY \<Longrightarrow> write_count ring input = 0"
  by (simp add: write_count_def)

lemma write_count_Nil [simp]: "write_count ring [] = 0"
  by (simp add: write_count_def)

lemma write_bytes_zero: "write_count ring input = 0 \<Longrightarrow> write_bytes ring input = 0"
  by (simp add: write_bytes_def)

lemma write_step:
  assumes "input \<noteq> []" "ring_contents ring' = ring_contents ring @ [s]"
    and "length (ring_contents ring) < AXIVC_RING_CAPACITY"
  shows "write_count ring input = Suc (write_count ring' (drop AXIVC_FRAGMENT_CAPACITY input))"
    and "write_bytes ring input = min AXIVC_FRAGMENT_CAPACITY (length input) +
      write_bytes ring' (drop AXIVC_FRAGMENT_CAPACITY input)"
proof -
  show c: "write_count ring input = Suc (write_count ring' (drop AXIVC_FRAGMENT_CAPACITY input))"
    using assms by (auto simp: write_count_def chunks_step)
  show "write_bytes ring input = min AXIVC_FRAGMENT_CAPACITY (length input) +
      write_bytes ring' (drop AXIVC_FRAGMENT_CAPACITY input)"
    unfolding write_bytes_def c using assms(1) by (simp add: chunks_step min.commute)
qed

lemma write_bytes_le: "write_bytes ring input \<le> length input"
proof -
  have "concat (chunks input) = concat (take k (chunks input)) @ concat (drop k (chunks input))" for k
    by (metis append_take_drop_id concat_append)
  then have "length input = write_bytes ring input +
      length (concat (drop (write_count ring input) (chunks input)))"
    unfolding write_bytes_def by (metis concat_chunks length_append)
  then show ?thesis by simp
qed

definition after_write :: "axivc_message_sender \<Rightarrow> nat \<Rightarrow> nat \<Rightarrow> bool \<Rightarrow> axivc_message_sender" where
  "after_write sender n k fin = sender\<lparr>tx_sent := tx_sent sender + of_nat n,
    tx_published_any := (tx_published_any sender \<or> 0 < k), tx_sending := (tx_sending sender \<and> \<not> fin)\<rparr>"

lemma after_write_zero [simp]: "after_write sender 0 0 False = sender"
  by (simp add: after_write_def)

text \<open>One iteration of the loop, with its frame in closed form.\<close>

lemma try_write_iteration:
  fixes sender :: axivc_message_sender
  defines "i \<equiv> m_id (tx_active sender)" and "l \<equiv> m_len (tx_active sender)"
    and "off \<equiv> unat (tx_sent sender)"
  assumes "i \<noteq> 0" "l \<noteq> 0" "tx_published_any sender \<longleftrightarrow> tx_sent sender \<noteq> 0"
    and rest: "rest = drop consumed input" "rest \<noteq> []" "off + length rest \<le> unat l"
    and m: "m = min AXIVC_FRAGMENT_CAPACITY (length rest)"
    and sl: "sl = frame_slot i l (off = 0) (off + m = unat l) False (take AXIVC_FRAGMENT_CAPACITY rest)"
    and s1: "s1 = sender\<lparr>tx_sent := tx_sent sender + of_nat m, tx_published_any := True\<rparr>"
  shows "slot_wf sl" "0 < m" "unat (tx_sent s1) = off + m"
    "frames_from i l off (chunks rest) =
      sl # frames_from i l (off + m) (chunks (drop AXIVC_FRAGMENT_CAPACITY rest))"
    "try_write_loop sender ring input consumed p =
      (case axivc_ring_try_push_slot ring sl of
        (False, ring') \<Rightarrow> (OK, sender, ring',
          \<lparr>sp_consumed = consumed, sp_published_slots = p, sp_complete = False\<rparr>)
      | (True, ring') \<Rightarrow>
        if off + m = unat l then (OK, s1\<lparr>tx_sending := False\<rparr>, ring',
          \<lparr>sp_consumed = consumed + m, sp_published_slots = p + 1, sp_complete = True\<rparr>)
        else try_write_loop s1 ring' input (consumed + m) (p + 1))"
proof -
  have lt: "consumed < length input" "length rest = length input - consumed"
    using rest(1,2) by auto
  have m': "0 < m" "m \<le> AXIVC_FRAGMENT_CAPACITY" "m \<le> length rest"
      "take m rest = take AXIVC_FRAGMENT_CAPACITY rest"
    using rest(2) by (auto simp: m wire_consts min_def)
  show "slot_wf sl" using m' by (simp add: sl frame_slot_wf)
  show "0 < m" by fact
  show next_sent: "unat (tx_sent s1) = off + m"
    using rest(3) m'(3) unat_u64_less[of l] off_def
    by (simp add: s1 unat_add_no_wrap unat_of_nat_u64)
  then have complete: "tx_sent sender + of_nat m = l \<longleftrightarrow> off + m = unat l"
    by (simp add: s1 word_unat_eq_iff)
  show "frames_from i l off (chunks rest) =
      sl # frames_from i l (off + m) (chunks (drop AXIVC_FRAGMENT_CAPACITY rest))"
    by (simp add: chunks_step[OF rest(2)] sl m min.commute)
  have "axivc_encode_frame i l (\<not> tx_published_any sender) (tx_sent sender + of_nat m = l) False
      (drop consumed input) m = Inr sl"
    using assms(4-6) m' complete rest(1)
    by (simp add: encode_data_slot sl off_def unat_eq_zero)
  then show "try_write_loop sender ring input consumed p =
      (case axivc_ring_try_push_slot ring sl of
        (False, ring') \<Rightarrow> (OK, sender, ring',
          \<lparr>sp_consumed = consumed, sp_published_slots = p, sp_complete = False\<rparr>)
      | (True, ring') \<Rightarrow>
        if off + m = unat l then (OK, s1\<lparr>tx_sending := False\<rparr>, ring',
          \<lparr>sp_consumed = consumed + m, sp_published_slots = p + 1, sp_complete = True\<rparr>)
        else try_write_loop s1 ring' input (consumed + m) (p + 1))"
    using lt complete
    by (subst try_write_loop.simps)
      (simp add: m s1 i_def l_def Let_def split: prod.split bool.split)
qed

lemma try_write_loop_spec:
  fixes sender :: axivc_message_sender
  assumes "ring_wf ring" "m_id (tx_active sender) \<noteq> 0" "m_len (tx_active sender) \<noteq> 0"
    and "unat (tx_sent sender) + length rest \<le> unat (m_len (tx_active sender))"
    and "tx_published_any sender \<longleftrightarrow> tx_sent sender \<noteq> 0" "tx_sending sender"
    and "rest = drop consumed input"
    and "k = write_count ring rest" "n = write_bytes ring rest"
    and "fin \<longleftrightarrow> 0 < k \<and> unat (tx_sent sender) + n = unat (m_len (tx_active sender))"
  shows "\<exists>ring'. try_write_loop sender ring input consumed p =
      (OK, after_write sender n k fin, ring',
        \<lparr>sp_consumed = consumed + n, sp_published_slots = p + k, sp_complete = fin\<rparr>) \<and>
    ring_wf ring' \<and> ring_contents ring' = ring_contents ring @
      take k (frames_from (m_id (tx_active sender)) (m_len (tx_active sender))
        (unat (tx_sent sender)) (chunks rest))"
  using assms
proof (induction "length rest" arbitrary: sender ring consumed p rest k n fin rule: less_induct)
  case less
  note prems = less.prems
  let ?l = "m_len (tx_active sender)" and ?off = "unat (tx_sent sender)"
  show ?case
  proof (cases "rest = []")
    case True
    with prems have "k = 0" "n = 0" "\<not> fin" "\<not> consumed < length input"
      by (auto simp: write_bytes_zero)
    with prems(1) show ?thesis by (subst try_write_loop.simps) (auto intro: exI[of _ ring])
  next
    case False
    define m where "m = min AXIVC_FRAGMENT_CAPACITY (length rest)"
    define s1 where "s1 = sender\<lparr>tx_sent := tx_sent sender + of_nat m, tx_published_any := True\<rparr>"
    define rest1 where "rest1 = drop AXIVC_FRAGMENT_CAPACITY rest"
    note it = try_write_iteration[OF prems(2,3,5,7) False prems(4) m_def refl s1_def]
    show ?thesis
    proof (cases rule: rq.push_cases[OF prems(1) it(1), case_names full room])
      case full
      then have "k = 0" "n = 0" "\<not> fin" using prems by (auto simp: write_bytes_zero)
      with full prems(1) show ?thesis by (simp add: it(5))
    next
      case (room ring1)
      have k: "k = Suc (write_count ring1 rest1)" and n: "n = m + write_bytes ring1 rest1"
        using write_step[OF False room(3,4)] prems(8,9) by (simp_all add: rest1_def m_def)
      show ?thesis
      proof (cases "?off + m = unat ?l")
        case True
        have "rest1 = []" using prems(4) True by (simp add: rest1_def m_def)
        then have "k = 1" "n = m" "fin" using k n prems(10) True by (auto simp: write_bytes_zero)
        with True room prems(6) show ?thesis by (simp add: it after_write_def s1_def)
      next
        case False
        have rest1: "rest1 = drop (consumed + m) input" "length rest1 = length rest - m"
          by (simp_all add: rest1_def prems(7) m_def min_def add.commute)
        have nz: "tx_sent s1 \<noteq> 0" using it(2,3) by (metis add_is_0 not_gr_zero unsigned_0)
        have fin: "fin \<longleftrightarrow> 0 < write_count ring1 rest1 \<and>
            unat (tx_sent s1) + write_bytes ring1 rest1 = unat (m_len (tx_active s1))"
          using prems(10) k n False it(3)
          by (cases "write_count ring1 rest1") (auto simp: write_bytes_zero s1_def)
        have s1: "m_id (tx_active s1) \<noteq> 0" "m_len (tx_active s1) \<noteq> 0"
            "unat (tx_sent s1) + length rest1 \<le> unat (m_len (tx_active s1))"
            "tx_published_any s1 \<longleftrightarrow> tx_sent s1 \<noteq> 0" "tx_sending s1"
          using prems(2-4,6) nz it(3) rest1(2) by (simp_all add: s1_def m_def)
        have "length rest1 < length rest"
          using it(2) rest1(2) \<open>rest \<noteq> []\<close> by simp
        from less.hyps[OF this room(2) s1 rest1(1) refl refl fin, of "p + 1"]
        obtain ring2 where "try_write_loop s1 ring1 input (consumed + m) (p + 1) =
            (OK, after_write sender n k fin, ring2,
              \<lparr>sp_consumed = consumed + n, sp_published_slots = p + k, sp_complete = fin\<rparr>)"
          "ring_wf ring2" "ring_contents ring2 = ring_contents ring1 @ take (write_count ring1 rest1)
            (frames_from (m_id (tx_active sender)) ?l (?off + m) (chunks rest1))"
          using it(3) by (auto simp: k n after_write_def s1_def add.assoc)
        with False room(1,3) show ?thesis
          by (simp add: it(4,5) k rest1_def[symmetric])
      qed
    qed
  qed
qed

section \<open>The sender invariant and the contract of each operation\<close>

definition sender_ok :: "axivc_message_sender \<Rightarrow> bool" where
  "sender_ok s \<longleftrightarrow> (tx_sending s \<longrightarrow> m_id (tx_active s) \<noteq> 0 \<and>
    (tx_published_any s \<longleftrightarrow> tx_sent s \<noteq> 0) \<and>
    (if m_len (tx_active s) = 0 then tx_sent s = 0 else tx_sent s < m_len (tx_active s)))"

lemma sender_init_ok: "sender_ok axivc_message_sender_init"
  by (simp add: sender_ok_def axivc_message_sender_init_def)

lemma start_cases:
  obtains (busy) "tx_sending s" "axivc_message_start s l = (Err EBUSY, s)"
  | (exhausted) "\<not> tx_sending s" "tx_next_message_id s = 0" "axivc_message_start s l = (Err EOVERFLOW, s)"
  | (started) "\<not> tx_sending s" "tx_next_message_id s \<noteq> 0"
      "axivc_message_start s l = (OK, \<lparr>tx_next_message_id = tx_next_message_id s + 1,
        tx_sending = True, tx_active = \<lparr>m_id = tx_next_message_id s, m_len = l\<rparr>, tx_sent = 0,
        tx_published_any = False\<rparr>)"
proof -
  have wrap: "(if i = NOT 0 then 0 else i + 1) = i + 1" for i :: u64 by simp
  show ?thesis
    using that by (cases s) (auto simp: axivc_message_start_def Let_def wrap simp del: bit.compl_zero)
qed

lemma start_ok: "sender_ok s \<Longrightarrow> sender_ok (snd (axivc_message_start s l))"
  by (cases rule: start_cases[of s l, case_names busy exhausted started])
    (auto simp: sender_ok_def word_gt_0)

lemma try_write_contract:
  assumes "ring_wf ring" "sender_ok s" "tx_sending s" "m_len (tx_active s) \<noteq> 0"
    and "unat (tx_sent s) + length input \<le> unat (m_len (tx_active s))"
    and "k = write_count ring input" "n = write_bytes ring input"
    and "fin \<longleftrightarrow> 0 < k \<and> unat (tx_sent s) + n = unat (m_len (tx_active s))"
  obtains ring' where
    "axivc_message_try_write s ring input = (OK, after_write s n k fin, ring',
      \<lparr>sp_consumed = n, sp_published_slots = k, sp_complete = fin\<rparr>)"
    "ring_wf ring'" "ring_contents ring' = ring_contents ring @
      frames_from (m_id (tx_active s)) (m_len (tx_active s)) (unat (tx_sent s)) (take k (chunks input))"
proof -
  have "tx_sent s \<le> m_len (tx_active s)"
    using assms(2-4) by (auto simp: sender_ok_def)
  then have "\<not> length input > unat (m_len (tx_active s) - tx_sent s)"
    using assms(5) by (simp add: unat_sub_no_wrap)
  moreover have "m_id (tx_active s) \<noteq> 0" "tx_published_any s \<longleftrightarrow> tx_sent s \<noteq> 0"
    using assms(2,3) by (auto simp: sender_ok_def)
  ultimately show ?thesis
    using try_write_loop_spec[of ring s input 0 input k n fin 0] assms that
    by (auto simp: axivc_message_try_write_def take_frames_from)
qed

lemma write_bytes_pos: "0 < write_count ring input \<Longrightarrow> 0 < write_bytes ring input"
proof -
  assume "0 < write_count ring input"
  then obtain fr frs where "take (write_count ring input) (chunks input) = fr # frs" "fr \<in> set (chunks input)"
    by (cases "chunks input") (auto simp: write_count_def take_Cons')
  then show ?thesis using chunks_ok[of fr input] by (auto simp: write_bytes_def fragment_ok_def)
qed

lemma after_write_ok:
  assumes "sender_ok s" "tx_sending s" "m_len (tx_active s) \<noteq> 0"
    and "unat (tx_sent s) + n \<le> unat (m_len (tx_active s))" "0 < k \<longleftrightarrow> 0 < n"
    and "fin \<longleftrightarrow> 0 < k \<and> unat (tx_sent s) + n = unat (m_len (tx_active s))"
  shows "sender_ok (after_write s n k fin)" "unat (tx_sent (after_write s n k fin)) = unat (tx_sent s) + n"
proof -
  show sent: "unat (tx_sent (after_write s n k fin)) = unat (tx_sent s) + n"
    using assms(4) unat_u64_less[of "m_len (tx_active s)"]
    by (simp add: after_write_def unat_add_no_wrap unat_of_nat_u64)
  have lt: "unat (tx_sent s) < unat (m_len (tx_active s))"
    using assms(1-3) by (simp add: sender_ok_def word_less_nat_alt)
  have "tx_sent (after_write s n k fin) = 0 \<longleftrightarrow> tx_sent s = 0 \<and> n = 0"
    using sent by (metis add_is_0 unat_eq_zero)
  then show "sender_ok (after_write s n k fin)"
    using assms lt sent
    by (auto simp: sender_ok_def after_write_def word_less_nat_alt)
qed

text \<open>The outcomes of a write on every input.\<close>

lemma try_write_cases:
  assumes "ring_wf ring" "sender_ok s"
  obtains (refused) e where "axivc_message_try_write s ring input = (Err e, s, ring, no_progress)"
      "e = (if tx_sending s then EINVAL else ENOMSG)"
      "\<not> tx_sending s \<or> length input > unat (m_len (tx_active s) - tx_sent s)"
  | (stalled) "tx_sending s" "m_len (tx_active s) = 0" "input = []"
      "length (ring_contents ring) = AXIVC_RING_CAPACITY"
      "axivc_message_try_write s ring input = (OK, s, ring, no_progress)"
  | (empty) ring' where "tx_sending s" "m_len (tx_active s) = 0" "input = []" "ring_wf ring'"
      "axivc_message_try_write s ring input = (OK, s\<lparr>tx_sending := False\<rparr>, ring',
        \<lparr>sp_consumed = 0, sp_published_slots = 1, sp_complete = True\<rparr>)"
      "ring_contents ring' = ring_contents ring @ [frame_slot (m_id (tx_active s)) 0 True True False []]"
  | (data) k n fin ring' where "tx_sending s" "m_len (tx_active s) \<noteq> 0"
      "unat (tx_sent s) + length input \<le> unat (m_len (tx_active s))"
      "unat (tx_sent s) + n \<le> unat (m_len (tx_active s))" "0 < k \<longleftrightarrow> 0 < n"
      "fin \<longleftrightarrow> 0 < k \<and> unat (tx_sent s) + n = unat (m_len (tx_active s))"
      "k = write_count ring input" "n = write_bytes ring input"
      "axivc_message_try_write s ring input = (OK, after_write s n k fin, ring',
        \<lparr>sp_consumed = n, sp_published_slots = k, sp_complete = fin\<rparr>)"
      "ring_wf ring'" "ring_contents ring' = ring_contents ring @
        frames_from (m_id (tx_active s)) (m_len (tx_active s)) (unat (tx_sent s)) (take k (chunks input))"
proof (cases "tx_sending s \<and> length input \<le> unat (m_len (tx_active s) - tx_sent s)")
  case False
  then show ?thesis by (intro refused) (auto simp: axivc_message_try_write_def Let_def)
next
  case sending: True
  show ?thesis
  proof (cases "m_len (tx_active s) = 0")
    case True
    let ?sl = "frame_slot (m_id (tx_active s)) 0 True True False []"
    have sl: "slot_wf ?sl" by (simp add: frame_slot_wf)
    have "axivc_encode_frame (m_id (tx_active s)) 0 True True False [] 0 = Inr ?sl" "input = []"
      using assms(2) sending True by (auto simp: sender_ok_def intro: encode_empty_slot)
    with assms True sending sl show ?thesis
      by (cases rule: rq.push_cases[OF assms(1) sl, case_names full room])
        (auto simp: axivc_message_try_write_def axivc_publish_empty_message_def no_progress_def Let_def
          intro: stalled empty)
  next
    case nz: False
    have "tx_sent s \<le> m_len (tx_active s)"
      using assms(2) sending nz by (auto simp: sender_ok_def)
    then have le: "unat (tx_sent s) + length input \<le> unat (m_len (tx_active s))"
      using sending by (auto simp: unat_sub_no_wrap word_le_nat_alt)
    with write_bytes_le[of ring input]
    have le': "unat (tx_sent s) + write_bytes ring input \<le> unat (m_len (tx_active s))" by simp
    have pos: "0 < write_count ring input \<longleftrightarrow> 0 < write_bytes ring input"
      using write_bytes_pos[of ring input] write_bytes_zero[of ring input] by fastforce
    show ?thesis
      by (rule try_write_contract[OF assms conjunct1[OF sending] nz le refl refl refl])
        (rule data[OF conjunct1[OF sending] nz le le' pos refl refl refl])
  qed
qed

lemma try_write_ok:
  assumes "ring_wf ring" "sender_ok s" "axivc_message_try_write s ring input = (st, s', ring', p)"
  shows "sender_ok s' \<and> ring_wf ring'"
proof (cases rule: try_write_cases[OF assms(1,2), of input, case_names refused stalled empty data])
  case (data k n fin r)
  then show ?thesis using after_write_ok(1)[OF assms(2) data(1,2,4-6)] assms(3) by simp
qed (use assms in \<open>auto simp: sender_ok_def\<close>)

lemma try_abort_cases:
  assumes "ring_wf ring" "sender_ok s"
  obtains (idle) "\<not> tx_sending s" "axivc_message_try_abort s ring = (Err ENOMSG, s, ring)"
  | (local) "tx_sending s" "\<not> tx_published_any s"
      "axivc_message_try_abort s ring = (OK, s\<lparr>tx_sending := False\<rparr>, ring)"
  | (full) "tx_sending s" "tx_published_any s" "length (ring_contents ring) = AXIVC_RING_CAPACITY"
      "axivc_message_try_abort s ring = (Err EAGAIN, s, ring)"
  | (abort) ring' where "tx_sending s" "tx_published_any s"
      "axivc_message_try_abort s ring = (OK, s\<lparr>tx_sending := False\<rparr>, ring')" "ring_wf ring'"
      "ring_contents ring' = ring_contents ring @
        [frame_slot (m_id (tx_active s)) (m_len (tx_active s)) False False True []]"
proof (cases "tx_sending s \<and> tx_published_any s")
  case False
  then show ?thesis using idle local by (auto simp: axivc_message_try_abort_def)
next
  case True
  let ?sl = "frame_slot (m_id (tx_active s)) (m_len (tx_active s)) False False True []"
  have sl: "slot_wf ?sl" by (simp add: frame_slot_wf)
  have enc: "axivc_encode_frame (m_id (tx_active s)) (m_len (tx_active s)) False False True [] 0 = Inr ?sl"
    using assms(2) True by (intro encode_abort_slot) (simp add: sender_ok_def)
  show ?thesis
  proof (cases rule: rq.push_cases[OF assms(1) sl, case_names full room])
    case full
    with True enc show ?thesis using that(3) by (auto simp: axivc_message_try_abort_def)
  next
    case (room ring')
    with True enc show ?thesis using abort by (auto simp: axivc_message_try_abort_def)
  qed
qed

lemma try_abort_ok:
  assumes "ring_wf ring" "sender_ok s" "axivc_message_try_abort s ring = (st, s', ring')"
  shows "sender_ok s' \<and> ring_wf ring'"
  using assms
  by (cases rule: try_abort_cases[OF assms(1,2), case_names idle local full abort])
    (auto simp: sender_ok_def)

section \<open>Message identifiers\<close>

text \<open>
  The states a sender goes through, with the number of messages started so far: any
  interleaving of starts, writes and aborts, on any well-formed ring.
\<close>

inductive sender_run :: "nat \<Rightarrow> axivc_message_sender \<Rightarrow> bool" where
  run_init: "sender_run 0 axivc_message_sender_init"
| run_start: "sender_run n s \<Longrightarrow> axivc_message_start s l = (OK, s') \<Longrightarrow> sender_run (Suc n) s'"
| run_write: "sender_run n s \<Longrightarrow> ring_wf ring \<Longrightarrow>
    axivc_message_try_write s ring input = (st, s', ring', p) \<Longrightarrow> sender_run n s'"
| run_abort: "sender_run n s \<Longrightarrow> ring_wf ring \<Longrightarrow>
    axivc_message_try_abort s ring = (st, s', ring') \<Longrightarrow> sender_run n s'"

lemma try_write_loop_frame:
  "try_write_loop s ring input c p = (st, s', ring', pr) \<Longrightarrow>
    tx_next_message_id s' = tx_next_message_id s \<and> tx_active s' = tx_active s"
proof (induction "length input - c" arbitrary: s ring c p rule: less_induct)
  case less
  let ?m = "min AXIVC_FRAGMENT_CAPACITY (length input - c)"
  have "length input - (c + ?m) < length input - c" if "c < length input"
    using that by (simp add: wire_consts)
  note IH = less.hyps[OF this]
  from less.prems show ?case
    by (subst (asm) try_write_loop.simps)
      (auto simp: Let_def split: if_splits sum.splits prod.splits bool.splits dest!: IH[rotated])
qed

lemma try_write_frame:
  "axivc_message_try_write s ring input = (st, s', ring', pr) \<Longrightarrow>
    tx_next_message_id s' = tx_next_message_id s \<and> tx_active s' = tx_active s"
  by (auto simp: axivc_message_try_write_def axivc_publish_empty_message_def Let_def
      split: if_splits sum.splits prod.splits bool.splits dest: try_write_loop_frame)

lemma try_abort_frame:
  "axivc_message_try_abort s ring = (st, s', ring') \<Longrightarrow>
    tx_next_message_id s' = tx_next_message_id s \<and> tx_active s' = tx_active s"
  by (auto simp: axivc_message_try_abort_def split: if_splits sum.splits prod.splits bool.splits)

lemma of_nat_Suc_zero_u64: "n < 2 ^ 64 \<Longrightarrow> of_nat (Suc n) = (0 :: u64) \<longleftrightarrow> Suc n = 2 ^ 64"
proof -
  assume "n < 2 ^ 64"
  then have "Suc n < 2 ^ 64 \<or> Suc n = 2 ^ 64" by linarith
  moreover have "of_nat (Suc n) \<noteq> (0 :: u64)" if "Suc n < 2 ^ 64"
    using unat_of_nat_u64[OF that] by (metis nat.distinct(1) unsigned_0)
  moreover have "(of_nat (2 ^ 64) :: u64) = 0" by simp
  ultimately show ?thesis by metis
qed

lemma sender_run_ids:
  "sender_run n s \<Longrightarrow> n < 2 ^ 64 \<and> tx_next_message_id s = of_nat (Suc n) \<and>
    (0 < n \<longrightarrow> m_id (tx_active s) = of_nat n)"
proof (induction rule: sender_run.induct)
  case run_init
  show ?case by (simp add: axivc_message_sender_init_def)
next
  case (run_start n s l s')
  then have nz: "of_nat (Suc n) \<noteq> (0 :: u64)"
    by (cases rule: start_cases[of s l, case_names busy exhausted started]) auto
  with run_start.IH have "Suc n < 2 ^ 64"
    using of_nat_Suc_zero_u64[of n] by linarith
  with run_start show ?case
    by (cases rule: start_cases[of s l, case_names busy exhausted started]) (auto simp: add.commute)
qed (auto dest!: try_write_frame try_abort_frame)

section \<open>Properties\<close>

text \<open>
  C19. What a write publishes. For a sender with an active non-empty message and input that
  does not exceed the unsent part, \<open>axivc_message_try_write\<close> succeeds. It cuts the input
  into fragments of at most 232 bytes and appends to the ring, in order, the frames of as
  many of them as there are free slots: FIRST on the frame at offset 0 of the message, LAST
  on the frame that reaches its end, ABORT on none. The progress it reports is exactly the
  bytes and slots it published, and \<open>complete\<close> exactly when the message is finished.
\<close>

theorem try_write_publishes:
  assumes "ring_wf ring" "sender_ok s" "tx_sending s" "m_len (tx_active s) \<noteq> 0"
    and "unat (tx_sent s) + length input \<le> unat (m_len (tx_active s))"
  shows "case axivc_message_try_write s ring input of (st, s', ring', progress) \<Rightarrow>
    let k = min (length (chunks input)) (AXIVC_RING_CAPACITY - length (ring_contents ring));
        frs = take k (chunks input)
    in st = OK \<and> ring_wf ring' \<and> sender_ok s' \<and>
      ring_contents ring' = ring_contents ring @
        frames_from (m_id (tx_active s)) (m_len (tx_active s)) (unat (tx_sent s)) frs \<and>
      sp_consumed progress = length (concat frs) \<and> sp_published_slots progress = k \<and>
      sp_complete progress = (0 < k \<and> unat (tx_sent s) + length (concat frs) = unat (m_len (tx_active s))) \<and>
      unat (tx_sent s') = unat (tx_sent s) + length (concat frs) \<and>
      tx_sending s' = (\<not> sp_complete progress)"
proof -
  let ?k = "write_count ring input" and ?n = "write_bytes ring input"
  let ?fin = "0 < ?k \<and> unat (tx_sent s) + ?n = unat (m_len (tx_active s))"
  have le: "unat (tx_sent s) + ?n \<le> unat (m_len (tx_active s))"
    using assms(5) write_bytes_le[of ring input] by simp
  have pos: "0 < ?k \<longleftrightarrow> 0 < ?n"
    using write_bytes_pos[of ring input] write_bytes_zero[of ring input] by fastforce
  obtain ring' where r: "axivc_message_try_write s ring input = (OK, after_write s ?n ?k ?fin, ring',
      \<lparr>sp_consumed = ?n, sp_published_slots = ?k, sp_complete = ?fin\<rparr>)"
    "ring_wf ring'" "ring_contents ring' = ring_contents ring @
      frames_from (m_id (tx_active s)) (m_len (tx_active s)) (unat (tx_sent s)) (take ?k (chunks input))"
    using try_write_contract[OF assms refl refl refl] by metis
  note aw = after_write_ok[OF assms(2-4) le pos refl]
  show ?thesis
    unfolding r(1) prod.case Let_def write_count_def[symmetric] write_bytes_def[symmetric]
    using r(2,3) aw assms(3) by (simp add: after_write_def)
qed

definition demo_sender :: axivc_message_sender where
  "demo_sender = snd (axivc_message_start axivc_message_sender_init 500)"

definition empty_ring :: axivc_ring where
  "empty_ring = axivc_ring_initialize wrap_ring AXIVC_RING_DIRECTION_PUBLISHER_TO_SUBSCRIBER"

lemma demo_sender_eq:
  "demo_sender = \<lparr>tx_next_message_id = 2, tx_sending = True, tx_active = \<lparr>m_id = 1, m_len = 500\<rparr>,
    tx_sent = 0, tx_published_any = False\<rparr>"
  by (simp add: demo_sender_def axivc_message_start_def axivc_message_sender_init_def)

text \<open>A 500-byte message on an empty ring: two slots are published for the first 464 bytes.\<close>

theorem try_write_publishes_witness:
  "ring_wf empty_ring \<and> sender_ok demo_sender \<and>
    sp_consumed (snd (snd (snd (axivc_message_try_write demo_sender empty_ring (replicate 464 7))))) = 464 \<and>
    sp_published_slots (snd (snd (snd (axivc_message_try_write demo_sender empty_ring (replicate 464 7))))) = 2"
proof -
  have r: "ring_wf empty_ring" "ring_used empty_ring = 0"
    using ring_initialize_wf arg_cong[OF ring_initialize_empty, of length]
    by (simp_all add: empty_ring_def)
  have s: "sender_ok demo_sender"
    by (simp add: demo_sender_eq sender_ok_def)
  have "chunks (replicate 464 7) = [replicate 232 7, replicate 232 7]"
    by (simp add: chunks_step wire_consts)
  moreover have "case axivc_message_try_write demo_sender empty_ring (replicate 464 7) of
      (st, s', ring', progress) \<Rightarrow>
      let k = min (length (chunks (replicate 464 7))) (AXIVC_RING_CAPACITY - length (ring_contents empty_ring))
      in sp_consumed progress = length (concat (take k (chunks (replicate 464 7)))) \<and>
        sp_published_slots progress = k"
    using try_write_publishes[OF r(1) s, of "replicate 464 7"]
    by (simp add: demo_sender_eq Let_def split_beta)
  ultimately show ?thesis using r s by (simp add: split_beta Let_def ring_consts)
qed

text \<open>
  C33. Message identifiers are never reused. Whatever sequence of starts, writes and aborts a
  sender went through, the n-th message it started has the identifier n; the identifier
  space ends at \<open>2 ^ 64 - 1\<close>, and from then on every start is refused with \<open>EOVERFLOW\<close> (or
  \<open>EBUSY\<close> while the last message is active) instead of wrapping around.
\<close>

theorem message_ids_never_alias:
  assumes "sender_run n s"
  shows "n < 2 ^ 64 \<and> (n = 0 \<or> unat (m_id (tx_active s)) = n) \<and>
    (case axivc_message_start s l of
      (None, s') \<Rightarrow> n < 2 ^ 64 - 1 \<and> unat (m_id (tx_active s')) = Suc n
    | (Some e, s') \<Rightarrow> s' = s \<and>
        (e = EBUSY \<and> tx_sending s \<or> e = EOVERFLOW \<and> \<not> tx_sending s \<and> n = 2 ^ 64 - 1))"
proof -
  note ids = sender_run_ids[OF assms]
  have "n = 0 \<or> unat (m_id (tx_active s)) = n"
    using ids by (cases "n = 0") (simp_all add: unat_of_nat_u64)
  moreover have "tx_next_message_id s = 0 \<longleftrightarrow> n = 2 ^ 64 - 1"
    using ids of_nat_Suc_zero_u64[of n] by auto
  moreover have "unat (tx_next_message_id s) = Suc n" if "n < 2 ^ 64 - 1"
    using ids that by (simp add: unat_of_nat_u64 del: of_nat_Suc)
  ultimately show ?thesis
    using ids by (cases rule: start_cases[of s l, case_names busy exhausted started]) auto
qed

theorem message_ids_never_alias_witness:
  "sender_run 1 demo_sender \<and> unat (m_id (tx_active demo_sender)) = 1"
proof -
  have "axivc_message_start axivc_message_sender_init 500 = (OK, demo_sender)"
    by (simp add: demo_sender_def axivc_message_start_def axivc_message_sender_init_def)
  from sender_run.run_start[OF sender_run.run_init this] have "sender_run 1 demo_sender" by simp
  with message_ids_never_alias[OF this] show ?thesis by simp
qed

end
