(* ===== verification/Axivc_Receiver.thy ===== *)
theory Axivc_Receiver
  imports Axivc_Sender
begin

text \<open>
  The receiving half of the message layer of \<^verbatim>\<open>ivc/message.c\<close>: the receive state
  machine \<open>axivc_validate_transition\<close>, the slot loop \<open>axivc_process_available_slots\<close>, and
  \<open>axivc_message_peek_meta\<close>, \<open>axivc_message_try_read\<close>, \<open>axivc_message_receiver_poison\<close>.
  The function \<open>rx_feed\<close> is the abstract reader of a slot stream; \<open>try_read\<close> is shown to
  refine it on every input, errors included.
\<close>

section \<open>State and operations\<close>

datatype axivc_receiver_state = AXIVC_RX_IDLE | AXIVC_RX_RECEIVING | AXIVC_RX_FAILED

record axivc_message_receiver =
  rx_state :: axivc_receiver_state
  rx_active :: axivc_message_meta
  rx_received :: u64
  rx_failed_errno :: status

record axivc_receive_progress =
  rp_written :: nat
  rp_consumed_slots :: nat
  rp_complete :: bool

record axivc_receive_transition =
  tr_next_state :: axivc_receiver_state
  tr_active :: axivc_message_meta
  tr_received :: u64
  tr_complete :: bool
  tr_aborted :: bool

definition axivc_message_receiver_init :: axivc_message_receiver where
  "axivc_message_receiver_init = \<lparr>rx_state = AXIVC_RX_IDLE, rx_active = \<lparr>m_id = 0, m_len = 0\<rparr>,
    rx_received = 0, rx_failed_errno = OK\<rparr>"

definition axivc_message_receiver_poison :: "axivc_message_receiver \<Rightarrow> errno \<Rightarrow> axivc_message_receiver" where
  "axivc_message_receiver_poison receiver error =
    receiver\<lparr>rx_state := AXIVC_RX_FAILED, rx_failed_errno := Err error\<rparr>"

definition axivc_receiver_fail ::
  "axivc_message_receiver \<Rightarrow> errno \<Rightarrow> status \<times> axivc_message_receiver" where
  "axivc_receiver_fail receiver error =
    (Err error, receiver\<lparr>rx_state := AXIVC_RX_FAILED, rx_failed_errno := Err error\<rparr>)"

text \<open>
  \<open>axivc_validate_transition\<close> fills the caller's transition only when it returns 0; its
  previous contents are an argument.
\<close>

definition axivc_validate_transition ::
  "axivc_message_receiver \<Rightarrow> axivc_decoded_frame \<Rightarrow> axivc_receive_transition \<Rightarrow>
    status \<times> axivc_receive_transition" where
  "axivc_validate_transition receiver frame transition =
    (let proceed = (\<lambda>active received.
       if f_abort frame then
         (OK, \<lparr>tr_next_state = AXIVC_RX_IDLE, tr_active = active, tr_received = received,
           tr_complete = False, tr_aborted = True\<rparr>)
       else let fragment_len = of_nat (f_fragment_len frame) in
         if received > NOT 0 - fragment_len then (Err EPROTO, transition)
         else let received = received + fragment_len in
           if received > m_len active then (Err EPROTO, transition)
           else if f_last frame \<and> received \<noteq> m_len active then (Err EPROTO, transition)
           else (OK, \<lparr>tr_next_state = (if f_last frame then AXIVC_RX_IDLE else AXIVC_RX_RECEIVING),
             tr_active = active, tr_received = received, tr_complete = f_last frame,
             tr_aborted = False\<rparr>))
     in case rx_state receiver of
       AXIVC_RX_IDLE \<Rightarrow>
         if f_abort frame \<or> \<not> f_first frame then (Err EPROTO, transition)
         else proceed \<lparr>m_id = f_message_id frame, m_len = f_message_len frame\<rparr> 0
     | AXIVC_RX_RECEIVING \<Rightarrow>
         if f_first frame then (Err EPROTO, transition)
         else if f_message_id frame \<noteq> m_id (rx_active receiver) then (Err EPROTO, transition)
         else if f_message_len frame \<noteq> m_len (rx_active receiver) then (Err EPROTO, transition)
         else proceed (rx_active receiver) (rx_received receiver)
     | AXIVC_RX_FAILED \<Rightarrow> (rx_failed_errno receiver, transition))"

definition apply_transition ::
  "axivc_message_receiver \<Rightarrow> axivc_receive_transition \<Rightarrow> axivc_message_receiver" where
  "apply_transition receiver transition = receiver\<lparr>rx_state := tr_next_state transition,
    rx_active := tr_active transition, rx_received := tr_received transition\<rparr>"

definition blank_transition :: axivc_receive_transition where
  "blank_transition = \<lparr>tr_next_state = AXIVC_RX_IDLE, tr_active = \<lparr>m_id = 0, m_len = 0\<rparr>,
    tr_received = 0, tr_complete = False, tr_aborted = False\<rparr>"

definition rp_zero :: axivc_receive_progress where
  "rp_zero = \<lparr>rp_written = 0, rp_consumed_slots = 0, rp_complete = False\<rparr>"

lemma peek_used: "axivc_ring_try_peek_slot r = Some s \<Longrightarrow> ring_used (axivc_ring_pop_slot r) < ring_used r"
proof -
  assume "axivc_ring_try_peek_slot r = Some s"
  then have "ring_used r \<noteq> 0"
    by (auto simp: axivc_ring_try_peek_slot_def ring_used_def Let_def unat_eq_zero split: if_splits)
  then obtain n where "ring_used r = Suc n" by (cases "ring_used r") auto
  then show ?thesis by (simp add: pop_used)
qed

text \<open>
  The \<open>for (;;)\<close> loop of \<open>axivc_process_available_slots\<close>. Every iteration that goes on has
  popped a slot, so the loop ends when the ring is drained at the latest.
\<close>

function process_slots ::
  "axivc_message_receiver \<Rightarrow> axivc_ring \<Rightarrow> bytes \<Rightarrow> nat \<Rightarrow> nat \<Rightarrow>
    status \<times> axivc_message_receiver \<times> axivc_ring \<times> bytes \<times> axivc_receive_progress" where
  "process_slots receiver ring output written consumed_slots =
    (let stop = (OK, receiver, ring, output,
           \<lparr>rp_written = written, rp_consumed_slots = consumed_slots, rp_complete = False\<rparr>);
         fail = (\<lambda>err. let (st, receiver') = axivc_receiver_fail receiver err
           in (st, receiver', ring, output, rp_zero))
     in case axivc_ring_try_peek_slot ring of
       None \<Rightarrow> stop
     | Some slot \<Rightarrow>
       (case axivc_decode_frame slot of
         Inl err \<Rightarrow> if consumed_slots > 0 then stop else fail err
       | Inr frame \<Rightarrow>
         (case axivc_validate_transition receiver frame blank_transition of
           (Some err, transition) \<Rightarrow> if consumed_slots > 0 then stop else fail err
         | (None, transition) \<Rightarrow>
           if tr_aborted transition \<and> consumed_slots > 0 then stop
           else if f_fragment_len frame > length output - written then
             (if consumed_slots = 0 then (Err EMSGSIZE, receiver, ring, output, rp_zero) else stop)
           else
             let output' = memcpy_at written (take (f_fragment_len frame) (f_fragment frame)) output;
                 written' = written + f_fragment_len frame;
                 ring' = axivc_ring_pop_slot ring;
                 receiver' = apply_transition receiver transition
             in if tr_aborted transition then (Err ECONNRESET, receiver', ring', output', rp_zero)
                else if tr_complete transition then (OK, receiver', ring', output',
                  \<lparr>rp_written = written', rp_consumed_slots = consumed_slots + 1, rp_complete = True\<rparr>)
                else process_slots receiver' ring' output' written' (consumed_slots + 1))))"
  by pat_completeness auto
termination
  by (relation "measure (\<lambda>(receiver, ring, output, w, c). ring_used ring)") (auto simp: peek_used)

declare process_slots.simps [simp del]

definition axivc_process_available_slots ::
  "axivc_message_receiver \<Rightarrow> axivc_ring \<Rightarrow> bytes \<Rightarrow>
    status \<times> axivc_message_receiver \<times> axivc_ring \<times> bytes \<times> axivc_receive_progress" where
  "axivc_process_available_slots receiver ring output =
    (if rx_state receiver = AXIVC_RX_FAILED
     then (rx_failed_errno receiver, receiver, ring, output, rp_zero)
     else process_slots receiver ring output 0 0)"

definition axivc_message_try_read ::
  "axivc_message_receiver \<Rightarrow> axivc_ring \<Rightarrow> bytes \<Rightarrow>
    status \<times> axivc_message_receiver \<times> axivc_ring \<times> bytes \<times> axivc_receive_progress" where
  "axivc_message_try_read receiver ring output = axivc_process_available_slots receiver ring output"

definition axivc_message_peek_meta ::
  "axivc_message_receiver \<Rightarrow> axivc_ring \<Rightarrow> axivc_message_meta \<Rightarrow>
    status \<times> axivc_message_receiver \<times> axivc_message_meta \<times> bool" where
  "axivc_message_peek_meta receiver ring meta =
    (case rx_state receiver of
       AXIVC_RX_FAILED \<Rightarrow> (rx_failed_errno receiver, receiver, meta, False)
     | AXIVC_RX_RECEIVING \<Rightarrow> (OK, receiver, rx_active receiver, True)
     | AXIVC_RX_IDLE \<Rightarrow>
       (case axivc_ring_try_peek_slot ring of
          None \<Rightarrow> (OK, receiver, meta, False)
        | Some slot \<Rightarrow>
          (case axivc_decode_frame slot of
             Inl err \<Rightarrow> let (st, receiver') = axivc_receiver_fail receiver err
               in (st, receiver', meta, False)
           | Inr frame \<Rightarrow>
             if f_abort frame \<or> \<not> f_first frame then
               let (st, receiver') = axivc_receiver_fail receiver EPROTO in (st, receiver', meta, False)
             else (OK, receiver, \<lparr>m_id = f_message_id frame, m_len = f_message_len frame\<rparr>, True))))"

section \<open>The abstract reader of a slot stream\<close>

datatype delivery = Delivered bytes | Reset

type_synonym rx_view = "axivc_message_receiver \<times> delivery list \<times> bytes"

text \<open>One slot: its error, or the next receiver state, the payload bytes and the transition.\<close>

definition rx_slot ::
  "axivc_message_receiver \<Rightarrow> slot \<Rightarrow> errno + axivc_message_receiver \<times> bytes \<times> axivc_receive_transition" where
  "rx_slot rx slot =
    (case axivc_decode_frame slot of
      Inl e \<Rightarrow> Inl e
    | Inr f \<Rightarrow>
      (case axivc_validate_transition rx f blank_transition of
        (Some e, t) \<Rightarrow> Inl e
      | (None, t) \<Rightarrow> Inr (apply_transition rx t, take (f_fragment_len f) (f_fragment f), t)))"

text \<open>The messages completed and reset so far, and the bytes of the current message.\<close>

fun rx_feed :: "rx_view \<Rightarrow> slot \<Rightarrow> rx_view option" where
  "rx_feed (rx, log, cur) slot =
    (case rx_slot rx slot of
      Inl e \<Rightarrow> None
    | Inr (rx', data, t) \<Rightarrow> Some
        (if tr_aborted t then (rx', log @ [Reset], [])
         else if tr_complete t then (rx', log @ [Delivered (cur @ data)], [])
         else (rx', log, cur @ data)))"

fun rx_feeds :: "rx_view \<Rightarrow> slot list \<Rightarrow> rx_view option" where
  "rx_feeds v [] = Some v"
| "rx_feeds v (s # ss) = (case rx_feed v s of None \<Rightarrow> None | Some v' \<Rightarrow> rx_feeds v' ss)"

lemma rx_feeds_append:
  "rx_feeds v (xs @ ys) = (case rx_feeds v xs of None \<Rightarrow> None | Some v' \<Rightarrow> rx_feeds v' ys)"
  by (induction xs arbitrary: v) (simp_all split: option.split)

lemma decode_len:
  assumes "slot_wf s" "axivc_decode_frame s = Inr f"
  shows "f_fragment_len f \<le> AXIVC_FRAGMENT_CAPACITY" "length (take (f_fragment_len f) (f_fragment f)) = f_fragment_len f"
proof -
  from decode_frame_inv[OF assms] have f: "frame_ok f" "s = frame_image f" by auto
  show "f_fragment_len f \<le> AXIVC_FRAGMENT_CAPACITY" using f(1) by (simp add: frame_ok_def)
  have "length s = AXIVC_V1_HEADER_LEN + length (f_fragment f)"
    using f(2) by (simp add: frame_image_def)
  then have "length (f_fragment f) = AXIVC_FRAGMENT_CAPACITY"
    using assms(1) by (simp add: slot_wf_def wire_consts)
  with f(1) show "length (take (f_fragment_len f) (f_fragment f)) = f_fragment_len f"
    by (simp add: frame_ok_def)
qed

lemma transition_state:
  "axivc_validate_transition rx f t0 = (OK, t) \<Longrightarrow> rx_state rx \<noteq> AXIVC_RX_FAILED \<Longrightarrow>
    tr_next_state t \<noteq> AXIVC_RX_FAILED \<and> (tr_aborted t \<longrightarrow> f_abort f)"
  by (auto simp: axivc_validate_transition_def Let_def
      split: axivc_receiver_state.splits if_splits)

lemma rx_slot_state:
  "rx_slot rx s = Inr (rx', data, t) \<Longrightarrow> rx_state rx \<noteq> AXIVC_RX_FAILED \<Longrightarrow> rx_state rx' \<noteq> AXIVC_RX_FAILED"
  by (auto simp: rx_slot_def apply_transition_def split: sum.splits prod.splits option.splits
      dest: transition_state)

lemma decode_error: "axivc_decode_frame s = Inl e \<Longrightarrow> e = EPROTO \<or> e = EPROTONOSUPPORT"
  by (auto simp: axivc_decode_frame_def axivc_validate_frame_shape_def Let_def split: if_splits)

lemma transition_error:
  "axivc_validate_transition rx f t0 = (Err e, t) \<Longrightarrow> rx_state rx \<noteq> AXIVC_RX_FAILED \<Longrightarrow> e = EPROTO"
  by (auto simp: axivc_validate_transition_def Let_def split: if_splits axivc_receiver_state.splits)

lemma rx_slot_error:
  "rx_slot rx s = Inl e \<Longrightarrow> rx_state rx \<noteq> AXIVC_RX_FAILED \<Longrightarrow> e = EPROTO \<or> e = EPROTONOSUPPORT"
  by (auto simp: rx_slot_def split: sum.splits prod.splits option.splits
      dest: decode_error transition_error)

text \<open>One iteration of the loop in terms of \<open>rx_slot\<close>.\<close>

lemma process_slots_empty:
  "axivc_ring_try_peek_slot ring = None \<Longrightarrow> process_slots rx ring out w c =
    (OK, rx, ring, out, \<lparr>rp_written = w, rp_consumed_slots = c, rp_complete = False\<rparr>)"
  by (subst process_slots.simps) simp

lemma process_slots_error:
  "axivc_ring_try_peek_slot ring = Some s \<Longrightarrow> rx_slot rx s = Inl e \<Longrightarrow> process_slots rx ring out w c =
    (if c > 0 then (OK, rx, ring, out, \<lparr>rp_written = w, rp_consumed_slots = c, rp_complete = False\<rparr>)
     else (Err e, axivc_message_receiver_poison rx e, ring, out, rp_zero))"
  by (subst process_slots.simps)
    (auto simp: rx_slot_def axivc_receiver_fail_def axivc_message_receiver_poison_def Let_def
      split: sum.splits prod.splits option.splits)

lemma process_slots_accept:
  assumes "axivc_ring_try_peek_slot ring = Some s" "slot_wf s" "rx_slot rx s = Inr (rx', data, t)"
  shows "process_slots rx ring out w c =
    (if tr_aborted t \<and> c > 0 \<or> length data > length out - w \<and> c > 0 then
       (OK, rx, ring, out, \<lparr>rp_written = w, rp_consumed_slots = c, rp_complete = False\<rparr>)
     else if length data > length out - w then (Err EMSGSIZE, rx, ring, out, rp_zero)
     else if tr_aborted t then
       (Err ECONNRESET, rx', axivc_ring_pop_slot ring, memcpy_at w data out, rp_zero)
     else if tr_complete t then (OK, rx', axivc_ring_pop_slot ring, memcpy_at w data out,
       \<lparr>rp_written = w + length data, rp_consumed_slots = c + 1, rp_complete = True\<rparr>)
     else process_slots rx' (axivc_ring_pop_slot ring) (memcpy_at w data out) (w + length data) (c + 1))"
proof -
  from assms(3) obtain f where f: "axivc_decode_frame s = Inr f"
      "axivc_validate_transition rx f blank_transition = (OK, t)"
      "apply_transition rx t = rx'" "take (f_fragment_len f) (f_fragment f) = data"
    by (auto simp: rx_slot_def split: sum.splits prod.splits option.splits)
  from decode_len(2)[OF assms(2) f(1)] have len: "f_fragment_len f = length data"
    unfolding f(4) by simp
  then have data: "take (length data) (f_fragment f) = data" using f(4) by simp
  show ?thesis
    by (subst process_slots.simps) (simp add: assms(1) f(1-3) len data Let_def)
qed

text \<open>
  The result of a read that returns 0: it consumed \<open>k\<close> slots, which the abstract reader
  accepts, and wrote their payload to the output buffer.
\<close>

definition read_ok ::
  "axivc_message_receiver \<Rightarrow> axivc_ring \<Rightarrow> bytes \<Rightarrow> nat \<Rightarrow> nat \<Rightarrow>
    axivc_message_receiver \<times> axivc_ring \<times> bytes \<times> axivc_receive_progress \<Rightarrow> bool" where
  "read_ok rx ring out w c res \<longleftrightarrow> (case res of (rx', ring', out', pr) \<Rightarrow>
    \<exists>k data. rp_consumed_slots pr = c + k \<and> k \<le> length (ring_contents ring) \<and>
      ring_wf ring' \<and> ring_contents ring' = drop k (ring_contents ring) \<and>
      w + length data \<le> length out \<and> out' = memcpy_at w data out \<and> rp_written pr = w + length data \<and>
      (\<forall>log cur. rx_feeds (rx, log, cur) (take k (ring_contents ring)) =
        Some (if rp_complete pr then (rx', log @ [Delivered (cur @ data)], []) else (rx', log, cur @ data))) \<and>
      (c = 0 \<and> k = 0 \<longrightarrow> ring_contents ring = []))"

lemma read_ok_stop:
  assumes "ring_wf ring" "w \<le> length out" "c > 0 \<or> ring_contents ring = []"
  shows "read_ok rx ring out w c (rx, ring, out,
    \<lparr>rp_written = w, rp_consumed_slots = c, rp_complete = False\<rparr>)"
  using assms unfolding read_ok_def
  by (auto intro!: exI[of _ 0] exI[of _ "[]"])

lemma read_ok_slot:
  assumes "ring_wf ring" "axivc_ring_try_peek_slot ring = Some s" "rx_slot rx s = Inr (rx1, data, t)"
    and "\<not> tr_aborted t" "w + length data \<le> length out"
    and rest: "if tr_complete t then
        res = (rx1, axivc_ring_pop_slot ring, memcpy_at w data out,
          \<lparr>rp_written = w + length data, rp_consumed_slots = c + 1, rp_complete = True\<rparr>)
      else read_ok rx1 (axivc_ring_pop_slot ring) (memcpy_at w data out) (w + length data) (c + 1) res"
  shows "read_ok rx ring out w c res"
proof -
  note front = rq.peek_SomeD[OF assms(1,2)]
  obtain rx' ring' out' pr where res: "res = (rx', ring', out', pr)" by (cases res)
  show ?thesis
  proof (cases "tr_complete t")
    case True
    with rest res assms(3,4,5) front show ?thesis
      unfolding read_ok_def by (auto intro!: exI[of _ 1] exI[of _ data])
  next
    case False
    with rest res obtain k d where
      "rp_consumed_slots pr = c + 1 + k" "k \<le> length (ring_contents (axivc_ring_pop_slot ring))"
      "ring_wf ring'" "ring_contents ring' = drop k (ring_contents (axivc_ring_pop_slot ring))"
      "w + length data + length d \<le> length out"
      "out' = memcpy_at (w + length data) d (memcpy_at w data out)"
      "rp_written pr = w + length data + length d"
      "\<forall>log cur. rx_feeds (rx1, log, cur) (take k (ring_contents (axivc_ring_pop_slot ring))) =
        Some (if rp_complete pr then (rx', log @ [Delivered (cur @ d)], []) else (rx', log, cur @ d))"
      using assms(5) unfolding read_ok_def by auto
    with False res assms(3,4) front show ?thesis
      unfolding read_ok_def by (auto simp: memcpy_at_append intro!: exI[of _ "Suc k"] exI[of _ "data @ d"])
  qed
qed

lemma process_slots_more:
  assumes "ring_wf ring" "rx_state rx \<noteq> AXIVC_RX_FAILED" "w \<le> length out" "c > 0"
  shows "\<exists>res. process_slots rx ring out w c = (OK, res) \<and> read_ok rx ring out w c res"
  using assms
proof (induction "ring_used ring" arbitrary: rx ring out w c rule: less_induct)
  case less
  note stop = read_ok_stop[OF less.prems(1,3), of c rx]
  show ?case
  proof (cases "axivc_ring_try_peek_slot ring")
    case None
    then show ?thesis using process_slots_empty stop less.prems(4) by auto
  next
    case (Some s)
    note front = rq.peek_SomeD[OF less.prems(1) Some]
    show ?thesis
    proof (cases "rx_slot rx s")
      case (Inl e)
      then show ?thesis using process_slots_error[OF Some] stop less.prems(4) by auto
    next
      case (Inr q)
      then obtain rx1 data t where q: "rx_slot rx s = Inr (rx1, data, t)" by (cases q) auto
      note unfold = process_slots_accept[OF Some front(3) q, of out w c]
      show ?thesis
      proof (cases "tr_aborted t \<or> length data > length out - w \<or> tr_complete t")
        case True
        then show ?thesis
          using unfold stop less.prems read_ok_slot[OF less.prems(1) Some q, of w out _ c] by auto
      next
        case False
        have "\<exists>res. process_slots rx1 (axivc_ring_pop_slot ring) (memcpy_at w data out)
            (w + length data) (c + 1) = (OK, res) \<and>
          read_ok rx1 (axivc_ring_pop_slot ring) (memcpy_at w data out) (w + length data) (c + 1) res"
          using False less.prems
          by (intro less.hyps peek_used[OF Some] front rx_slot_state[OF q]) auto
        then show ?thesis
          using unfold False less.prems read_ok_slot[OF less.prems(1) Some q, of w out _ c] by auto
      qed
    qed
  qed
qed

lemma try_read_cases:
  assumes "ring_wf ring"
  obtains (failed) "rx_state rx = AXIVC_RX_FAILED"
      "axivc_message_try_read rx ring out = (rx_failed_errno rx, rx, ring, out, rp_zero)"
  | (ok) res where "rx_state rx \<noteq> AXIVC_RX_FAILED"
      "axivc_message_try_read rx ring out = (OK, res)" "read_ok rx ring out 0 0 res"
  | (bad) s ss e where "rx_state rx \<noteq> AXIVC_RX_FAILED" "ring_contents ring = s # ss" "rx_slot rx s = Inl e"
      "axivc_message_try_read rx ring out = (Err e, axivc_message_receiver_poison rx e, ring, out, rp_zero)"
  | (reset) s rx' data t where "rx_state rx \<noteq> AXIVC_RX_FAILED"
      "ring_contents ring = s # ring_contents (axivc_ring_pop_slot ring)"
      "rx_slot rx s = Inr (rx', data, t)" "tr_aborted t" "ring_wf (axivc_ring_pop_slot ring)"
      "axivc_message_try_read rx ring out =
        (Err ECONNRESET, rx', axivc_ring_pop_slot ring, memcpy_at 0 data out, rp_zero)"
  | (small) s ss rx' data t where "rx_state rx \<noteq> AXIVC_RX_FAILED" "ring_contents ring = s # ss"
      "rx_slot rx s = Inr (rx', data, t)" "length data > length out"
      "axivc_message_try_read rx ring out = (Err EMSGSIZE, rx, ring, out, rp_zero)"
proof (cases "rx_state rx = AXIVC_RX_FAILED")
  case True
  then show ?thesis
    by (intro failed) (auto simp: axivc_message_try_read_def axivc_process_available_slots_def)
next
  case nf: False
  then have eq: "axivc_message_try_read rx ring out = process_slots rx ring out 0 0"
    by (simp add: axivc_message_try_read_def axivc_process_available_slots_def)
  show ?thesis
  proof (cases "axivc_ring_try_peek_slot ring")
    case None
    then show ?thesis
      using process_slots_empty[OF None] read_ok_stop[OF assms, of 0 out 0] assms nf
      by (intro ok) (auto simp: eq rq.peek_None_iff)
  next
    case (Some s)
    note front = rq.peek_SomeD[OF assms Some]
    show ?thesis
    proof (cases "rx_slot rx s")
      case (Inl e)
      then show ?thesis
        using process_slots_error[OF Some Inl] front by (intro bad[OF nf]) (auto simp: eq)
    next
      case (Inr q)
      then obtain rx1 data t where q: "rx_slot rx s = Inr (rx1, data, t)" by (cases q) auto
      note unfold = process_slots_accept[OF Some front(3) q, of out 0 0]
      have step: "\<not> tr_aborted t \<Longrightarrow> length data \<le> length out \<Longrightarrow>
          \<exists>res. axivc_message_try_read rx ring out = (OK, res) \<and> read_ok rx ring out 0 0 res"
        using unfold process_slots_more[OF front(2) rx_slot_state[OF q nf], of "length data"
            "memcpy_at 0 data out" 1] read_ok_slot[OF assms Some q, of 0 out _ 0]
        by (cases "tr_complete t") (auto simp: eq)
      consider "length data > length out" | "length data \<le> length out" "tr_aborted t"
        | "length data \<le> length out" "\<not> tr_aborted t" by linarith
      then show ?thesis
      proof cases
        case 1
        then show ?thesis using unfold front(1) by (intro small[OF nf _ q]) (auto simp: eq)
      next
        case 2
        then show ?thesis using unfold front by (intro reset[OF nf _ q]) (auto simp: eq)
      next
        case 3
        then show ?thesis using step ok[OF nf] by blast
      qed
    qed
  qed
qed

lemma try_read_consumes:
  assumes "ring_wf ring" "rx_state rx \<noteq> AXIVC_RX_FAILED" "ring_contents ring \<noteq> []"
    and "length out \<ge> AXIVC_FRAGMENT_CAPACITY"
  shows "case axivc_message_try_read rx ring out of (st, rx', ring', out', pr) \<Rightarrow>
    st \<noteq> Err EMSGSIZE \<and>
    (length (ring_contents ring') < length (ring_contents ring) \<or> rx_state rx' = AXIVC_RX_FAILED)"
proof (cases rule: try_read_cases[OF assms(1), of rx out, case_names failed ok bad reset small])
  case (ok res)
  then show ?thesis using assms(3) by (cases res) (auto simp: read_ok_def simp flip: length_ring_contents)
next
  case (bad s ss e)
  then show ?thesis using rx_slot_error[of rx s e] by (auto simp: axivc_message_receiver_poison_def)
next
  case (reset s rx' data t)
  then show ?thesis by (simp flip: length_ring_contents)
next
  case (small s ss rx' data t)
  have "slot_wf s" using small(2) assms(1) by (metis list.set_intros(1) rq.elems_ok)
  with small(3) have "length data \<le> AXIVC_FRAGMENT_CAPACITY"
    by (auto simp: rx_slot_def min.coboundedI2 min.coboundedI1 dest: decode_len(1)
        split: sum.splits prod.splits option.splits)
  with small(4) assms(4) show ?thesis by simp
qed (use assms(2) in simp)

section \<open>Receiver safety against any slot stream\<close>

text \<open>What the receiver state says about the bytes of the current message.\<close>

fun rx_ok :: "rx_view \<Rightarrow> bool" where
  "rx_ok (rx, log, cur) \<longleftrightarrow>
    (case rx_state rx of
      AXIVC_RX_IDLE \<Rightarrow> cur = []
    | AXIVC_RX_RECEIVING \<Rightarrow> unat (rx_received rx) = length cur \<and> rx_received rx \<le> m_len (rx_active rx)
    | AXIVC_RX_FAILED \<Rightarrow> False)"

lemma received_add:
  fixes r n :: u64
  assumes "\<not> r > NOT 0 - n"
  shows "unat (r + n) = unat r + unat n"
proof -
  have "unat (NOT 0 - n :: u64) = unat (- 1 :: u64) - unat n"
    by (simp add: unat_sub_no_wrap)
  moreover have "unat (- 1 :: u64) = 2 ^ 64 - 1" by (simp add: unsigned_minus_1_eq_mask mask_eq_exp_minus_1)
  ultimately have "unat r + unat n < 2 ^ 64"
    using assms unat_u64_less[of n] by (simp add: word_less_nat_alt)
  then show ?thesis by (simp add: unat_add_no_wrap)
qed

text \<open>Exactly when a slot is accepted and what it does to the current message.\<close>

lemma rx_slot_accept:
  assumes "slot_wf s" "rx_ok (rx, log, cur)" "rx_slot rx s = Inr (rx', data, t)"
  obtains f where "axivc_decode_frame s = Inr f" "data = take (f_fragment_len f) (f_fragment f)"
    "length data = f_fragment_len f"
    "m_id (rx_active rx') = f_message_id f" "m_len (rx_active rx') = f_message_len f"
    "tr_aborted t = f_abort f" "tr_complete t = (\<not> f_abort f \<and> f_last f)"
    "f_abort f \<or> unat (rx_received rx') = length (cur @ data) \<and> rx_received rx' \<le> f_message_len f"
    "tr_complete t \<longrightarrow> rx_received rx' = f_message_len f"
    "rx_state rx' = (if f_abort f \<or> f_last f then AXIVC_RX_IDLE else AXIVC_RX_RECEIVING)"
    "rx_state rx = AXIVC_RX_IDLE \<longleftrightarrow> f_first f"
    "f_first f \<or> rx_active rx' = rx_active rx"
proof -
  from assms(3) obtain f where f: "axivc_decode_frame s = Inr f"
      "axivc_validate_transition rx f blank_transition = (OK, t)"
      "rx' = apply_transition rx t" "data = take (f_fragment_len f) (f_fragment f)"
    by (auto simp: rx_slot_def split: sum.splits prod.splits option.splits)
  note len = decode_len[OF assms(1) f(1)]
  have n: "unat (of_nat (f_fragment_len f) :: u64) = f_fragment_len f"
    using len(1) by (intro unat_of_nat_u64) (simp add: wire_consts)
  have nf: "rx_state rx \<noteq> AXIVC_RX_FAILED" using assms(2) by auto
  show ?thesis
    using f(2) assms(2) nf len n received_add[where r = "rx_received rx" and n = "of_nat (f_fragment_len f)"]
    by (intro that[OF f(1,4)])
      (auto simp: f(3,4) apply_transition_def axivc_validate_transition_def Let_def not_less
        split: if_splits axivc_receiver_state.splits)
qed


text \<open>
  The slots of one message as the receiver accepts them: every slot decodes, all carry the
  same identifier and length, FIRST is on the first slot only, LAST or ABORT only on the last.
\<close>

definition payload :: "axivc_decoded_frame list \<Rightarrow> bytes" where
  "payload fs = concat (map (\<lambda>f. take (f_fragment_len f) (f_fragment f)) fs)"

definition message_run :: "axivc_message_meta \<Rightarrow> slot list \<Rightarrow> axivc_decoded_frame list \<Rightarrow> bool" where
  "message_run meta g fs \<longleftrightarrow> map axivc_decode_frame g = map Inr fs \<and> fs \<noteq> [] \<and>
    (\<forall>f\<in>set fs. f_message_id f = m_id meta \<and> f_message_len f = m_len meta) \<and>
    f_first (hd fs) \<and> (\<forall>f\<in>set (tl fs). \<not> f_first f) \<and>
    (\<forall>f\<in>set (butlast fs). \<not> f_last f \<and> \<not> f_abort f)"

definition justifies :: "slot list \<Rightarrow> delivery \<Rightarrow> bool" where
  "justifies g d \<longleftrightarrow> (\<exists>meta fs. message_run meta g fs \<and>
    (case d of
      Delivered m \<Rightarrow> f_last (last fs) \<and> \<not> f_abort (last fs) \<and> m = payload fs \<and>
        length m = unat (m_len meta)
    | Reset \<Rightarrow> f_abort (last fs)))"

text \<open>The slots read so far: whole messages, each justifying its log entry, then an open one.\<close>

definition justified_view :: "slot list \<Rightarrow> rx_view \<Rightarrow> bool" where
  "justified_view ss v \<longleftrightarrow> rx_ok v \<and> (case v of (rx, log, cur) \<Rightarrow>
    \<exists>groups open_slots. ss = concat groups @ open_slots \<and> list_all2 justifies groups log \<and>
      (if rx_state rx = AXIVC_RX_RECEIVING then
         \<exists>fs. message_run (rx_active rx) open_slots fs \<and> \<not> f_last (last fs) \<and> \<not> f_abort (last fs) \<and>
           cur = payload fs
       else open_slots = []))"

lemma rx_slot_aborted_data:
  assumes "slot_wf s" "rx_slot rx s = Inr (rx', data, t)" "tr_aborted t" "rx_state rx \<noteq> AXIVC_RX_FAILED"
  shows "data = []"
proof -
  from assms(2) obtain f where f: "axivc_decode_frame s = Inr f"
      "axivc_validate_transition rx f blank_transition = (OK, t)" "data = take (f_fragment_len f) (f_fragment f)"
    by (auto simp: rx_slot_def split: sum.splits prod.splits option.splits)
  have "f_abort f" using transition_state[OF f(2) assms(4)] assms(3) by simp
  moreover have "frame_ok f" using decode_frame_inv[OF assms(1) f(1)] by simp
  ultimately show ?thesis
    by (simp add: f(3) frame_ok_def axivc_validate_frame_shape_def split: if_splits)
qed

lemma message_run_single:
  "axivc_decode_frame s = Inr f \<Longrightarrow> f_first f \<Longrightarrow> m_id meta = f_message_id f \<Longrightarrow> m_len meta = f_message_len f \<Longrightarrow>
    message_run meta [s] [f]"
  by (simp add: message_run_def)

lemma message_run_snoc:
  assumes "message_run meta g fs" "\<not> f_last (last fs)" "\<not> f_abort (last fs)"
    and "axivc_decode_frame s = Inr f" "\<not> f_first f" "f_message_id f = m_id meta" "f_message_len f = m_len meta"
  shows "message_run meta (g @ [s]) (fs @ [f])"
proof -
  from assms(1) have "fs \<noteq> []" by (simp add: message_run_def)
  then have "set fs = insert (last fs) (set (butlast fs))"
    by (metis append_butlast_last_id list.simps(15) rotate1.simps(2) set_rotate1)
  then show ?thesis using assms by (auto simp: message_run_def)
qed

lemma rx_feed_justified:
  assumes "slot_wf s" "justified_view ss (rx, log, cur)" "rx_feed (rx, log, cur) s = Some v"
  shows "justified_view (ss @ [s]) v"
proof -
  from assms(2) have ok: "rx_ok (rx, log, cur)" by (simp add: justified_view_def)
  from assms(3) obtain rx' data t where acc: "rx_slot rx s = Inr (rx', data, t)"
    and v: "v = (if tr_aborted t then (rx', log @ [Reset], [])
         else if tr_complete t then (rx', log @ [Delivered (cur @ data)], [])
         else (rx', log, cur @ data))"
    by (auto split: sum.splits)
  obtain f where f: "axivc_decode_frame s = Inr f" "data = take (f_fragment_len f) (f_fragment f)"
    "length data = f_fragment_len f"
    "m_id (rx_active rx') = f_message_id f" "m_len (rx_active rx') = f_message_len f"
    "tr_aborted t = f_abort f" "tr_complete t = (\<not> f_abort f \<and> f_last f)"
    "f_abort f \<or> unat (rx_received rx') = length (cur @ data) \<and> rx_received rx' \<le> f_message_len f"
    "tr_complete t \<longrightarrow> rx_received rx' = f_message_len f"
    "rx_state rx' = (if f_abort f \<or> f_last f then AXIVC_RX_IDLE else AXIVC_RX_RECEIVING)"
    "rx_state rx = AXIVC_RX_IDLE \<longleftrightarrow> f_first f"
    "f_first f \<or> rx_active rx' = rx_active rx"
    using rx_slot_accept[OF assms(1) ok acc] by metis
  from assms(2) obtain groups os where gr: "ss = concat groups @ os" "list_all2 justifies groups log"
    and op: "if rx_state rx = AXIVC_RX_RECEIVING then \<exists>fs. message_run (rx_active rx) os fs \<and>
        \<not> f_last (last fs) \<and> \<not> f_abort (last fs) \<and> cur = payload fs else os = []"
    by (auto simp: justified_view_def)
  have "\<exists>fs. message_run (rx_active rx') (os @ [s]) fs \<and> last fs = f \<and> payload fs = cur @ data"
  proof (cases "f_first f")
    case True
    with f(11) ok op have "os = []" "cur = []" by auto
    with True f(1,2,4,5) show ?thesis
      by (intro exI[of _ "[f]"]) (auto simp: message_run_single payload_def)
  next
    case False
    with f(11) ok have "rx_state rx = AXIVC_RX_RECEIVING" by (auto split: axivc_receiver_state.splits)
    with op obtain fs where fs: "message_run (rx_active rx) os fs" "\<not> f_last (last fs)"
        "\<not> f_abort (last fs)" "cur = payload fs" by auto
    show ?thesis
      using message_run_snoc[OF fs(1-3) f(1) False] f(2,4,5,12) False fs(4)
      by (intro exI[of _ "fs @ [f]"]) (simp add: payload_def)
  qed
  then obtain fs where fs: "message_run (rx_active rx') (os @ [s]) fs" "last fs = f" "payload fs = cur @ data"
    by auto
  show ?thesis
  proof (cases "f_abort f \<or> f_last f")
    case True
    define d where "d = (if f_abort f then Reset else Delivered (cur @ data))"
    have "justifies (os @ [s]) d"
      unfolding justifies_def using fs f True
      by (intro exI[of _ "rx_active rx'"] exI[of _ fs]) (auto simp: d_def)
    then show ?thesis
      unfolding justified_view_def using True f gr v
      by (auto simp: d_def list_all2_appendI intro!: exI[of _ "groups @ [os @ [s]]"] split: if_splits)
  next
    case False
    then show ?thesis
      unfolding justified_view_def using fs f gr v
      by (auto intro!: exI[of _ groups] exI[of _ fs])
  qed
qed

lemma rx_feeds_justified:
  "list_all slot_wf ss \<Longrightarrow> justified_view pre v \<Longrightarrow> rx_feeds v ss = Some v' \<Longrightarrow> justified_view (pre @ ss) v'"
proof (induction ss arbitrary: pre v)
  case (Cons s ss)
  obtain rx log cur where v: "v = (rx, log, cur)" by (cases v)
  from Cons.prems(3) obtain v1 where "rx_feed v s = Some v1" "rx_feeds v1 ss = Some v'"
    by (auto simp: v split: option.splits)
  then have "justified_view ((pre @ [s]) @ ss) v'"
    using Cons.prems(1,2) v by (intro Cons.IH[OF _ rx_feed_justified]) auto
  then show ?case by simp
qed simp

section \<open>Properties\<close>

text \<open>
  C9. \<open>axivc_message_try_read\<close> refines the abstract reader on every ring and every slot
  content. A call that returns 0 consumed a prefix of the ring, wrote exactly the payload of
  those slots to the front of the buffer and nothing behind it, stopped at the end of the
  first message it completed, and consumed nothing only when the ring is empty. ECONNRESET
  consumes the one abort slot. EMSGSIZE consumes nothing and happens exactly when the first
  fragment does not fit. Any other error is a slot the reader rejects; it stays in the ring
  and the receiver is poisoned with that error.
\<close>

theorem try_read_refines_reader:
  assumes "ring_wf ring" "rx_state rx \<noteq> AXIVC_RX_FAILED"
    and "axivc_message_try_read rx ring out = (st, rx', ring', out', pr)"
  shows "\<exists>k\<le>length (ring_contents ring). ring_wf ring' \<and> length out' = length out \<and>
    ring_contents ring' = drop k (ring_contents ring) \<and>
    (case st of
      None \<Rightarrow> k = rp_consumed_slots pr \<and> (k = 0 \<longrightarrow> ring_contents ring = []) \<and>
        rp_written pr \<le> length out \<and> drop (rp_written pr) out' = drop (rp_written pr) out \<and>
        rx_feeds (rx, log, cur) (take k (ring_contents ring)) = Some
          (if rp_complete pr then (rx', log @ [Delivered (cur @ take (rp_written pr) out')], [])
           else (rx', log, cur @ take (rp_written pr) out'))
    | Some e \<Rightarrow> pr = rp_zero \<and> ring_contents ring \<noteq> [] \<and>
        (if e = ECONNRESET then k = 1 \<and>
           rx_feed (rx, log, cur) (hd (ring_contents ring)) = Some (rx', log @ [Reset], [])
         else if e = EMSGSIZE then k = 0 \<and> rx' = rx \<and> out' = out \<and>
           (\<exists>x data t. rx_slot rx (hd (ring_contents ring)) = Inr (x, data, t) \<and> length data > length out)
         else k = 0 \<and> out' = out \<and> rx_slot rx (hd (ring_contents ring)) = Inl e \<and>
           rx' = axivc_message_receiver_poison rx e))"
proof (cases rule: try_read_cases[OF assms(1), of rx out, case_names failed ok bad reset small])
  case failed
  then show ?thesis using assms(2) by simp
next
  case (ok res)
  then obtain k data where "rp_consumed_slots pr = k" "k \<le> length (ring_contents ring)" "ring_wf ring'"
    "ring_contents ring' = drop k (ring_contents ring)" "length data \<le> length out"
    "out' = memcpy_at 0 data out" "rp_written pr = length data" "st = OK"
    "\<forall>log cur. rx_feeds (rx, log, cur) (take k (ring_contents ring)) =
        Some (if rp_complete pr then (rx', log @ [Delivered (cur @ data)], []) else (rx', log, cur @ data))"
    "k = 0 \<longrightarrow> ring_contents ring = []"
    using assms(3) by (auto simp: read_ok_def)
  then show ?thesis by (intro exI[of _ k]) (simp add: memcpy_at_def)
next
  case (bad s ss e)
  then have "e = EPROTO \<or> e = EPROTONOSUPPORT" using rx_slot_error by blast
  with bad assms show ?thesis by (intro exI[of _ 0]) auto
next
  case (reset s rx1 data t)
  have "slot_wf s" using reset(2) assms(1) by (metis list.set_intros(1) rq.elems_ok)
  then have "data = []" using reset(3,4) assms(2) by (rule rx_slot_aborted_data)
  then show ?thesis using reset assms by (intro exI[of _ 1]) (auto simp flip: length_ring_contents)
next
  case (small s ss rx1 data t)
  then show ?thesis using assms by (intro exI[of _ 0]) auto
qed

text \<open>A message of 7 bytes in one frame, read into a buffer of 10 bytes.\<close>

definition one_frame_ring :: axivc_ring where
  "one_frame_ring = snd (axivc_ring_try_push_slot empty_ring (frame_slot 5 7 True True False (replicate 7 9)))"

lemma one_frame_ring:
  "ring_wf one_frame_ring" "ring_contents one_frame_ring = [frame_slot 5 7 True True False (replicate 7 9)]"
proof -
  have "ring_wf empty_ring" "ring_contents empty_ring = []"
    by (simp_all add: empty_ring_def ring_initialize_wf ring_initialize_empty)
  moreover have "slot_wf (frame_slot 5 7 True True False (replicate 7 9))"
    by (simp add: frame_slot_wf wire_consts)
  ultimately show "ring_wf one_frame_ring"
      "ring_contents one_frame_ring = [frame_slot 5 7 True True False (replicate 7 9)]"
    by (simp_all add: one_frame_ring_def rq.push_invar rq.push_appends ring_consts flip: length_ring_contents)
qed

lemma decode_frame_slot:
  assumes "i \<noteq> 0" "length fr \<le> AXIVC_FRAGMENT_CAPACITY"
    and "axivc_validate_frame_shape l (length fr) fi la ab = OK"
  shows "axivc_decode_frame (frame_slot i l fi la ab fr) = Inr \<lparr>f_message_id = i, f_message_len = l,
    f_fragment = fr @ replicate (AXIVC_FRAGMENT_CAPACITY - length fr) 0, f_fragment_len = length fr,
    f_first = fi, f_last = la, f_abort = ab\<rparr>"
  using assms by (intro decode_frame_eq) (simp_all add: frame_slot_def)

lemma one_frame_decode:
  "axivc_decode_frame (frame_slot 5 7 True True False (replicate 7 9)) =
    Inr \<lparr>f_message_id = 5, f_message_len = 7, f_fragment = replicate 7 9 @ replicate 225 0, f_fragment_len = 7,
      f_first = True, f_last = True, f_abort = False\<rparr>"
  by (subst decode_frame_slot) (simp_all add: wire_consts axivc_validate_frame_shape_def)

lemma one_frame_read:
  "axivc_message_try_read axivc_message_receiver_init one_frame_ring (replicate 10 0) =
    (OK, \<lparr>rx_state = AXIVC_RX_IDLE, rx_active = \<lparr>m_id = 5, m_len = 7\<rparr>, rx_received = 7, rx_failed_errno = OK\<rparr>,
      axivc_ring_pop_slot one_frame_ring, replicate 7 9 @ replicate 3 0,
      \<lparr>rp_written = 7, rp_consumed_slots = 1, rp_complete = True\<rparr>)"
proof -
  have "axivc_ring_try_peek_slot one_frame_ring = Some (frame_slot 5 7 True True False (replicate 7 9))"
    by (simp add: peek_contents ring_wf_layout one_frame_ring)
  then show ?thesis
    by (simp add: one_frame_decode axivc_message_try_read_def axivc_process_available_slots_def process_slots.simps
        axivc_message_receiver_init_def axivc_validate_transition_def apply_transition_def memcpy_at_def)
qed

theorem try_read_refines_reader_witness:
  "ring_wf one_frame_ring \<and> fst (axivc_message_try_read axivc_message_receiver_init one_frame_ring (replicate 10 0)) = OK \<and>
    rx_feeds (axivc_message_receiver_init, [], []) (ring_contents one_frame_ring) =
      Some (\<lparr>rx_state = AXIVC_RX_IDLE, rx_active = \<lparr>m_id = 5, m_len = 7\<rparr>, rx_received = 7, rx_failed_errno = OK\<rparr>,
        [Delivered (replicate 7 9)], [])"
proof -
  have "rx_state axivc_message_receiver_init \<noteq> AXIVC_RX_FAILED" by (simp add: axivc_message_receiver_init_def)
  from try_read_refines_reader[OF one_frame_ring(1) this one_frame_read, of "[]" "[]"]
  show ?thesis using one_frame_ring one_frame_read by auto
qed

text \<open>
  C34. A poisoned receiver stays poisoned. When \<open>axivc_message_try_read\<close> or
  \<open>axivc_message_peek_meta\<close> has returned a protocol error, every later call of either
  function returns the same error, whatever the peer has done to the ring since, and
  touches neither the ring nor the buffer.
\<close>

theorem receiver_poison_sticky:
  assumes "ring_wf ring" "e \<noteq> ECONNRESET" "e \<noteq> EMSGSIZE"
    and "fst (axivc_message_try_read rx ring out) = Err e \<and> rx' = fst (snd (axivc_message_try_read rx ring out)) \<or>
      fst (axivc_message_peek_meta rx ring meta) = Err e \<and> rx' = fst (snd (axivc_message_peek_meta rx ring meta))"
  shows "axivc_message_try_read rx' ring2 out2 = (Err e, rx', ring2, out2, rp_zero) \<and>
    axivc_message_peek_meta rx' ring2 meta2 = (Err e, rx', meta2, False)"
proof -
  have "rx_state rx' = AXIVC_RX_FAILED \<and> rx_failed_errno rx' = Err e"
    using assms(4)
  proof
    assume r: "fst (axivc_message_try_read rx ring out) = Err e \<and> rx' = fst (snd (axivc_message_try_read rx ring out))"
    then show ?thesis
      using assms(2,3)
      by (cases rule: try_read_cases[OF assms(1), of rx out, case_names failed ok bad reset small])
        (auto simp: axivc_message_receiver_poison_def)
  next
    assume "fst (axivc_message_peek_meta rx ring meta) = Err e \<and> rx' = fst (snd (axivc_message_peek_meta rx ring meta))"
    then show ?thesis
      by (auto simp: axivc_message_peek_meta_def axivc_receiver_fail_def
          split: axivc_receiver_state.splits option.splits sum.splits if_splits)
  qed
  then show ?thesis
    by (simp add: axivc_message_try_read_def axivc_process_available_slots_def axivc_message_peek_meta_def)
qed

text \<open>A zeroed slot is not a frame: the receiver is poisoned with EPROTONOSUPPORT.\<close>

theorem receiver_poison_sticky_witness:
  "ring_wf wrap_ring \<and> fst (axivc_message_peek_meta axivc_message_receiver_init wrap_ring \<lparr>m_id = 0, m_len = 0\<rparr>) =
      Err EPROTONOSUPPORT \<and>
    axivc_message_try_read (fst (snd (axivc_message_peek_meta axivc_message_receiver_init wrap_ring \<lparr>m_id = 0, m_len = 0\<rparr>)))
      one_frame_ring [1, 2] = (Err EPROTONOSUPPORT,
      axivc_message_receiver_poison axivc_message_receiver_init EPROTONOSUPPORT, one_frame_ring, [1, 2], rp_zero)"
proof -
  have "axivc_ring_try_peek_slot wrap_ring = Some (replicate 256 0)"
    by (simp add: axivc_ring_try_peek_slot_def wrap_ring_def Let_def slot_index_eq load_slot_def)
  moreover have "axivc_decode_frame (replicate 256 0) = Inl EPROTONOSUPPORT"
    by (simp add: axivc_decode_frame_def Let_def offset_consts wire_consts)
  ultimately have pm: "axivc_message_peek_meta axivc_message_receiver_init wrap_ring \<lparr>m_id = 0, m_len = 0\<rparr> =
      (Err EPROTONOSUPPORT, axivc_message_receiver_poison axivc_message_receiver_init EPROTONOSUPPORT,
        \<lparr>m_id = 0, m_len = 0\<rparr>, False)"
    by (simp add: axivc_message_peek_meta_def axivc_receiver_fail_def axivc_message_receiver_init_def
        axivc_message_receiver_poison_def)
  have "axivc_message_try_read (axivc_message_receiver_poison axivc_message_receiver_init EPROTONOSUPPORT)
      one_frame_ring [1, 2] = (Err EPROTONOSUPPORT,
      axivc_message_receiver_poison axivc_message_receiver_init EPROTONOSUPPORT, one_frame_ring, [1, 2], rp_zero)"
    using receiver_poison_sticky[OF wrap_ring_wf, of EPROTONOSUPPORT axivc_message_receiver_init "[]"
        "axivc_message_receiver_poison axivc_message_receiver_init EPROTONOSUPPORT" "\<lparr>m_id = 0, m_len = 0\<rparr>"] pm
    by simp
  then show ?thesis using wrap_ring_wf pm by simp
qed

text \<open>
  A buffer of one fragment capacity (232 bytes) is always enough: on a non-empty ring a
  read into such a buffer never fails with EMSGSIZE, and either consumes at least one slot
  or poisons the receiver. A caller that keeps reading is never stuck on a slot.
\<close>

theorem read_progress:
  assumes "ring_wf ring" "rx_state rx \<noteq> AXIVC_RX_FAILED" "ring_contents ring \<noteq> []"
    and "length out \<ge> AXIVC_FRAGMENT_CAPACITY"
  shows "case axivc_message_try_read rx ring out of (st, rx', ring', out', pr) \<Rightarrow>
    st \<noteq> Err EMSGSIZE \<and>
    (length (ring_contents ring') < length (ring_contents ring) \<or> rx_state rx' = AXIVC_RX_FAILED)"
  using assms by (rule try_read_consumes)

theorem read_progress_witness:
  "ring_wf one_frame_ring \<and> ring_contents one_frame_ring \<noteq> [] \<and>
    fst (axivc_message_try_read axivc_message_receiver_init one_frame_ring (replicate 232 0)) \<noteq> Err EMSGSIZE"
proof -
  have "rx_state axivc_message_receiver_init \<noteq> AXIVC_RX_FAILED" by (simp add: axivc_message_receiver_init_def)
  from read_progress[OF one_frame_ring(1) this, of "replicate 232 0"] one_frame_ring show ?thesis
    by (simp add: wire_consts split_beta)
qed

text \<open>
  C13. Nothing is ever delivered that the slots do not justify, whatever bytes an untrusted
  peer puts into them. The accepted slot stream splits into consecutive runs, one per log
  entry, and an unfinished rest. A delivered message is the concatenation of the fragments
  of its run, all of whose frames carry one identifier and one length, with FIRST exactly on
  the first and LAST on the last, and it has exactly the announced number of bytes. A reset
  is a run that ends in ABORT.
\<close>

theorem deliveries_justified:
  assumes "list_all slot_wf ss" "rx_feeds (axivc_message_receiver_init, [], []) ss = Some (rx, log, cur)"
  shows "\<exists>groups rest. ss = concat groups @ rest \<and> list_all2 justifies groups log \<and>
    (rx_state rx = AXIVC_RX_IDLE \<longrightarrow> rest = [] \<and> cur = [])"
proof -
  have "justified_view [] (axivc_message_receiver_init, [], [])"
    by (simp add: justified_view_def axivc_message_receiver_init_def)
  from rx_feeds_justified[OF assms(1) this assms(2)] have j: "justified_view ss (rx, log, cur)" by simp
  then obtain groups rest where "ss = concat groups @ rest" "list_all2 justifies groups log"
      "rx_state rx = AXIVC_RX_IDLE \<longrightarrow> rest = []"
    unfolding justified_view_def by (auto split: if_splits)
  moreover have "rx_state rx = AXIVC_RX_IDLE \<longrightarrow> cur = []" using j by (auto simp: justified_view_def)
  ultimately show ?thesis by blast
qed

theorem deliveries_justified_witness:
  "list_all slot_wf (ring_contents one_frame_ring) \<and>
    (\<exists>groups. ring_contents one_frame_ring = concat groups \<and> list_all2 justifies groups [Delivered (replicate 7 9)])"
proof -
  let ?rx = "\<lparr>rx_state = AXIVC_RX_IDLE, rx_active = \<lparr>m_id = 5, m_len = 7\<rparr>, rx_received = 7, rx_failed_errno = OK\<rparr>"
  have wf: "list_all slot_wf (ring_contents one_frame_ring)"
    using rq.elems_ok[OF one_frame_ring(1)] by (auto simp: list_all_iff)
  have "rx_feeds (axivc_message_receiver_init, [], []) (ring_contents one_frame_ring) =
      Some (?rx, [Delivered (replicate 7 9)], [])"
    by (simp add: one_frame_ring rx_slot_def one_frame_decode axivc_message_receiver_init_def
        axivc_validate_transition_def apply_transition_def)
  from deliveries_justified[OF wf this] wf show ?thesis by auto
qed

end
