(* ===== verification/Axivc_Channel.thy ===== *)
theory Axivc_Channel
  imports Axivc_Receiver "HOL-Library.Sublist"
begin

text \<open>
  One direction of a channel end to end: the sender of \<^verbatim>\<open>ivc/message.c\<close>, the ring and the
  receiver composed as the driver composes them. The step relation \<open>channel_step\<close> lets the
  two sides call their operations in any order and with any arguments; the log of what the
  receiver delivered is related to the log of what the sender completed or aborted.
\<close>

section \<open>The composed system\<close>

text \<open>
  The two logs and the bytes of the current message on either side are recorded for the
  statements; no operation reads them.
\<close>

record channel =
  ch_tx :: axivc_message_sender
  ch_ring :: axivc_ring
  ch_rx :: axivc_message_receiver
  ch_sent :: "delivery list"
  ch_in :: bytes
  ch_log :: "delivery list"
  ch_out :: bytes

definition channel_init :: "axivc_ring \<Rightarrow> channel" where
  "channel_init ring = \<lparr>ch_tx = axivc_message_sender_init, ch_ring = ring,
    ch_rx = axivc_message_receiver_init, ch_sent = [], ch_in = [], ch_log = [], ch_out = []\<rparr>"

definition channel_start :: "u64 \<Rightarrow> channel \<Rightarrow> channel" where
  "channel_start l c = c\<lparr>ch_tx := snd (axivc_message_start (ch_tx c) l)\<rparr>"

definition channel_write :: "bytes \<Rightarrow> channel \<Rightarrow> channel" where
  "channel_write input c =
    (case axivc_message_try_write (ch_tx c) (ch_ring c) input of (st, tx, ring, pr) \<Rightarrow>
      let bs = ch_in c @ take (sp_consumed pr) input in
      c\<lparr>ch_tx := tx, ch_ring := ring,
        ch_sent := (if sp_complete pr then ch_sent c @ [Delivered bs] else ch_sent c),
        ch_in := (if sp_complete pr then [] else bs)\<rparr>)"

definition channel_abort :: "channel \<Rightarrow> channel" where
  "channel_abort c =
    (case axivc_message_try_abort (ch_tx c) (ch_ring c) of (st, tx, ring) \<Rightarrow>
      c\<lparr>ch_tx := tx, ch_ring := ring,
        ch_sent := (if st = OK \<and> tx_published_any (ch_tx c) then ch_sent c @ [Reset] else ch_sent c),
        ch_in := (if st = OK then [] else ch_in c)\<rparr>)"

definition channel_read :: "bytes \<Rightarrow> channel \<Rightarrow> channel" where
  "channel_read buf c =
    (case axivc_message_try_read (ch_rx c) (ch_ring c) buf of (st, rx, ring, buf', pr) \<Rightarrow>
      let bs = ch_out c @ take (rp_written pr) buf' in
      c\<lparr>ch_rx := rx, ch_ring := ring,
        ch_log := (if st = Err ECONNRESET then ch_log c @ [Reset]
                   else if rp_complete pr then ch_log c @ [Delivered bs] else ch_log c),
        ch_out := (if st = Err ECONNRESET \<or> rp_complete pr then [] else bs)\<rparr>)"

definition channel_peek :: "channel \<Rightarrow> channel" where
  "channel_peek c = c\<lparr>ch_rx := fst (snd (axivc_message_peek_meta (ch_rx c) (ch_ring c) \<lparr>m_id = 0, m_len = 0\<rparr>))\<rparr>"

inductive channel_step :: "channel \<Rightarrow> channel \<Rightarrow> bool" where
  step_start: "channel_step c (channel_start l c)"
| step_write: "channel_step c (channel_write input c)"
| step_abort: "channel_step c (channel_abort c)"
| step_read: "channel_step c (channel_read buf c)"
| step_peek: "channel_step c (channel_peek c)"

inductive channel_reach :: "axivc_ring \<Rightarrow> channel \<Rightarrow> bool" for ring where
  reach_init: "channel_reach ring (channel_init ring)"
| reach_step: "channel_reach ring c \<Longrightarrow> channel_step c c' \<Longrightarrow> channel_reach ring c'"

section \<open>Reading the frames of a sender\<close>

text \<open>The receiver is ready for the frame at a byte offset of a message.\<close>

definition rx_at :: "u64 \<Rightarrow> u64 \<Rightarrow> nat \<Rightarrow> axivc_message_receiver \<Rightarrow> bool" where
  "rx_at i l off rx \<longleftrightarrow> (if off = 0 then rx_state rx = AXIVC_RX_IDLE
    else rx_state rx = AXIVC_RX_RECEIVING \<and> rx_active rx = \<lparr>m_id = i, m_len = l\<rparr> \<and> unat (rx_received rx) = off)"

definition rx_after :: "u64 \<Rightarrow> u64 \<Rightarrow> nat \<Rightarrow> axivc_message_receiver \<Rightarrow> axivc_message_receiver" where
  "rx_after i l off rx = rx\<lparr>rx_state := (if off = unat l then AXIVC_RX_IDLE else AXIVC_RX_RECEIVING),
    rx_active := \<lparr>m_id = i, m_len = l\<rparr>, rx_received := of_nat off\<rparr>"

lemma rx_feed_frame:
  assumes "i \<noteq> 0" "length fr \<le> AXIVC_FRAGMENT_CAPACITY" "fr \<noteq> [] \<or> l = 0 \<and> off = 0"
    and "off + length fr \<le> unat l" "rx_at i l off rx"
  shows "rx_feed (rx, log, cur) (frame_slot i l (off = 0) (off + length fr = unat l) False fr) =
    Some (if off + length fr = unat l then (rx_after i l (off + length fr) rx, log @ [Delivered (cur @ fr)], [])
      else (rx_after i l (off + length fr) rx, log, cur @ fr))"
proof -
  let ?fin = "off + length fr = unat l"
  have shape: "axivc_validate_frame_shape l (length fr) (off = 0) ?fin False = OK"
    using assms(3,4) by (auto simp: axivc_validate_frame_shape_def)
  have bnd: "off + length fr < 2 ^ 64" using assms(4) unat_u64_less[of l] by linarith
  define r :: u64 where "r = (if off = 0 then 0 else rx_received rx)"
  have r: "unat r = off" using assms(5) by (simp add: r_def rx_at_def)
  have n: "unat (of_nat (length fr) :: u64) = length fr" using bnd by (intro unat_of_nat_u64) linarith
  have sum: "r + of_nat (length fr) = of_nat (off + length fr)"
    using r by (metis of_nat_add of_nat_unat ucast_id)
  have nowrap: "\<not> r > NOT 0 - of_nat (length fr)"
  proof -
    have "unat (NOT 0 - of_nat (length fr) :: u64) = 2 ^ 64 - 1 - length fr"
      using n by (simp add: unat_sub_no_wrap unsigned_minus_1_eq_mask mask_eq_exp_minus_1)
    then show ?thesis using r bnd by (simp add: word_less_nat_alt)
  qed
  have le: "(of_nat (off + length fr) :: u64) \<le> l" "(of_nat (off + length fr) :: u64) = l \<longleftrightarrow> ?fin"
    using assms(4) bnd unat_of_nat_u64[of "off + length fr"]
    by (auto simp: word_le_nat_alt word_unat_eq_iff)
  show ?thesis
    using assms(5) nowrap le sum
    by (auto simp: rx_slot_def decode_frame_slot[OF assms(1,2) shape] axivc_validate_transition_def
        apply_transition_def rx_at_def rx_after_def r_def Let_def not_less split: if_splits)
qed

lemma rx_after_at: "off \<noteq> 0 \<Longrightarrow> off < unat l \<Longrightarrow> rx_at i l off (rx_after i l off rx)"
  using unat_u64_less[of l] by (simp add: rx_at_def rx_after_def unat_of_nat_u64)

lemma rx_after_after [simp]: "rx_after i l m (rx_after i l n rx) = rx_after i l m rx"
  by (simp add: rx_after_def)

lemma rx_feeds_frames:
  assumes "i \<noteq> 0" "list_all fragment_ok frs" "off + length (concat frs) \<le> unat l" "rx_at i l off rx" "frs \<noteq> []"
  shows "rx_feeds (rx, log, cur) (frames_from i l off frs) =
    Some (if off + length (concat frs) = unat l
      then (rx_after i l (off + length (concat frs)) rx, log @ [Delivered (cur @ concat frs)], [])
      else (rx_after i l (off + length (concat frs)) rx, log, cur @ concat frs))"
  using assms(2-5)
proof (induction frs arbitrary: off rx cur)
  case (Cons fr frs)
  have fr: "fr \<noteq> []" "length fr \<le> AXIVC_FRAGMENT_CAPACITY" "off + length fr \<le> unat l"
    using Cons.prems(1,2) by (auto simp: fragment_ok_def)
  note feed = rx_feed_frame[OF assms(1) fr(2) _ fr(3) Cons.prems(3)]
  show ?case
  proof (cases "frs = []")
    case True
    then show ?thesis using feed fr(1) by simp
  next
    case False
    then have "0 < length (concat frs)" using Cons.prems(1) by (cases frs) (auto simp: fragment_ok_def)
    then have lt: "off + length fr < unat l" using Cons.prems(2) by (simp del: length_greater_0_conv)
    with fr(1) have "rx_at i l (off + length fr) (rx_after i l (off + length fr) rx)"
      by (intro rx_after_at) auto
    from Cons.IH[OF _ _ this False, of "cur @ fr"] Cons.prems(1,2) feed fr(1) lt show ?thesis
      by (simp add: add.assoc)
  qed
qed simp

lemma rx_feed_abort:
  assumes "i \<noteq> 0" "off \<noteq> 0" "rx_at i l off rx"
  shows "rx_feed (rx, log, cur) (frame_slot i l False False True []) =
    Some (rx\<lparr>rx_state := AXIVC_RX_IDLE\<rparr>, log @ [Reset], [])"
  using assms
  by (simp add: rx_slot_def decode_frame_slot axivc_validate_frame_shape_def rx_at_def
      axivc_validate_transition_def apply_transition_def)

lemma rx_feed_empty_message:
  "i \<noteq> 0 \<Longrightarrow> rx_state rx = AXIVC_RX_IDLE \<Longrightarrow>
    rx_feed (rx, log, []) (frame_slot i 0 True True False []) =
      Some (rx_after i 0 0 rx, log @ [Delivered []], [])"
  using rx_feed_frame[of i "[]" 0 0 rx log "[]"] by (simp add: rx_at_def)

text \<open>The log of a reader only grows.\<close>

lemma rx_feeds_log: "rx_feeds (rx, log, cur) ss = Some (rx', log', cur') \<Longrightarrow> prefix log log'"
proof (induction ss arbitrary: rx log cur)
  case (Cons s ss)
  then obtain v where v: "rx_feed (rx, log, cur) s = Some v" "rx_feeds v ss = Some (rx', log', cur')"
    by (auto split: option.splits)
  obtain a b d where v': "v = (a, b, d)" by (cases v)
  have "prefix log b" using v(1) v' by (auto split: sum.splits if_splits)
  then show ?case using Cons.IH[of a b d] v(2) v' prefix_order.trans by blast
qed simp

lemma rx_feeds_state:
  "rx_feeds v ss = Some v' \<Longrightarrow> rx_state (fst v) \<noteq> AXIVC_RX_FAILED \<Longrightarrow> rx_state (fst v') \<noteq> AXIVC_RX_FAILED"
proof (induction ss arbitrary: v)
  case (Cons s ss)
  then obtain v1 where v1: "rx_feed v s = Some v1" "rx_feeds v1 ss = Some v'"
    by (auto split: option.splits)
  have "rx_state (fst v1) \<noteq> AXIVC_RX_FAILED"
    using v1(1) Cons.prems(2) by (cases v) (auto split: sum.splits if_splits dest: rx_slot_state)
  then show ?case using Cons.IH v1(2) by blast
qed simp

section \<open>The channel invariant\<close>

text \<open>
  Reading everything that is in the ring would bring the receiver exactly to where the
  sender is: same message, same byte offset, same log.
\<close>

definition in_sync :: "axivc_message_sender \<Rightarrow> axivc_message_receiver \<Rightarrow> bytes \<Rightarrow> bool" where
  "in_sync tx rx cur \<longleftrightarrow>
    (if tx_sending tx \<and> tx_published_any tx then
       rx_at (m_id (tx_active tx)) (m_len (tx_active tx)) (unat (tx_sent tx)) rx \<and> length cur = unat (tx_sent tx)
     else rx_state rx = AXIVC_RX_IDLE \<and> cur = [])"

definition channel_inv :: "channel \<Rightarrow> bool" where
  "channel_inv c \<longleftrightarrow> ring_wf (ch_ring c) \<and> sender_ok (ch_tx c) \<and> rx_state (ch_rx c) \<noteq> AXIVC_RX_FAILED \<and>
    (\<exists>rx. rx_feeds (ch_rx c, ch_log c, ch_out c) (ring_contents (ch_ring c)) =
        Some (rx, ch_sent c, ch_in c) \<and> in_sync (ch_tx c) rx (ch_in c))"

lemma channel_init_inv: "ring_wf ring \<Longrightarrow> ring_contents ring = [] \<Longrightarrow> channel_inv (channel_init ring)"
  using sender_init_ok
  by (simp add: channel_inv_def channel_init_def in_sync_def
      axivc_message_receiver_init_def axivc_message_sender_init_def)

lemma channel_start_inv: "channel_inv c \<Longrightarrow> channel_inv (channel_start l c)"
  using start_ok[of "ch_tx c" l]
  by (cases rule: start_cases[of "ch_tx c" l, case_names busy exhausted started])
    (auto simp: channel_inv_def channel_start_def in_sync_def)

lemma channel_abort_inv:
  assumes "channel_inv c"
  shows "channel_inv (channel_abort c)"
proof -
  from assms have wf: "ring_wf (ch_ring c)" "sender_ok (ch_tx c)" by (simp_all add: channel_inv_def)
  from assms obtain rx where rx: "rx_feeds (ch_rx c, ch_log c, ch_out c) (ring_contents (ch_ring c)) =
      Some (rx, ch_sent c, ch_in c)" "in_sync (ch_tx c) rx (ch_in c)" by (auto simp: channel_inv_def)
  show ?thesis
  proof (cases rule: try_abort_cases[OF wf, case_names idle local full abort])
    case (abort ring')
    have sync: "rx_at (m_id (tx_active (ch_tx c))) (m_len (tx_active (ch_tx c))) (unat (tx_sent (ch_tx c))) rx"
        "unat (tx_sent (ch_tx c)) \<noteq> 0" "m_id (tx_active (ch_tx c)) \<noteq> 0"
      using rx(2) abort(1,2) wf(2) by (simp_all add: in_sync_def sender_ok_def unat_eq_zero)
    show ?thesis
      using abort assms rx(1) rx_feed_abort[OF sync(3,2,1)]
      by (auto simp: channel_inv_def channel_abort_def rx_feeds_append in_sync_def sender_ok_def)
  qed (use assms in \<open>auto simp: channel_inv_def channel_abort_def in_sync_def sender_ok_def\<close>)
qed

lemma channel_read_inv:
  assumes "channel_inv c"
  shows "channel_inv (channel_read buf c)"
proof -
  from assms have wf: "ring_wf (ch_ring c)" "rx_state (ch_rx c) \<noteq> AXIVC_RX_FAILED"
    by (simp_all add: channel_inv_def)
  from assms obtain rx where rx: "rx_feeds (ch_rx c, ch_log c, ch_out c) (ring_contents (ch_ring c)) =
      Some (rx, ch_sent c, ch_in c)" "in_sync (ch_tx c) rx (ch_in c)" by (auto simp: channel_inv_def)
  show ?thesis
  proof (cases rule: try_read_cases[OF wf(1), of "ch_rx c" buf, case_names failed ok bad reset small])
    case (ok res)
    obtain rx' ring' out' pr where res: "res = (rx', ring', out', pr)" by (cases res)
    from ok(3) obtain k data where r: "ring_wf ring'" "ring_contents ring' = drop k (ring_contents (ch_ring c))"
      "length data \<le> length buf" "out' = memcpy_at 0 data buf" "rp_written pr = length data"
      "rx_feeds (ch_rx c, ch_log c, ch_out c) (take k (ring_contents (ch_ring c))) =
        Some (if rp_complete pr then (rx', ch_log c @ [Delivered (ch_out c @ data)], [])
          else (rx', ch_log c, ch_out c @ data))"
      by (auto simp: read_ok_def res)
    have "ring_contents (ch_ring c) = take k (ring_contents (ch_ring c)) @ ring_contents ring'"
      using r(2) by simp
    with rx(1) r(6) have "rx_feeds (if rp_complete pr then (rx', ch_log c @ [Delivered (ch_out c @ data)], [])
        else (rx', ch_log c, ch_out c @ data)) (ring_contents ring') = Some (rx, ch_sent c, ch_in c)"
      using rx_feeds_append[of _ "take k (ring_contents (ch_ring c))" "ring_contents ring'"] by simp
    moreover have "rx_state rx' \<noteq> AXIVC_RX_FAILED"
      using rx_feeds_state[OF r(6)] wf(2) by (simp split: if_splits)
    moreover have "take (rp_written pr) out' = data" using r(3-5) by (simp add: memcpy_at_def)
    ultimately show ?thesis
      using assms ok(2) res r(1) rx(2) by (auto simp: channel_inv_def channel_read_def Let_def)
  next
    case (reset s rx' data t)
    have "slot_wf s" using reset(2) wf(1) by (metis list.set_intros(1) rq.elems_ok)
    from rx_slot_aborted_data[OF this reset(3,4) wf(2)] rx_slot_state[OF reset(3) wf(2)]
    show ?thesis using assms reset rx by (auto simp: channel_inv_def channel_read_def Let_def rp_zero_def)
  next
    case (bad s ss e)
    then show ?thesis using rx(1) by simp
  qed (use assms wf in \<open>auto simp: channel_inv_def channel_read_def Let_def rp_zero_def\<close>)
qed

lemma channel_peek_inv:
  assumes "channel_inv c"
  shows "channel_peek c = c"
proof (cases "rx_state (ch_rx c)")
  case AXIVC_RX_IDLE
  have l: "ring_layout (ch_ring c)" using assms by (simp add: channel_inv_def ring_wf_layout)
  show ?thesis
  proof (cases "ring_contents (ch_ring c)")
    case (Cons s ss)
    with assms obtain f where "axivc_decode_frame s = Inr f" "f_first f" "\<not> f_abort f"
      using AXIVC_RX_IDLE
      by (auto simp: channel_inv_def rx_slot_def axivc_validate_transition_def
          split: option.splits sum.splits prod.splits if_splits)
    then show ?thesis
      using Cons by (simp add: channel_peek_def axivc_message_peek_meta_def AXIVC_RX_IDLE peek_contents[OF l])
  qed (simp add: channel_peek_def axivc_message_peek_meta_def AXIVC_RX_IDLE peek_contents[OF l])
qed (use assms in \<open>simp_all add: channel_peek_def axivc_message_peek_meta_def channel_inv_def\<close>)

lemma concat_take_chunks: "concat (take (write_count ring input) (chunks input)) = take (write_bytes ring input) input"
proof -
  have "input = concat (take k (chunks input)) @ concat (drop k (chunks input))" for k
    by (metis append_take_drop_id concat_append concat_chunks)
  then show ?thesis unfolding write_bytes_def by (metis append_eq_conv_conj)
qed

lemma channel_write_inv:
  assumes "channel_inv c"
  shows "channel_inv (channel_write input c)"
proof -
  let ?tx = "ch_tx c" and ?ring = "ch_ring c"
  let ?i = "m_id (tx_active ?tx)" and ?l = "m_len (tx_active ?tx)" and ?off = "unat (tx_sent ?tx)"
  from assms have wf: "ring_wf ?ring" "sender_ok ?tx" by (simp_all add: channel_inv_def)
  from assms obtain rx where rx: "rx_feeds (ch_rx c, ch_log c, ch_out c) (ring_contents ?ring) =
      Some (rx, ch_sent c, ch_in c)" "in_sync ?tx rx (ch_in c)" by (auto simp: channel_inv_def)
  show ?thesis
  proof (cases rule: try_write_cases[OF wf, of input, case_names refused stalled empty data])
    case (refused e)
    then show ?thesis using assms by (simp add: channel_write_def Let_def no_progress_def)
  next
    case stalled
    then show ?thesis using assms by (simp add: channel_write_def Let_def no_progress_def)
  next
    case (empty ring')
    then have "rx_state rx = AXIVC_RX_IDLE" "ch_in c = []" "?i \<noteq> 0" "input = []"
      using rx(2) wf(2) by (auto simp: in_sync_def sender_ok_def)
    then show ?thesis
      using empty assms rx(1) rx_feed_empty_message[of ?i rx "ch_sent c"]
      by (auto simp: channel_inv_def channel_write_def Let_def rx_feeds_append in_sync_def sender_ok_def rx_after_def)
  next
    case (data k n fin ring')
    have off: "rx_at ?i ?l ?off rx" "length (ch_in c) = ?off" "?i \<noteq> 0"
      using rx(2) data(1) wf(2) by (auto simp: in_sync_def sender_ok_def rx_at_def split: if_splits)
    note aw = after_write_ok[OF wf(2) data(1,2) data(4) data(5) data(6)]
    show ?thesis
    proof (cases "k = 0")
      case True
      then show ?thesis using assms data by (simp add: channel_write_def channel_inv_def Let_def)
    next
      case False
      define frs where "frs = take k (chunks input)"
      have frs: "list_all fragment_ok frs" "frs \<noteq> []" "concat frs = take n input" "length (concat frs) = n"
        using False chunks_ok[of _ input] data(7,8) concat_take_chunks[of ?ring input] write_bytes_le[of ?ring input]
        by (auto simp: frs_def list_all_iff write_count_def dest: in_set_takeD)
      have "rx_feeds (rx, ch_sent c, ch_in c) (frames_from ?i ?l ?off frs) =
        Some (if fin then (rx_after ?i ?l (?off + n) rx, ch_sent c @ [Delivered (ch_in c @ take n input)], [])
          else (rx_after ?i ?l (?off + n) rx, ch_sent c, ch_in c @ take n input))"
        using rx_feeds_frames[OF off(3) frs(1) _ off(1) frs(2)] frs(3,4) data(4,6) False by simp
      moreover have "in_sync (after_write ?tx n k fin) (rx_after ?i ?l (?off + n) rx)
          (if fin then [] else ch_in c @ take n input)"
        using aw data off frs False rx_after_at[of "?off + n" ?l ?i rx]
        by (auto simp: in_sync_def after_write_def rx_after_def)
      ultimately show ?thesis
        using data(9-11) assms rx(1) aw(1)
        by (auto simp: channel_inv_def channel_write_def Let_def rx_feeds_append frs_def)
    qed
  qed
qed

lemma channel_reach_inv:
  assumes "ring_wf ring" "ring_contents ring = []"
  shows "channel_reach ring c \<Longrightarrow> channel_inv c"
proof (induction rule: channel_reach.induct)
  case reach_init
  show ?case using assms by (rule channel_init_inv)
next
  case (reach_step c c')
  from reach_step.hyps(2) reach_step.IH show ?case
    by cases (simp_all add: channel_start_inv channel_write_inv channel_abort_inv channel_read_inv channel_peek_inv)
qed

lemma channel_inv_logs:
  assumes "channel_inv c"
  shows "prefix (ch_log c) (ch_sent c)" "ring_contents (ch_ring c) = [] \<Longrightarrow> ch_log c = ch_sent c \<and> ch_out c = ch_in c"
  using assms by (auto simp: channel_inv_def dest: rx_feeds_log)

section \<open>Draining\<close>

lemma channel_read_progress:
  assumes "channel_inv c" "ring_contents (ch_ring c) \<noteq> []" "length buf \<ge> AXIVC_FRAGMENT_CAPACITY"
  shows "length (ring_contents (ch_ring (channel_read buf c))) < length (ring_contents (ch_ring c))"
proof -
  have "channel_inv (channel_read buf c)" using assms(1) by (rule channel_read_inv)
  then have "rx_state (ch_rx (channel_read buf c)) \<noteq> AXIVC_RX_FAILED" by (simp add: channel_inv_def)
  moreover have "ring_wf (ch_ring c)" "rx_state (ch_rx c) \<noteq> AXIVC_RX_FAILED"
    using assms(1) by (simp_all add: channel_inv_def)
  ultimately show ?thesis
    using try_read_consumes[of "ch_ring c" "ch_rx c" buf] assms(2,3)
    by (simp add: channel_read_def Let_def split_beta)
qed

lemma channel_read_sent [simp]: "ch_sent (channel_read buf c) = ch_sent c" "ch_in (channel_read buf c) = ch_in c"
  by (simp_all add: channel_read_def Let_def split_beta)

lemma channel_read_empty:
  "channel_inv c \<Longrightarrow> ring_contents (ch_ring c) = [] \<Longrightarrow> ring_contents (ch_ring (channel_read buf c)) = []"
  by (auto simp: channel_inv_def channel_read_def axivc_message_try_read_def process_slots_empty ring_wf_layout peek_contents
      axivc_process_available_slots_def Let_def)

lemma channel_drain:
  assumes "length buf \<ge> AXIVC_FRAGMENT_CAPACITY" "channel_inv c" "length (ring_contents (ch_ring c)) \<le> n"
  shows "channel_inv ((channel_read buf ^^ n) c) \<and> ring_contents (ch_ring ((channel_read buf ^^ n) c)) = [] \<and>
    ch_sent ((channel_read buf ^^ n) c) = ch_sent c"
  using assms(2,3)
proof (induction n arbitrary: c)
  case (Suc n)
  note inv = channel_read_inv[OF Suc.prems(1), of buf]
  have "length (ring_contents (ch_ring (channel_read buf c))) \<le> n"
  proof (cases "ring_contents (ch_ring c) = []")
    case True
    then show ?thesis
      using Suc.prems(1) by (simp add: channel_read_empty)
  next
    case False
    from channel_read_progress[OF Suc.prems(1) False assms(1)] Suc.prems(2) show ?thesis by linarith
  qed
  from Suc.IH[OF inv this] show ?case by (simp add: funpow_Suc_right del: funpow.simps)
qed (simp del: length_ring_contents)

section \<open>Properties\<close>

text \<open>
  C2. End-to-end delivery over one direction of a channel. Start with a fresh sender and
  receiver on an empty ring and let the two sides call start, write, abort, read and peek
  in any order with any arguments, failing calls included. Then the receiver is never
  poisoned, and what it has delivered, messages and resets, is a prefix of what the sender
  has completed and aborted, in order, byte for byte: nothing is lost, duplicated,
  reordered, corrupted, truncated or delivered in part. When the ring is empty the receiver
  has delivered everything and holds exactly the bytes of the sender's current message.
\<close>

theorem channel_delivers_in_order:
  assumes "ring_wf ring" "ring_contents ring = []" "channel_reach ring c"
  shows "rx_state (ch_rx c) \<noteq> AXIVC_RX_FAILED \<and> prefix (ch_log c) (ch_sent c) \<and>
    (ring_contents (ch_ring c) = [] \<longrightarrow> ch_log c = ch_sent c \<and> ch_out c = ch_in c)"
proof -
  note inv = channel_reach_inv[OF assms]
  then have "rx_state (ch_rx c) \<noteq> AXIVC_RX_FAILED" by (simp add: channel_inv_def)
  with channel_inv_logs[OF inv] show ?thesis by blast
qed

definition sent_channel :: channel where
  "sent_channel = channel_write (replicate 7 9) (channel_start 7 (channel_init empty_ring))"

lemma empty_ring: "ring_wf empty_ring" "ring_contents empty_ring = []"
  by (simp_all add: empty_ring_def ring_initialize_wf ring_initialize_empty)

lemma sent_channel: "channel_reach empty_ring sent_channel" "ch_sent sent_channel = [Delivered (replicate 7 9)]"
proof -
  let ?s = "\<lparr>tx_next_message_id = 2, tx_sending = True, tx_active = \<lparr>m_id = 1, m_len = 7\<rparr>, tx_sent = 0,
    tx_published_any = False\<rparr>"
  have st: "snd (axivc_message_start axivc_message_sender_init 7) = ?s"
    by (simp add: axivc_message_start_def axivc_message_sender_init_def)
  show "channel_reach empty_ring sent_channel"
    unfolding sent_channel_def
    by (intro channel_reach.reach_step[OF _ step_write] channel_reach.reach_step[OF _ step_start] reach_init)
  have ch: "chunks (replicate 7 (9 :: u8)) = [replicate 7 9]" by (simp add: chunks_step wire_consts)
  then have wc: "write_count empty_ring (replicate 7 9) = 1" "write_bytes empty_ring (replicate 7 9) = 7"
    using arg_cong[OF empty_ring(2), of length]
    by (simp_all add: write_count_def write_bytes_def ring_consts)
  have ok: "sender_ok ?s" by (simp add: sender_ok_def)
  show "ch_sent sent_channel = [Delivered (replicate 7 9)]"
    using wc
    by (cases rule: try_write_cases[OF empty_ring(1) ok, of "replicate 7 9", case_names refused stalled empty data])
      (auto simp: sent_channel_def channel_write_def channel_start_def channel_init_def st)
qed

theorem channel_delivers_in_order_witness:
  "ring_wf empty_ring \<and> ring_contents empty_ring = [] \<and> channel_reach empty_ring sent_channel \<and>
    prefix (ch_log sent_channel) [Delivered (replicate 7 9)]"
  using channel_delivers_in_order[OF empty_ring sent_channel(1)] empty_ring sent_channel by simp

text \<open>
  C15. Delivery is complete. In every reachable state, as many reads as there are slots in the
  ring, with any buffer of at least 232 bytes, drain the ring and deliver everything the
  sender has completed or aborted.
\<close>

theorem channel_drains:
  assumes "ring_wf ring" "ring_contents ring = []" "channel_reach ring c"
    and "length buf \<ge> AXIVC_FRAGMENT_CAPACITY" "n \<ge> ring_used (ch_ring c)"
  shows "ring_contents (ch_ring ((channel_read buf ^^ n) c)) = [] \<and>
    ch_log ((channel_read buf ^^ n) c) = ch_sent c"
  using channel_drain[OF assms(4) channel_reach_inv[OF assms(1-3)]] channel_inv_logs(2) assms(5)
  by (metis length_ring_contents)

theorem channel_drains_witness:
  "ring_wf empty_ring \<and> ring_contents empty_ring = [] \<and> channel_reach empty_ring sent_channel \<and>
    ch_log ((channel_read (replicate 232 0) ^^ ring_used (ch_ring sent_channel)) sent_channel) =
      [Delivered (replicate 7 9)]"
  using channel_drains[OF empty_ring sent_channel(1), of "replicate 232 0" "ring_used (ch_ring sent_channel)"]
    empty_ring sent_channel
  by (simp add: wire_consts)

end
