(* ===== verification/Axivc_Region.thy ===== *)
theory Axivc_Region
  imports Axivc_Ring
begin

text \<open>
  The shared region of \<^verbatim>\<open>ivc/region.c\<close> and \<^verbatim>\<open>ivc/includes/region.h\<close>: the layout of the
  region under the C layout rules, the publisher's protocol reset
  \<open>axivc_region_init_publisher\<close> as the sequence of its stores, and the subscriber's
  \<open>axivc_region_validate\<close>. A racing subscriber is modelled by the sets of stores it may
  have seen under release ordering.
\<close>

section \<open>Layout\<close>

text \<open>
  A field is a pair of size and alignment. \<open>c_offsets\<close> places the fields of a struct in
  order, each at the next multiple of its alignment; \<open>c_sizeof\<close> rounds the end up to the
  alignment of the struct, the largest of the fields' and the one declared.
\<close>

type_synonym c_field = "nat \<times> nat"

definition align_up :: "nat \<Rightarrow> nat \<Rightarrow> nat" where
  "align_up a n = (n + (a - 1)) div a * a"

fun c_offsets :: "nat \<Rightarrow> c_field list \<Rightarrow> nat list" where
  "c_offsets off [] = []"
| "c_offsets off ((sz, al) # fs) = align_up al off # c_offsets (align_up al off + sz) fs"

fun c_end :: "nat \<Rightarrow> c_field list \<Rightarrow> nat" where
  "c_end off [] = off"
| "c_end off ((sz, al) # fs) = c_end (align_up al off + sz) fs"

definition c_align :: "nat \<Rightarrow> c_field list \<Rightarrow> nat" where
  "c_align declared fs = fold max (map snd fs) declared"

definition c_struct :: "nat \<Rightarrow> c_field list \<Rightarrow> c_field" where
  "c_struct declared fs = (align_up (c_align declared fs) (c_end 0 fs), c_align declared fs)"

definition u32_field :: c_field where "u32_field = (4, 4)"
definition u64_field :: c_field where "u64_field = (8, 8)"

definition axivc_ring_fields :: "c_field list" where
  "axivc_ring_fields = [u32_field, u32_field, u32_field, u32_field, u32_field, (3 * 4, 4),
    (AXIVC_RING_CAPACITY * AXIVC_SLOT_SIZE, AXIVC_SLOT_SIZE)]"

definition axivc_ring_struct :: c_field where
  "axivc_ring_struct = c_struct AXIVC_SLOT_SIZE axivc_ring_fields"

definition axivc_region_header_struct :: c_field where
  "axivc_region_header_struct = c_struct 8
    [u32_field, u32_field, u32_field, u32_field, u32_field, u32_field, u32_field, u32_field]"

definition axivc_region_fields :: "c_field list" where
  "axivc_region_fields =
    [u64_field, u64_field, axivc_region_header_struct, axivc_ring_struct, axivc_ring_struct]"

definition axivc_region_struct :: c_field where
  "axivc_region_struct = c_struct 64 axivc_region_fields"

definition sizeof_axivc_region_header :: nat where
  "sizeof_axivc_region_header = fst axivc_region_header_struct"
definition sizeof_axivc_ring :: nat where
  "sizeof_axivc_ring = fst axivc_ring_struct"
definition sizeof_axivc_region :: nat where
  "sizeof_axivc_region = fst axivc_region_struct"
definition offsetof_slots :: nat where
  "offsetof_slots = c_offsets 0 axivc_ring_fields ! 6"
definition offsetof_publisher_to_subscriber :: nat where
  "offsetof_publisher_to_subscriber = c_offsets 0 axivc_region_fields ! 3"
definition offsetof_subscriber_to_publisher :: nat where
  "offsetof_subscriber_to_publisher = c_offsets 0 axivc_region_fields ! 4"

text \<open>The compile-time assertions of \<open>axivc_ring_check_layout\<close> and \<open>axivc_region_check_layout\<close>.\<close>

definition axivc_ring_check_layout :: bool where
  "axivc_ring_check_layout \<longleftrightarrow> sizeof_axivc_ring = 8448 \<and> offsetof_slots = AXIVC_SLOT_SIZE"

definition axivc_region_check_layout :: bool where
  "axivc_region_check_layout \<longleftrightarrow> sizeof_axivc_region_header = 32 \<and> sizeof_axivc_ring = 8448 \<and>
    offsetof_publisher_to_subscriber = 256 \<and> offsetof_subscriber_to_publisher = 8704 \<and>
    sizeof_axivc_region = 17152"

lemmas layout_defs = c_struct_def c_align_def align_up_def u32_field_def u64_field_def ring_consts

lemma ring_struct: "axivc_ring_struct = (8448, 256)"
  by (simp add: axivc_ring_struct_def axivc_ring_fields_def layout_defs)

lemma header_struct: "axivc_region_header_struct = (32, 8)"
  by (simp add: axivc_region_header_struct_def layout_defs)

lemma layout_values:
  "sizeof_axivc_region_header = 32" "sizeof_axivc_ring = 8448" "offsetof_slots = 256"
  "offsetof_publisher_to_subscriber = 256" "offsetof_subscriber_to_publisher = 8704"
  "sizeof_axivc_region = 17152"
  by (simp_all add: sizeof_axivc_region_header_def sizeof_axivc_ring_def offsetof_slots_def
      offsetof_publisher_to_subscriber_def offsetof_subscriber_to_publisher_def sizeof_axivc_region_def
      axivc_region_struct_def axivc_region_fields_def axivc_ring_fields_def header_struct ring_struct layout_defs)

section \<open>State and operations\<close>

definition AXIVC_REGION_MAGIC :: u32 where "AXIVC_REGION_MAGIC = 0x49564332"
definition AXIVC_REGION_VERSION :: u32 where "AXIVC_REGION_VERSION = 3"
definition AXIVC_REGION_FEATURE_SPSC_OPAQUE_SLOTS :: u32 where
  "AXIVC_REGION_FEATURE_SPSC_OPAQUE_SLOTS = 1"

lemmas region_consts = AXIVC_REGION_MAGIC_def AXIVC_REGION_VERSION_def
  AXIVC_REGION_FEATURE_SPSC_OPAQUE_SLOTS_def

record axivc_region_header =
  h_magic :: u32
  h_version :: u32
  h_header_size :: u32
  h_region_size :: u32
  h_features :: u32
  h_publisher_to_subscriber_offset :: u32
  h_subscriber_to_publisher_offset :: u32
  h_ring_size :: u32

record axivc_region =
  g_publisher_id :: u64
  g_key :: u64
  g_header :: axivc_region_header
  g_publisher_to_subscriber :: axivc_ring
  g_subscriber_to_publisher :: axivc_ring

text \<open>A store to the region, and whether it is a release store.\<close>

type_synonym region_store = "bool \<times> (axivc_region \<Rightarrow> axivc_region)"

definition plain :: "(axivc_region \<Rightarrow> axivc_region) \<Rightarrow> region_store" where
  "plain f = (False, f)"
definition release :: "(axivc_region \<Rightarrow> axivc_region) \<Rightarrow> region_store" where
  "release f = (True, f)"

definition header_store :: "(axivc_region_header \<Rightarrow> axivc_region_header) \<Rightarrow> axivc_region \<Rightarrow> axivc_region" where
  "header_store f g = g\<lparr>g_header := f (g_header g)\<rparr>"

text \<open>The stores of \<open>axivc_ring_initialize\<close>; the last one, to \<open>tail\<close>, is a release.\<close>

definition ring_init_region_stores ::
  "((axivc_ring \<Rightarrow> axivc_ring) \<Rightarrow> axivc_region \<Rightarrow> axivc_region) \<Rightarrow> u32 \<Rightarrow> region_store list" where
  "ring_init_region_stores upd direction =
    map (\<lambda>st. plain (upd st)) (butlast (axivc_ring_init_stores direction)) @
    [release (upd (last (axivc_ring_init_stores direction)))]"

definition axivc_region_init_stores :: "u64 \<Rightarrow> u64 \<Rightarrow> region_store list" where
  "axivc_region_init_stores publisher_id key =
    [release (header_store (\<lambda>h. h\<lparr>h_magic := 0\<rparr>)),
     plain (\<lambda>g. g\<lparr>g_publisher_id := publisher_id\<rparr>),
     plain (\<lambda>g. g\<lparr>g_key := key\<rparr>)] @
    ring_init_region_stores
      (\<lambda>f g. g\<lparr>g_publisher_to_subscriber := f (g_publisher_to_subscriber g)\<rparr>)
      AXIVC_RING_DIRECTION_PUBLISHER_TO_SUBSCRIBER @
    ring_init_region_stores
      (\<lambda>f g. g\<lparr>g_subscriber_to_publisher := f (g_subscriber_to_publisher g)\<rparr>)
      AXIVC_RING_DIRECTION_SUBSCRIBER_TO_PUBLISHER @
    [plain (header_store (\<lambda>h. h\<lparr>h_header_size := of_nat sizeof_axivc_region_header\<rparr>)),
     plain (header_store (\<lambda>h. h\<lparr>h_region_size := of_nat sizeof_axivc_region\<rparr>)),
     plain (header_store (\<lambda>h. h\<lparr>h_features := AXIVC_REGION_FEATURE_SPSC_OPAQUE_SLOTS\<rparr>)),
     plain (header_store (\<lambda>h. h\<lparr>h_publisher_to_subscriber_offset := of_nat offsetof_publisher_to_subscriber\<rparr>)),
     plain (header_store (\<lambda>h. h\<lparr>h_subscriber_to_publisher_offset := of_nat offsetof_subscriber_to_publisher\<rparr>)),
     plain (header_store (\<lambda>h. h\<lparr>h_ring_size := of_nat sizeof_axivc_ring\<rparr>)),
     release (header_store (\<lambda>h. h\<lparr>h_version := AXIVC_REGION_VERSION\<rparr>)),
     release (header_store (\<lambda>h. h\<lparr>h_magic := AXIVC_REGION_MAGIC\<rparr>))]"

definition axivc_region_init_publisher ::
  "axivc_region \<Rightarrow> nat \<Rightarrow> u64 \<Rightarrow> status \<times> axivc_region" where
  "axivc_region_init_publisher region shm_size channel_key =
    (if shm_size < sizeof_axivc_region then (Err EINVAL, region)
     else let publisher_id = g_publisher_id region; key = g_key region in
       if key \<noteq> channel_key then (Err EPROTO, region)
       else (OK, fold snd (axivc_region_init_stores publisher_id key) region))"

definition axivc_region_validate :: "axivc_region \<Rightarrow> nat \<Rightarrow> u64 \<Rightarrow> u64 \<Rightarrow> status" where
  "axivc_region_validate region shm_size publisher_id channel_key =
    (let header = g_header region; p2s = g_publisher_to_subscriber region;
         s2p = g_subscriber_to_publisher region in
     if shm_size < sizeof_axivc_region then Err EINVAL
     else if g_publisher_id region \<noteq> publisher_id \<or> g_key region \<noteq> channel_key then Err EINVAL
     else if h_magic header \<noteq> AXIVC_REGION_MAGIC then Err EAGAIN
     else if h_version header \<noteq> AXIVC_REGION_VERSION then Err EPROTO
     else if h_header_size header \<noteq> of_nat sizeof_axivc_region_header then Err EPROTO
     else if h_region_size header < of_nat sizeof_axivc_region then Err EPROTO
     else if h_features header AND AXIVC_REGION_FEATURE_SPSC_OPAQUE_SLOTS
       \<noteq> AXIVC_REGION_FEATURE_SPSC_OPAQUE_SLOTS then Err EPROTO
     else if h_publisher_to_subscriber_offset header \<noteq> of_nat offsetof_publisher_to_subscriber then Err EPROTO
     else if h_subscriber_to_publisher_offset header \<noteq> of_nat offsetof_subscriber_to_publisher then Err EPROTO
     else if h_ring_size header \<noteq> of_nat sizeof_axivc_ring then Err EPROTO
     else if r_direction p2s \<noteq> AXIVC_RING_DIRECTION_PUBLISHER_TO_SUBSCRIBER \<or>
       r_capacity p2s \<noteq> of_nat AXIVC_RING_CAPACITY \<or> r_slot_size p2s \<noteq> of_nat AXIVC_SLOT_SIZE then Err EPROTO
     else if r_direction s2p \<noteq> AXIVC_RING_DIRECTION_SUBSCRIBER_TO_PUBLISHER \<or>
       r_capacity s2p \<noteq> of_nat AXIVC_RING_CAPACITY \<or> r_slot_size s2p \<noteq> of_nat AXIVC_SLOT_SIZE then Err EPROTO
     else OK)"

section \<open>What a racing subscriber can see\<close>

text \<open>
  A subscriber on another processor has seen some of the publisher's stores. Release
  ordering promises that whoever has seen a release store has seen every store before it;
  it promises nothing about the stores that follow. \<open>release_ok\<close> says that a selection of
  the stores obeys this, \<open>see\<close> is the memory with exactly the selected stores done.
\<close>

definition release_ok :: "region_store list \<Rightarrow> bool list \<Rightarrow> bool" where
  "release_ok sts seen \<longleftrightarrow> length seen = length sts \<and>
    (\<forall>j<length sts. fst (sts ! j) \<and> seen ! j \<longrightarrow> (\<forall>i<j. seen ! i))"

fun see :: "region_store list \<Rightarrow> bool list \<Rightarrow> axivc_region \<Rightarrow> axivc_region" where
  "see (st # sts) (b # seen) g = see sts seen (if b then snd st g else g)"
| "see _ _ g = g"

lemma see_all: "list_all id seen \<Longrightarrow> length seen = length sts \<Longrightarrow> see sts seen g = fold snd sts g"
  by (induction sts seen g rule: see.induct) simp_all

lemma see_keeps:
  "(\<And>st g. st \<in> set sts \<Longrightarrow> P g \<Longrightarrow> P (snd st g)) \<Longrightarrow> P g \<Longrightarrow> P (see sts seen g)"
  by (induction sts seen g rule: see.induct) auto

lemma see_butlast:
  "length seen = length sts \<Longrightarrow> seen \<noteq> [] \<Longrightarrow> \<not> last seen \<Longrightarrow> see sts seen g = see (butlast sts) (butlast seen) g"
proof (induction sts seen g rule: see.induct)
  case (1 st sts b seen g)
  then show ?case by (cases sts; cases seen) auto
qed auto

lemma release_last:
  assumes "release_ok sts seen" "fst (last sts)" "last seen" "sts \<noteq> []"
  shows "list_all id seen"
proof -
  from assms(1) have len: "length seen = length sts" by (simp add: release_ok_def)
  then have "seen \<noteq> []" using assms(4) by auto
  then have l: "last sts = sts ! (length sts - 1)" "last seen = seen ! (length sts - 1)"
    using assms(4) len by (simp_all add: last_conv_nth)
  have "length sts - 1 < length sts" using assms(4) by simp
  moreover have fin: "fst (sts ! (length sts - 1))" "seen ! (length sts - 1)"
    using assms(2,3) unfolding l by simp_all
  ultimately have "\<forall>i<length sts - 1. seen ! i"
    using assms(1) by (simp add: release_ok_def)
  then have "seen ! i" if "i < length sts" for i
    using that fin(2) by (cases "i = length sts - 1") simp_all
  then show ?thesis by (simp add: list_all_length len)
qed

lemmas init_stores_defs = axivc_region_init_stores_def ring_init_region_stores_def axivc_ring_init_stores_def
  plain_def release_def header_store_def

lemma init_stores_last: "axivc_region_init_stores p k \<noteq> []" "fst (last (axivc_region_init_stores p k))"
  by (simp_all add: init_stores_defs)

text \<open>Without the last store the region has no valid magic, or still the old one.\<close>

lemma see_init_partial:
  assumes "length seen = length (axivc_region_init_stores p k)" "\<not> last seen"
    and "h_magic (g_header g) \<noteq> AXIVC_REGION_MAGIC"
  shows "h_magic (g_header (see (axivc_region_init_stores p k) seen g)) \<noteq> AXIVC_REGION_MAGIC"
proof -
  have "seen \<noteq> []" using assms(1) init_stores_last(1)[of p k] by auto
  moreover have "h_magic (g_header (see (butlast (axivc_region_init_stores p k)) (butlast seen) g)) \<noteq> AXIVC_REGION_MAGIC"
    using assms(3) by (rule see_keeps[rotated]) (auto simp: init_stores_defs region_consts)
  ultimately show ?thesis using see_butlast[OF assms(1) _ assms(2)] by simp
qed

lemma see_identity:
  assumes "p = g_publisher_id g" "k = g_key g"
  shows "g_publisher_id (see (axivc_region_init_stores p k) seen g) = p \<and>
    g_key (see (axivc_region_init_stores p k) seen g) = k"
  by (rule see_keeps) (auto simp: assms init_stores_defs)

lemma init_fields:
  "fold snd (axivc_region_init_stores p k) g =
    \<lparr>g_publisher_id = p, g_key = k,
     g_header = \<lparr>h_magic = AXIVC_REGION_MAGIC, h_version = AXIVC_REGION_VERSION,
       h_header_size = 32, h_region_size = 17152, h_features = AXIVC_REGION_FEATURE_SPSC_OPAQUE_SLOTS,
       h_publisher_to_subscriber_offset = 256, h_subscriber_to_publisher_offset = 8704, h_ring_size = 8448\<rparr>,
     g_publisher_to_subscriber = axivc_ring_initialize (g_publisher_to_subscriber g)
       AXIVC_RING_DIRECTION_PUBLISHER_TO_SUBSCRIBER,
     g_subscriber_to_publisher = axivc_ring_initialize (g_subscriber_to_publisher g)
       AXIVC_RING_DIRECTION_SUBSCRIBER_TO_PUBLISHER\<rparr>"
  by (simp add: init_stores_defs axivc_ring_initialize_def layout_values)

text \<open>What an accepted region looks like.\<close>

definition header_compatible :: "axivc_region_header \<Rightarrow> bool" where
  "header_compatible h \<longleftrightarrow> h_version h = 3 \<and> h_header_size h = 32 \<and> 17152 \<le> unat (h_region_size h) \<and>
    bit (h_features h) 0 \<and> h_publisher_to_subscriber_offset h = 256 \<and>
    h_subscriber_to_publisher_offset h = 8704 \<and> h_ring_size h = 8448"

definition ring_compatible :: "u32 \<Rightarrow> axivc_ring \<Rightarrow> bool" where
  "ring_compatible d r \<longleftrightarrow> r_direction r = d \<and> r_capacity r = 32 \<and> r_slot_size r = 256"

definition region_compatible :: "axivc_region \<Rightarrow> bool" where
  "region_compatible g \<longleftrightarrow> header_compatible (g_header g) \<and>
    ring_compatible 1 (g_publisher_to_subscriber g) \<and> ring_compatible 2 (g_subscriber_to_publisher g)"

lemma feature_bit: "(w :: u32) AND 1 = 1 \<longleftrightarrow> bit w 0"
  by (simp add: and_one_eq bit_0 odd_iff_mod_2_eq_one)

lemma validate_eq:
  "axivc_region_validate g shm_size p k =
    (if shm_size < 17152 \<or> g_publisher_id g \<noteq> p \<or> g_key g \<noteq> k then Err EINVAL
     else if h_magic (g_header g) \<noteq> AXIVC_REGION_MAGIC then Err EAGAIN
     else if region_compatible g then OK else Err EPROTO)"
  by (auto simp: axivc_region_validate_def region_compatible_def header_compatible_def ring_compatible_def
      layout_values ring_consts region_consts(2,3) feature_bit word_less_nat_alt not_less
      AXIVC_RING_DIRECTION_PUBLISHER_TO_SUBSCRIBER_def AXIVC_RING_DIRECTION_SUBSCRIBER_TO_PUBLISHER_def Let_def)

lemma init_compatible: "region_compatible (fold snd (axivc_region_init_stores p k) g)"
  unfolding init_fields ring_initialize_fields
  by (simp add: region_compatible_def header_compatible_def ring_compatible_def ring_consts region_consts
      AXIVC_RING_DIRECTION_PUBLISHER_TO_SUBSCRIBER_def AXIVC_RING_DIRECTION_SUBSCRIBER_TO_PUBLISHER_def)

section \<open>Properties\<close>

text \<open>
  C7. Publication of the region is safe under release ordering. While the publisher resets a
  region that does not already carry the magic, a subscriber that has seen any selection of
  the stores allowed by release ordering gets EAGAIN from the validation until it has seen
  the final store of the magic; and when it has seen that one, it has seen all of them, so
  the region is accepted with both rings empty and well-formed. No partly initialised region
  is ever accepted.
\<close>

theorem region_publication_safe:
  assumes "axivc_region_init_publisher g shm_size key = (OK, g')"
    and "h_magic (g_header g) \<noteq> AXIVC_REGION_MAGIC"
    and "release_ok (axivc_region_init_stores (g_publisher_id g) (g_key g)) seen"
    and "v = see (axivc_region_init_stores (g_publisher_id g) (g_key g)) seen g"
  shows "if last seen then v = g' \<and> axivc_region_validate v shm_size (g_publisher_id g) key = OK \<and>
      ring_wf (g_publisher_to_subscriber v) \<and> ring_contents (g_publisher_to_subscriber v) = [] \<and>
      ring_wf (g_subscriber_to_publisher v) \<and> ring_contents (g_subscriber_to_publisher v) = []
    else axivc_region_validate v shm_size (g_publisher_id g) key = Err EAGAIN"
proof -
  let ?sts = "axivc_region_init_stores (g_publisher_id g) (g_key g)"
  from assms(1) have i: "17152 \<le> shm_size" "g_key g = key" "g' = fold snd ?sts g"
    by (auto simp: axivc_region_init_publisher_def layout_values Let_def split: if_splits)
  have len: "length seen = length ?sts" using assms(3) by (simp add: release_ok_def)
  show ?thesis
  proof (cases "last seen")
    case True
    then have "v = g'"
      using see_all[OF release_last[OF assms(3) init_stores_last(2) _ init_stores_last(1)] len] assms(4) i(3)
      by simp
    then show ?thesis
      using True i init_compatible[of "g_publisher_id g" "g_key g" g]
      by (simp add: validate_eq ring_initialize_wf ring_initialize_empty init_fields)
  next
    case False
    then show ?thesis
      using see_init_partial[OF len False assms(2)] see_identity[OF refl refl, of g seen] i(1,2) assms(4)
      by (simp add: validate_eq)
  qed
qed

definition fresh_region :: "u64 \<Rightarrow> u64 \<Rightarrow> axivc_region" where
  "fresh_region p k = \<lparr>g_publisher_id = p, g_key = k,
    g_header = \<lparr>h_magic = 0, h_version = 0, h_header_size = 0, h_region_size = 0, h_features = 0,
      h_publisher_to_subscriber_offset = 0, h_subscriber_to_publisher_offset = 0, h_ring_size = 0\<rparr>,
    g_publisher_to_subscriber = wrap_ring, g_subscriber_to_publisher = wrap_ring\<rparr>"

lemma length_init_stores: "length (axivc_region_init_stores p k) = 23"
  by (simp add: init_stores_defs)

lemma fresh_init: "axivc_region_init_publisher (fresh_region 1 7) 20480 7 =
    (OK, fold snd (axivc_region_init_stores 1 7) (fresh_region 1 7))"
  by (simp add: axivc_region_init_publisher_def fresh_region_def layout_values)

text \<open>A subscriber that has seen only the fourth store, ahead of the first three.\<close>

theorem region_publication_safe_witness:
  "fst (axivc_region_init_publisher (fresh_region 1 7) 20480 7) = OK \<and>
    release_ok (axivc_region_init_stores 1 7) ((replicate 23 False)[3 := True]) \<and>
    axivc_region_validate (see (axivc_region_init_stores 1 7) ((replicate 23 False)[3 := True]) (fresh_region 1 7))
      20480 1 7 = Err EAGAIN"
proof -
  have ok: "release_ok (axivc_region_init_stores 1 7) ((replicate 23 False)[3 := True])"
    by (auto simp: release_ok_def length_init_stores nth_list_update split: if_splits)
      (simp add: init_stores_defs)
  have "\<not> last ((replicate 23 False)[3 := True])" by (simp add: last_list_update)
  with region_publication_safe[OF fresh_init, of "(replicate 23 False)[3 := True]"] ok fresh_init show ?thesis
    by (simp add: fresh_region_def region_consts)
qed

text \<open>
  C35. The hypothesis on the magic is needed: on a region that still carries the magic of an
  earlier session, the release store that clears it does not hold back the stores that
  follow. A subscriber may have seen the reset of a ring index before it sees the cleared
  magic; it then accepts a region whose rings are in the middle of the reset.
\<close>

theorem stale_region_race:
  "\<exists>g g' seen. axivc_region_init_publisher g 20480 7 = (OK, g') \<and>
    release_ok (axivc_region_init_stores (g_publisher_id g) (g_key g)) seen \<and>
    (let v = see (axivc_region_init_stores (g_publisher_id g) (g_key g)) seen g in
      axivc_region_validate v 20480 1 7 = OK \<and> ring_wf (g_publisher_to_subscriber g) \<and>
      ring_contents (g_publisher_to_subscriber g) = [] \<and> \<not> ring_wf (g_publisher_to_subscriber v))"
proof -
  let ?r = "wrap_ring\<lparr>r_head := 100, r_tail := 100\<rparr>"
  define g where "g = (snd (axivc_region_init_publisher (fresh_region 1 7) 20480 7))
    \<lparr>g_publisher_to_subscriber := ?r\<rparr>"
  let ?seen = "(replicate 23 False)[6 := True]"
  have g: "g_publisher_id g = 1" "g_key g = 7" "g_publisher_to_subscriber g = ?r"
    by (simp_all add: g_def fresh_init init_fields)
  have ok: "release_ok (axivc_region_init_stores 1 7) ?seen"
    by (auto simp: release_ok_def length_init_stores nth_list_update split: if_splits)
      (simp add: init_stores_defs)
  have v: "see (axivc_region_init_stores 1 7) ?seen g = g\<lparr>g_publisher_to_subscriber := ?r\<lparr>r_head := 0\<rparr>\<rparr>"
    using g(3) by (simp add: init_stores_defs eval_nat_numeral(3) replicate_Suc numeral_eq_Suc)
  have "region_compatible (g\<lparr>g_publisher_to_subscriber := ?r\<lparr>r_head := 0\<rparr>\<rparr>)"
    using init_compatible[of 1 7 "fresh_region 1 7"]
    by (simp add: region_compatible_def g_def fresh_init ring_compatible_def wrap_ring_def)
  moreover have "ring_wf ?r" "ring_contents ?r = []" "\<not> ring_wf (?r\<lparr>r_head := 0\<rparr>)"
    using wrap_ring_wf
    by (simp_all add: ring_wf_def ring_layout_def ring_used_def ring_contents_def ring_consts wrap_ring_def)
  moreover have "h_magic (g_header g) = AXIVC_REGION_MAGIC"
    by (simp add: g_def fresh_init init_fields)
  ultimately show ?thesis
    using ok g v
    by (intro exI[of _ g] exI[of _ "fold snd (axivc_region_init_stores 1 7) g"] exI[of _ ?seen])
      (simp add: validate_eq axivc_region_init_publisher_def layout_values)
qed

text \<open>
  C36. The publisher's reset and the subscriber's validation agree. The reset is refused
  without touching the region when the mapping is smaller than the layout (EINVAL) or the
  channel key is not the one the hypervisor wrote (EPROTO). Otherwise it succeeds, keeps the
  channel identity, leaves two empty well-formed rings, and the result passes validation for
  exactly the identity it carries and every mapping that holds the layout.
\<close>

theorem region_init_then_validate:
  "case axivc_region_init_publisher g shm_size key of
    (Some e, g') \<Rightarrow> g' = g \<and> (e = EINVAL \<and> shm_size < 17152 \<or> e = EPROTO \<and> 17152 \<le> shm_size \<and> g_key g \<noteq> key)
  | (None, g') \<Rightarrow> 17152 \<le> shm_size \<and> g_key g = key \<and>
      g_publisher_id g' = g_publisher_id g \<and> g_key g' = g_key g \<and>
      ring_wf (g_publisher_to_subscriber g') \<and> ring_contents (g_publisher_to_subscriber g') = [] \<and>
      ring_wf (g_subscriber_to_publisher g') \<and> ring_contents (g_subscriber_to_publisher g') = [] \<and>
      (axivc_region_validate g' map_size p k = OK \<longleftrightarrow>
        17152 \<le> map_size \<and> p = g_publisher_id g \<and> k = g_key g)"
  using init_compatible[of "g_publisher_id g" "g_key g" g]
  by (auto simp: axivc_region_init_publisher_def layout_values validate_eq Let_def not_less
      ring_initialize_wf ring_initialize_empty init_fields)

theorem region_init_then_validate_witness:
  "axivc_region_validate (snd (axivc_region_init_publisher (fresh_region 1 7) 20480 7)) 17152 1 7 = OK"
  using region_init_then_validate[where g = "fresh_region 1 7" and shm_size = 20480 and key = 7
      and map_size = 17152 and p = 1 and k = 7] fresh_init
  by (simp add: fresh_region_def)

text \<open>
  C37. The layout the compile-time assertions demand is the one the C layout rules give for
  the declared structs, and it keeps the promise made for it: with a page-aligned base every
  slot of either ring lies inside the region, is 256-byte aligned, and lies within one 4 KiB
  page; slots of the two rings never overlap.
\<close>

theorem region_layout_abi:
  "axivc_ring_check_layout \<and> axivc_region_check_layout \<and>
    (\<forall>base n i ring_off. 4096 dvd base \<and> i < AXIVC_RING_CAPACITY \<and>
      ring_off \<in> {offsetof_publisher_to_subscriber, offsetof_subscriber_to_publisher} \<and>
      n = base + ring_off + offsetof_slots + i * AXIVC_SLOT_SIZE \<longrightarrow>
        n + AXIVC_SLOT_SIZE \<le> base + sizeof_axivc_region \<and> 256 dvd n \<and>
        n div 4096 = (n + AXIVC_SLOT_SIZE - 1) div 4096) \<and>
    offsetof_publisher_to_subscriber + sizeof_axivc_ring \<le> offsetof_subscriber_to_publisher"
proof -
  have "n div 4096 = (n + 255) div 4096" if "256 dvd n" for n :: nat
  proof -
    from that obtain m where "n = 256 * m" by (elim dvdE)
    then have "n div 4096 = m div 16" "(n + 255) div 4096 = (256 * m + 255) div 256 div 16"
      by (simp_all add: div_mult2_eq[symmetric])
    then show ?thesis by simp
  qed
  moreover have "256 dvd base + (ring_off + 256 + i * 256)"
    if "4096 dvd base" "ring_off \<in> {256, 8704}" for base ring_off i :: nat
  proof -
    have "(256 :: nat) dvd base" using that(1) by (rule dvd_trans[rotated]) simp
    moreover have "(256 :: nat) dvd ring_off + 256 + i * 256" using that(2) by auto
    ultimately show ?thesis by (rule dvd_add)
  qed
  ultimately show ?thesis
    by (auto simp: axivc_ring_check_layout_def axivc_region_check_layout_def layout_values ring_consts add.assoc)
qed

theorem region_layout_abi_witness:
  "(4096 :: nat) dvd 8192 \<and> 3 < AXIVC_RING_CAPACITY \<and>
    256 dvd (8192 + offsetof_publisher_to_subscriber + offsetof_slots + 3 * AXIVC_SLOT_SIZE)"
  using region_layout_abi by (simp add: ring_consts layout_values)

end
