(* ===== verification/Axivc_App_Proto.thy ===== *)
theory Axivc_App_Proto
  imports Axivc_Sender
begin

text \<open>
  The demo application protocol of \<^verbatim>\<open>demo/app_proto.c\<close>: an 11-byte header (kind, sequence
  number, body length) and a body that is a deterministic pattern or a text. A pointer that
  the code compares with NULL is an option; a C enum is the integer it is stored as.
\<close>

section \<open>Operations\<close>

definition IVC_APP_HEADER_LEN :: nat where "IVC_APP_HEADER_LEN = 11"
definition IVC_APP_MAX_MESSAGE_LEN :: nat where "IVC_APP_MAX_MESSAGE_LEN = 7484"
definition IVC_APP_REQUEST_COUNT :: nat where "IVC_APP_REQUEST_COUNT = 5"
definition IVC_APP_DATA_COUNT :: nat where "IVC_APP_DATA_COUNT = 3"
definition UINT16_MAX :: nat where "UINT16_MAX = 65535"
definition SIZE_MAX :: nat where "SIZE_MAX = 2 ^ 64 - 1"

definition ivc_app_request_lengths :: "nat list" where
  "ivc_app_request_lengths = [231, 232, 233, 7424, 7484]"

definition ivc_app_data_lengths :: "nat list" where
  "ivc_app_data_lengths = [233, 7425, 7484]"

type_synonym ivc_app_message_kind = u32

definition IVC_APP_MESSAGE_REQUEST :: ivc_app_message_kind where "IVC_APP_MESSAGE_REQUEST = 1"
definition IVC_APP_MESSAGE_ACK :: ivc_app_message_kind where "IVC_APP_MESSAGE_ACK = 2"
definition IVC_APP_MESSAGE_DATA :: ivc_app_message_kind where "IVC_APP_MESSAGE_DATA = 3"

lemmas app_consts = IVC_APP_HEADER_LEN_def IVC_APP_MAX_MESSAGE_LEN_def UINT16_MAX_def SIZE_MAX_def
lemmas kind_consts = IVC_APP_MESSAGE_REQUEST_def IVC_APP_MESSAGE_ACK_def IVC_APP_MESSAGE_DATA_def

record ivc_app_message =
  am_kind :: ivc_app_message_kind
  am_sequence :: u64
  am_body :: bytes
  am_body_len :: nat

definition ivc_app_kind_is_valid :: "ivc_app_message_kind \<Rightarrow> bool" where
  "ivc_app_kind_is_valid kind \<longleftrightarrow> kind = IVC_APP_MESSAGE_REQUEST \<or> kind = IVC_APP_MESSAGE_ACK \<or>
    kind = IVC_APP_MESSAGE_DATA"

definition ivc_app_write_le16 :: "nat \<Rightarrow> u16 \<Rightarrow> bytes \<Rightarrow> bytes" where
  "ivc_app_write_le16 off value output = output[off := ucast value, off + 1 := ucast (drop_bit 8 value)]"

definition ivc_app_write_le64 :: "nat \<Rightarrow> u64 \<Rightarrow> bytes \<Rightarrow> bytes" where
  "ivc_app_write_le64 off value output =
    fold (\<lambda>index out. out[off + index := ucast (drop_bit (index * 8) value)]) [0..<8] output"

definition ivc_app_read_le16 :: "bytes \<Rightarrow> u16" where
  "ivc_app_read_le16 input = ucast (input ! 0) OR push_bit 8 (ucast (input ! 1))"

definition ivc_app_read_le64 :: "bytes \<Rightarrow> u64" where
  "ivc_app_read_le64 input =
    fold (\<lambda>index value. value OR push_bit (index * 8) (ucast (input ! index))) [0..<8] 0"

definition ivc_app_encode_header :: "bytes \<Rightarrow> ivc_app_message_kind \<Rightarrow> u64 \<Rightarrow> u16 \<Rightarrow> bytes" where
  "ivc_app_encode_header payload kind sequence body_len =
    ivc_app_write_le16 9 body_len (ivc_app_write_le64 1 sequence (payload[0 := ucast kind]))"

definition ivc_app_pattern_byte :: "ivc_app_message_kind \<Rightarrow> u64 \<Rightarrow> nat \<Rightarrow> u8" where
  "ivc_app_pattern_byte kind sequence index =
    (let pattern_index :: u8 = ucast
       (ucast (of_nat index :: u8) + ucast (ucast sequence :: u8) + ucast (ucast kind :: u8) * 7 :: u32)
     in ucast (97 + ucast pattern_index mod 26 :: u32))"

definition ivc_app_encode_pattern ::
  "bytes option \<Rightarrow> nat \<Rightarrow> ivc_app_message_kind \<Rightarrow> u64 \<Rightarrow> bool \<times> bytes option" where
  "ivc_app_encode_pattern payload payload_len kind sequence =
    (case payload of
      None \<Rightarrow> (False, payload)
    | Some buf \<Rightarrow>
      if \<not> ivc_app_kind_is_valid kind \<or> payload_len < IVC_APP_HEADER_LEN then (False, payload)
      else let body_len = payload_len - IVC_APP_HEADER_LEN in
        if body_len > UINT16_MAX then (False, payload)
        else let buf = ivc_app_encode_header buf kind sequence (of_nat body_len)
          in (True, Some (fold (\<lambda>index p.
               p[IVC_APP_HEADER_LEN + index := ivc_app_pattern_byte kind sequence index]) [0..<body_len] buf)))"

definition ivc_app_encode_text ::
  "bytes option \<Rightarrow> nat \<Rightarrow> ivc_app_message_kind \<Rightarrow> u64 \<Rightarrow> bytes option \<Rightarrow> nat \<Rightarrow> nat option \<Rightarrow>
    bool \<times> bytes option \<times> nat option" where
  "ivc_app_encode_text payload payload_capacity kind sequence body body_len message_len =
    (if payload = None \<or> message_len = None \<or> \<not> ivc_app_kind_is_valid kind \<or> body_len > UINT16_MAX \<or>
       (body_len > 0 \<and> body = None) then (False, payload, message_len)
     else if body_len > SIZE_MAX - IVC_APP_HEADER_LEN then (False, payload, message_len)
     else let required = IVC_APP_HEADER_LEN + body_len in
       if required > payload_capacity then (False, payload, message_len)
       else let buf = ivc_app_encode_header (the payload) kind sequence (of_nat body_len);
                buf = (if body_len > 0 then memcpy_at IVC_APP_HEADER_LEN (take body_len (the body)) buf else buf)
         in (True, Some buf, Some required))"

definition ivc_app_decode ::
  "bytes option \<Rightarrow> nat \<Rightarrow> ivc_app_message option \<Rightarrow> bool \<times> ivc_app_message option" where
  "ivc_app_decode payload payload_len message =
    (if payload = None \<or> message = None \<or> payload_len < IVC_APP_HEADER_LEN then (False, message)
     else let p = the payload; kind = ucast (p ! 0) in
       if \<not> ivc_app_kind_is_valid kind then (False, message)
       else let body_len = unat (ivc_app_read_le16 (drop 9 p)) in
         if body_len \<noteq> payload_len - IVC_APP_HEADER_LEN then (False, message)
         else (True, Some \<lparr>am_kind = kind, am_sequence = ivc_app_read_le64 (drop 1 p),
           am_body = drop IVC_APP_HEADER_LEN p, am_body_len = body_len\<rparr>))"

definition ivc_app_validate_pattern ::
  "ivc_app_message option \<Rightarrow> ivc_app_message_kind \<Rightarrow> u64 \<Rightarrow> nat \<Rightarrow> bool" where
  "ivc_app_validate_pattern message expected_kind expected_sequence expected_len =
    (case message of
      None \<Rightarrow> False
    | Some m \<Rightarrow>
      if am_kind m \<noteq> expected_kind \<or> am_sequence m \<noteq> expected_sequence \<or>
         expected_len < IVC_APP_HEADER_LEN \<or> am_body_len m \<noteq> expected_len - IVC_APP_HEADER_LEN then False
      else list_all (\<lambda>index. am_body m ! index = ivc_app_pattern_byte expected_kind expected_sequence index)
        [0..<am_body_len m])"

definition ascii :: "string \<Rightarrow> bytes" where
  "ascii s = map (\<lambda>c. of_nat (of_char c)) s"

definition arceos_ack :: bytes where "arceos_ack = ascii ''ack from arceos subscriber''"
definition linux_ack :: bytes where "linux_ack = ascii ''ack from linux subscriber''"

definition ivc_app_ack_body_is_valid :: "bytes option \<Rightarrow> nat \<Rightarrow> bool" where
  "ivc_app_ack_body_is_valid body body_len =
    (case body of
      None \<Rightarrow> False
    | Some b \<Rightarrow> body_len = length arceos_ack \<and> take body_len b = arceos_ack \<or>
        body_len = length linux_ack \<and> take body_len b = linux_ack)"

section \<open>The codec in closed form\<close>

lemma memcpy_at_update: "off < length buf \<Longrightarrow> buf[off := x] = memcpy_at off [x] buf"
  by (simp add: memcpy_at_def upd_conv_take_nth_drop)

lemma write_fold:
  "off + n \<le> length buf \<Longrightarrow>
    fold (\<lambda>index out. out[off + index := f index]) [0..<n] buf = memcpy_at off (map f [0..<n]) buf"
proof (induction n)
  case (Suc n)
  then show ?case
    using memcpy_at_append[of off "map f [0..<n]" "[f n]" buf]
    by (simp add: memcpy_at_update)
qed simp

lemma app_write_le16: "off + 2 \<le> length buf \<Longrightarrow> ivc_app_write_le16 off v buf = memcpy_at off (le16 v) buf"
  using memcpy_at_append[of off "[ucast v]" "[ucast (drop_bit 8 v)]" buf]
  by (simp add: ivc_app_write_le16_def memcpy_at_update le16_ucast)

lemma le64_bytes: "le64 v = map (\<lambda>index. ucast (drop_bit (index * 8) v)) [0..<8]"
proof -
  have lo: "(ucast (drop_bit n (ucast (take_bit 32 v) :: u32)) :: u8) = ucast (drop_bit n v)" if "n \<le> 24" for n
    using that by (intro bit_word_eqI) (auto simp: bit_simps)
  have hi: "(ucast (drop_bit n (ucast (drop_bit 32 v) :: u32)) :: u8) = ucast (drop_bit (32 + n) v)"
    if "n \<le> 24" for n
    using that by (intro bit_word_eqI) (auto simp: bit_simps ac_simps)
  show ?thesis
    using lo[of 0] lo[of 8] lo[of 16] lo[of 24] hi[of 0] hi[of 8] hi[of 16] hi[of 24]
    by (simp add: le64_def le32_ucast and_0xffffffff upt_rec)
qed

lemma app_write_le64: "off + 8 \<le> length buf \<Longrightarrow> ivc_app_write_le64 off v buf = memcpy_at off (le64 v) buf"
  by (simp only: ivc_app_write_le64_def write_fold le64_bytes)

text \<open>The application and the kernel driver read integers alike.\<close>

lemma app_read_le16: "ivc_app_read_le16 p = axivc_read_le16 p"
  by (simp add: ivc_app_read_le16_def axivc_read_le16_def)

lemma app_read_le64: "8 \<le> length p \<Longrightarrow> ivc_app_read_le64 p = axivc_read_le64 p"
proof -
  assume len: "8 \<le> length p"
  have idx: "[0..<8] = [0, 1, 2, 3, 4, 5, 6, 7 :: nat]" by (simp add: upt_conv_Cons)
  have split: "push_bit 32 (ucast (push_bit n (ucast b :: u32)) :: u64) = push_bit (32 + n) (ucast b)"
      "(ucast (push_bit n (ucast b :: u32)) :: u64) = push_bit n (ucast b)"
    if "n \<le> 24" for n and b :: u8
    using that by (auto intro!: bit_word_eqI simp: bit_simps) (auto dest!: bit_imp_le_length)
  show ?thesis
    using split[of 0] split[of 8] split[of 16] split[of 24]
    using len
    by (simp add: ivc_app_read_le64_def axivc_read_le64_def axivc_read_le32_def idx
        unsigned_or_eq ac_simps push_bit_or)
qed

definition app_header :: "ivc_app_message_kind \<Rightarrow> u64 \<Rightarrow> nat \<Rightarrow> bytes" where
  "app_header kind sequence body_len = [ucast kind] @ le64 sequence @ le16 (of_nat body_len)"

lemma length_app_header [simp]: "length (app_header k s n) = IVC_APP_HEADER_LEN"
  by (simp add: app_header_def app_consts)

lemma encode_header_eq:
  assumes "IVC_APP_HEADER_LEN \<le> length buf"
  shows "ivc_app_encode_header buf k s (of_nat n) = app_header k s n @ drop IVC_APP_HEADER_LEN buf"
proof -
  have "buf[0 := ucast k] = memcpy_at 0 [ucast k] buf"
    using assms by (intro memcpy_at_update) (auto simp: app_consts)
  then have "ivc_app_encode_header buf k s (of_nat n) = memcpy_at 0 ([ucast k] @ le64 s @ le16 (of_nat n)) buf"
    using assms memcpy_at_append[of 0 "[ucast k]" "le64 s" buf]
      memcpy_at_append[of 0 "[ucast k] @ le64 s" "le16 (of_nat n)" buf]
    by (simp add: ivc_app_encode_header_def app_write_le16 app_write_le64 app_consts)
  then show ?thesis by (simp add: app_header_def memcpy_at_def app_consts)
qed

definition pattern_body :: "ivc_app_message_kind \<Rightarrow> u64 \<Rightarrow> nat \<Rightarrow> bytes" where
  "pattern_body k s n = map (ivc_app_pattern_byte k s) [0..<n]"

lemma length_pattern_body [simp]: "length (pattern_body k s n) = n"
  by (simp add: pattern_body_def)

lemma encode_pattern_eq:
  assumes "n \<le> length buf"
  shows "ivc_app_encode_pattern (Some buf) n k s =
    (if ivc_app_kind_is_valid k \<and> IVC_APP_HEADER_LEN \<le> n \<and> n - IVC_APP_HEADER_LEN \<le> UINT16_MAX
     then (True, Some (app_header k s (n - IVC_APP_HEADER_LEN) @ pattern_body k s (n - IVC_APP_HEADER_LEN) @ drop n buf))
     else (False, Some buf))"
proof (cases "IVC_APP_HEADER_LEN \<le> n")
  case True
  then have "fold (\<lambda>index p. p[IVC_APP_HEADER_LEN + index := ivc_app_pattern_byte k s index])
      [0..<n - IVC_APP_HEADER_LEN] (app_header k s (n - IVC_APP_HEADER_LEN) @ drop IVC_APP_HEADER_LEN buf) =
    app_header k s (n - IVC_APP_HEADER_LEN) @ pattern_body k s (n - IVC_APP_HEADER_LEN) @ drop n buf"
    using assms by (subst write_fold) (simp_all add: memcpy_at_def pattern_body_def)
  with True assms show ?thesis
    by (simp add: ivc_app_encode_pattern_def encode_header_eq Let_def del: of_nat_diff)
qed (simp add: ivc_app_encode_pattern_def)

lemma encode_text_eq:
  assumes "cap \<le> length buf" "length body = n"
  shows "ivc_app_encode_text (Some buf) cap k s (Some body) n (Some m) =
    (if ivc_app_kind_is_valid k \<and> n \<le> UINT16_MAX \<and> IVC_APP_HEADER_LEN + n \<le> cap
     then (True, Some (app_header k s n @ body @ drop (IVC_APP_HEADER_LEN + n) buf), Some (IVC_APP_HEADER_LEN + n))
     else (False, Some buf, Some m))"
  using assms
  by (auto simp: ivc_app_encode_text_def encode_header_eq memcpy_at_def Let_def app_consts add.commute)

lemma kind_valid_byte: "ivc_app_kind_is_valid k \<Longrightarrow> ucast (ucast k :: u8) = k"
  by (auto simp: ivc_app_kind_is_valid_def kind_consts)

lemma app_header_fields:
  "(app_header k s n @ rest) ! 0 = ucast k" "drop 1 (app_header k s n @ rest) = le64 s @ le16 (of_nat n) @ rest"
  "drop 9 (app_header k s n @ rest) = le16 (of_nat n) @ rest"
  "drop IVC_APP_HEADER_LEN (app_header k s n @ rest) = rest"
  by (simp_all add: app_header_def app_consts)

lemma decode_header_eq:
  assumes "ivc_app_kind_is_valid k" "n \<le> UINT16_MAX"
  shows "ivc_app_decode (Some (app_header k s n @ rest)) (IVC_APP_HEADER_LEN + n) (Some m) =
    (True, Some \<lparr>am_kind = k, am_sequence = s, am_body = rest, am_body_len = n\<rparr>)"
proof -
  have "unat (of_nat n :: u16) = n"
    using assms(2) by (simp add: unat_of_nat take_bit_nat_eq_self app_consts)
  moreover have "ivc_app_read_le64 (le64 s @ le16 (of_nat n) @ rest) = s"
    by (simp add: app_read_le64)
  ultimately show ?thesis
    using assms(1)
    by (simp add: ivc_app_decode_def app_header_fields kind_valid_byte app_read_le16 Let_def
        del: drop_append One_nat_def)
qed

text \<open>Every payload that decodes starts with the header of what was decoded.\<close>

lemma decode_inv:
  assumes "ivc_app_decode (Some p) (length p) (Some old) = (True, Some m)"
  shows "p = app_header (am_kind m) (am_sequence m) (am_body_len m) @ am_body m"
    "am_body_len m = length (am_body m)" "am_body_len m \<le> UINT16_MAX" "ivc_app_kind_is_valid (am_kind m)"
proof -
  from assms have len: "IVC_APP_HEADER_LEN \<le> length p"
    and k: "ivc_app_kind_is_valid (ucast (p ! 0))"
    and n: "unat (ivc_app_read_le16 (drop 9 p)) = length p - IVC_APP_HEADER_LEN"
    and m: "m = \<lparr>am_kind = ucast (p ! 0), am_sequence = ivc_app_read_le64 (drop 1 p),
      am_body = drop IVC_APP_HEADER_LEN p, am_body_len = unat (ivc_app_read_le16 (drop 9 p))\<rparr>"
    by (auto simp: ivc_app_decode_def Let_def split: if_splits)
  have le: "le64 (ivc_app_read_le64 (drop 1 p)) = take 8 (drop 1 p)"
    using len by (simp add: app_read_le64 le64_read app_consts)
  have "(of_nat (unat (ivc_app_read_le16 (drop 9 p))) :: u16) = axivc_read_le16 (drop 9 p)"
    by (simp add: app_read_le16)
  then have "le16 (of_nat (am_body_len m)) = take 2 (drop 9 p)"
    using len by (simp add: m le16_read app_consts)
  moreover have "ucast (ucast (p ! 0) :: u32) = p ! 0" by (rule bit_word_eqI) (simp add: bit_simps)
  moreover have "p = [p ! 0] @ take 8 (drop 1 p) @ take 2 (drop 9 p) @ drop 11 p"
  proof -
    have "p = take 1 p @ take 8 (drop 1 p) @ take 2 (drop 9 p) @ drop 11 p"
      by (metis append_take_drop_id drop_drop numeral_plus_numeral one_plus_numeral_commute
          semiring_norm(2) semiring_norm(4) semiring_norm(3) one_plus_numeral semiring_norm(5))
    moreover have "take 1 p = [p ! 0]" using len by (cases p) (auto simp: app_consts)
    ultimately show ?thesis by simp
  qed
  ultimately show "p = app_header (am_kind m) (am_sequence m) (am_body_len m) @ am_body m"
    using le by (simp add: app_header_def m app_consts)
  show "am_body_len m = length (am_body m)" using n by (simp add: m)
  show "am_body_len m \<le> UINT16_MAX"
    using unsigned_less[of "ivc_app_read_le16 (drop 9 p)", where ?'a = nat] by (simp add: m app_consts)
  show "ivc_app_kind_is_valid (am_kind m)" using k by (simp add: m)
qed

lemma validate_pattern_eq:
  "ivc_app_validate_pattern (Some m) k s n \<longleftrightarrow> am_kind m = k \<and> am_sequence m = s \<and> IVC_APP_HEADER_LEN \<le> n \<and>
    am_body_len m = n - IVC_APP_HEADER_LEN \<and>
    (\<forall>i<am_body_len m. am_body m ! i = ivc_app_pattern_byte k s i)"
  by (auto simp: ivc_app_validate_pattern_def list_all_iff)

section \<open>Properties\<close>

text \<open>
  C38. A receiver that decodes and validates a payload against an expected kind, sequence
  number and length accepts exactly one byte string: the one the sender's pattern encoder
  produces for them. Every single wrong byte, wrong field or wrong length is rejected.
\<close>

theorem pattern_accepted_iff_encoded:
  assumes "ivc_app_kind_is_valid k" "IVC_APP_HEADER_LEN \<le> n" "n - IVC_APP_HEADER_LEN \<le> UINT16_MAX"
    and "length p = n" "length buf = n"
  shows "(case ivc_app_decode (Some p) n (Some old) of (ok, m) \<Rightarrow> ok \<and> ivc_app_validate_pattern m k s n) \<longleftrightarrow>
    ivc_app_encode_pattern (Some buf) n k s = (True, Some p)"
proof -
  let ?b = "n - IVC_APP_HEADER_LEN"
  have enc: "ivc_app_encode_pattern (Some buf) n k s = (True, Some (app_header k s ?b @ pattern_body k s ?b))"
    using assms by (simp add: encode_pattern_eq)
  show ?thesis
  proof
    assume ok: "case ivc_app_decode (Some p) n (Some old) of (ok, m) \<Rightarrow> ok \<and> ivc_app_validate_pattern m k s n"
    then obtain m where m: "ivc_app_decode (Some p) (length p) (Some old) = (True, Some m)"
        "ivc_app_validate_pattern (Some m) k s n"
      using assms(4) by (cases "ivc_app_decode (Some p) n (Some old)"; cases "snd (ivc_app_decode (Some p) n (Some old))")
        (auto simp: ivc_app_validate_pattern_def)
    note inv = decode_inv[OF m(1)]
    have "am_body m = pattern_body k s ?b"
      using m(2) inv(2) by (intro nth_equalityI) (auto simp: validate_pattern_eq pattern_body_def)
    then have "p = app_header k s ?b @ pattern_body k s ?b"
      using inv(1) m(2) by (simp add: validate_pattern_eq)
    then show "ivc_app_encode_pattern (Some buf) n k s = (True, Some p)" using enc by simp
  next
    assume "ivc_app_encode_pattern (Some buf) n k s = (True, Some p)"
    then have "p = app_header k s ?b @ pattern_body k s ?b" using enc by simp
    then show "case ivc_app_decode (Some p) n (Some old) of (ok, m) \<Rightarrow> ok \<and> ivc_app_validate_pattern m k s n"
      using decode_header_eq[OF assms(1,3), of s "pattern_body k s ?b" old] assms(2)
      by (simp add: validate_pattern_eq pattern_body_def)
  qed
qed

theorem pattern_accepted_iff_encoded_witness:
  "ivc_app_kind_is_valid IVC_APP_MESSAGE_DATA \<and>
    ivc_app_encode_pattern (Some (replicate 14 0)) 14 IVC_APP_MESSAGE_DATA 2 =
      (True, Some [3, 2, 0, 0, 0, 0, 0, 0, 0, 3, 0, 120, 121, 122]) \<and>
    (case ivc_app_decode (Some [3, 2, 0, 0, 0, 0, 0, 0, 0, 3, 0, 120, 121, 122]) 14
        (Some \<lparr>am_kind = 0, am_sequence = 0, am_body = [], am_body_len = 0\<rparr>) of
      (ok, m) \<Rightarrow> ok \<and> ivc_app_validate_pattern m IVC_APP_MESSAGE_DATA 2 14) \<and>
    \<not> (case ivc_app_decode (Some [3, 2, 0, 0, 0, 0, 0, 0, 0, 3, 0, 120, 121, 121]) 14
        (Some \<lparr>am_kind = 0, am_sequence = 0, am_body = [], am_body_len = 0\<rparr>) of
      (ok, m) \<Rightarrow> ok \<and> ivc_app_validate_pattern m IVC_APP_MESSAGE_DATA 2 14)"
proof -
  have k: "ivc_app_kind_is_valid IVC_APP_MESSAGE_DATA" by (simp add: ivc_app_kind_is_valid_def)
  have enc: "ivc_app_encode_pattern (Some (replicate 14 0)) 14 IVC_APP_MESSAGE_DATA 2 =
      (True, Some [3, 2, 0, 0, 0, 0, 0, 0, 0, 3, 0, 120, 121, 122])"
    using k by (simp add: encode_pattern_eq app_consts app_header_def le64_bytes le16_ucast pattern_body_def
        ivc_app_pattern_byte_def kind_consts upt_conv_Cons)
  show ?thesis
    using pattern_accepted_iff_encoded[OF k, of 14 "[3, 2, 0, 0, 0, 0, 0, 0, 0, 3, 0, 120, 121, 122]" "replicate 14 0"]
      pattern_accepted_iff_encoded[OF k, of 14 "[3, 2, 0, 0, 0, 0, 0, 0, 0, 3, 0, 120, 121, 121]" "replicate 14 0"]
      k enc by (simp add: app_consts)
qed

text \<open>
  C39. Text messages survive the round trip. The text encoder succeeds exactly for a valid
  kind, a body of at most 65535 bytes and a buffer that holds header and body; what it wrote
  decodes to the same kind, sequence number and body. The decoder accepts a payload exactly
  when it is the header of a message followed by its body.
\<close>

theorem text_round_trip:
  assumes "length body = n" "cap \<le> length buf"
  shows "(case ivc_app_encode_text (Some buf) cap k s (Some body) n (Some l) of
      (True, buf', l') \<Rightarrow> l' = Some (IVC_APP_HEADER_LEN + n) \<and>
        ivc_app_decode (map_option (take (IVC_APP_HEADER_LEN + n)) buf') (IVC_APP_HEADER_LEN + n) (Some old) =
          (True, Some \<lparr>am_kind = k, am_sequence = s, am_body = body, am_body_len = n\<rparr>)
    | (False, buf', l') \<Rightarrow> buf' = Some buf \<and> l' = Some l \<and>
        (\<not> ivc_app_kind_is_valid k \<or> n > UINT16_MAX \<or> IVC_APP_HEADER_LEN + n > cap)) \<and>
    (fst (ivc_app_decode (Some p) (length p) (Some old)) \<longleftrightarrow>
      (\<exists>k s b. ivc_app_kind_is_valid k \<and> length b \<le> UINT16_MAX \<and> p = app_header k s (length b) @ b))"
proof
  show "case ivc_app_encode_text (Some buf) cap k s (Some body) n (Some l) of
      (True, buf', l') \<Rightarrow> l' = Some (IVC_APP_HEADER_LEN + n) \<and>
        ivc_app_decode (map_option (take (IVC_APP_HEADER_LEN + n)) buf') (IVC_APP_HEADER_LEN + n) (Some old) =
          (True, Some \<lparr>am_kind = k, am_sequence = s, am_body = body, am_body_len = n\<rparr>)
    | (False, buf', l') \<Rightarrow> buf' = Some buf \<and> l' = Some l \<and>
        (\<not> ivc_app_kind_is_valid k \<or> n > UINT16_MAX \<or> IVC_APP_HEADER_LEN + n > cap)"
    using assms decode_header_eq[of k n s body old] by (auto simp: encode_text_eq not_le)
  show "fst (ivc_app_decode (Some p) (length p) (Some old)) \<longleftrightarrow>
      (\<exists>k s b. ivc_app_kind_is_valid k \<and> length b \<le> UINT16_MAX \<and> p = app_header k s (length b) @ b)"
  proof
    assume "fst (ivc_app_decode (Some p) (length p) (Some old))"
    then obtain m where "ivc_app_decode (Some p) (length p) (Some old) = (True, Some m)"
      by (auto simp: ivc_app_decode_def Let_def split: if_splits)
    from decode_inv[OF this] show "\<exists>k s b. ivc_app_kind_is_valid k \<and> length b \<le> UINT16_MAX \<and>
        p = app_header k s (length b) @ b" by metis
  qed (auto simp: decode_header_eq)
qed

theorem text_round_trip_witness:
  "length (linux_ack) = 25 \<and> (36 :: nat) \<le> length (replicate 36 (0 :: u8)) \<and>
    fst (ivc_app_encode_text (Some (replicate 36 0)) 36 IVC_APP_MESSAGE_ACK 4 (Some linux_ack) 25 (Some 0)) \<and>
    ivc_app_ack_body_is_valid (Some linux_ack) 25"
proof -
  have l: "length linux_ack = 25" by (simp add: linux_ack_def ascii_def)
  have "fst (ivc_app_encode_text (Some (replicate 36 0)) 36 IVC_APP_MESSAGE_ACK 4 (Some linux_ack) 25 (Some 0))"
    using text_round_trip[OF l, where cap = 36 and buf = "replicate 36 0" and k = IVC_APP_MESSAGE_ACK and s = 4 and l = 0
        and old = "\<lparr>am_kind = 0, am_sequence = 0, am_body = [], am_body_len = 0\<rparr>" and p = "[]", THEN conjunct1]
    by (cases "ivc_app_encode_text (Some (replicate 36 0)) 36 IVC_APP_MESSAGE_ACK 4 (Some linux_ack) 25 (Some 0)")
      (auto simp: ivc_app_kind_is_valid_def app_consts split: bool.splits)
  then show ?thesis using l by (simp add: ivc_app_ack_body_is_valid_def)
qed

lemma length_chunks: "length (chunks xs) = (length xs + 231) div 232"
proof (induction xs rule: chunks.induct)
  case (1 xs)
  show ?case
  proof (cases "xs = []")
    case False
    with 1 have "length (chunks xs) = Suc ((length xs - 232 + 231) div 232)"
      by (simp add: chunks_step wire_consts)
    also have "\<dots> = (length xs + 231) div 232"
      using False by (cases "length xs \<le> 232") (auto simp: div_if Suc_diff_le not_le)
    finally show ?thesis .
  qed simp
qed

text \<open>
  The demo's message lengths meet the boundaries they are meant to exercise. Every
  listed length can be encoded and fits the buffers; the requests take 1, 1, 2, 32 and 33
  slots and the data messages 2, 33 and 33: one full fragment and one byte around it, exactly
  one full ring, and more than a ring holds.
\<close>

theorem demo_lengths_hit_boundaries:
  "list_all (\<lambda>n. IVC_APP_HEADER_LEN \<le> n \<and> n \<le> IVC_APP_MAX_MESSAGE_LEN \<and>
      fst (ivc_app_encode_pattern (Some (replicate IVC_APP_MAX_MESSAGE_LEN 0)) n IVC_APP_MESSAGE_REQUEST 1))
    (ivc_app_request_lengths @ ivc_app_data_lengths) \<and>
    map (\<lambda>n. length (chunks (replicate n 0))) ivc_app_request_lengths = [1, 1, 2, AXIVC_RING_CAPACITY, AXIVC_RING_CAPACITY + 1] \<and>
    map (\<lambda>n. length (chunks (replicate n 0))) ivc_app_data_lengths = [2, AXIVC_RING_CAPACITY + 1, AXIVC_RING_CAPACITY + 1]"
  by (simp add: ivc_app_request_lengths_def ivc_app_data_lengths_def encode_pattern_eq app_consts length_chunks
      ring_consts ivc_app_kind_is_valid_def)

end
