(* ===== verification/Axivc_Hvc.thy ===== *)
theory Axivc_Hvc
  imports Axivc_Prelude
begin

text \<open>
  The hypercall wrappers of \<^verbatim>\<open>ivc/hvc.c\<close> and the address translation of
  \<^verbatim>\<open>ivc/includes/utils.h\<close>. The trap to the hypervisor (the \<open>hvc #0\<close> instruction, on the
  registers x0 to x6) and the address translation instruction are arguments.
\<close>

section \<open>Hypercalls\<close>

datatype hvc_fid =
  HIVCPublishChannel | HIVCSubscribChannel | HIVCUnPublishChannel | HIVCUnSubscribChannel | HIVCNotify

fun hvc_code :: "hvc_fid \<Rightarrow> u64" where
  "hvc_code HIVCPublishChannel = 3"
| "hvc_code HIVCSubscribChannel = 4"
| "hvc_code HIVCUnPublishChannel = 5"
| "hvc_code HIVCUnSubscribChannel = 6"
| "hvc_code HIVCNotify = 7"

text \<open>The trap takes the registers x0 to x6 and returns x0.\<close>

type_synonym 'w hvc_trap = "u64 list \<Rightarrow> 'w \<Rightarrow> u64 \<times> 'w"

definition hvc_call ::
  "'w hvc_trap \<Rightarrow> u64 \<Rightarrow> u64 \<Rightarrow> u64 \<Rightarrow> u64 \<Rightarrow> u64 \<Rightarrow> u64 \<Rightarrow> u64 \<Rightarrow> 'w \<Rightarrow> u64 \<times> 'w" where
  "hvc_call trap hvc_mode arg0 arg1 arg2 arg3 arg4 arg5 w =
    trap [hvc_mode, arg0, arg1, arg2, arg3, arg4, arg5] w"

definition hvc_publish_channel :: "'w hvc_trap \<Rightarrow> u64 \<Rightarrow> u64 \<Rightarrow> u64 \<Rightarrow> 'w \<Rightarrow> u64 \<times> 'w" where
  "hvc_publish_channel trap channel_key shm_base_ptr shm_size_ptr =
    hvc_call trap (hvc_code HIVCPublishChannel) channel_key shm_base_ptr shm_size_ptr 0 0 0"

definition hvc_unpublish_channel :: "'w hvc_trap \<Rightarrow> u64 \<Rightarrow> 'w \<Rightarrow> u64 \<times> 'w" where
  "hvc_unpublish_channel trap channel_key =
    hvc_call trap (hvc_code HIVCUnPublishChannel) channel_key 0 0 0 0 0"

definition hvc_subscribe_channel :: "'w hvc_trap \<Rightarrow> u64 \<Rightarrow> u64 \<Rightarrow> u64 \<Rightarrow> u64 \<Rightarrow> 'w \<Rightarrow> u64 \<times> 'w" where
  "hvc_subscribe_channel trap publisher_id channel_key shm_base_ptr shm_size_ptr =
    hvc_call trap (hvc_code HIVCSubscribChannel) publisher_id channel_key shm_base_ptr shm_size_ptr 0 0"

definition hvc_unsubscribe_channel :: "'w hvc_trap \<Rightarrow> u64 \<Rightarrow> u64 \<Rightarrow> 'w \<Rightarrow> u64 \<times> 'w" where
  "hvc_unsubscribe_channel trap publisher_id channel_key =
    hvc_call trap (hvc_code HIVCUnSubscribChannel) publisher_id channel_key 0 0 0 0"

definition hvc_notify_channel :: "'w hvc_trap \<Rightarrow> u64 \<Rightarrow> u64 \<Rightarrow> u64 \<Rightarrow> 'w \<Rightarrow> u64 \<times> 'w" where
  "hvc_notify_channel trap publisher_id channel_key target_vm_id =
    hvc_call trap (hvc_code HIVCNotify) publisher_id channel_key target_vm_id 0 0 0"

section \<open>Address translation\<close>

definition PAR_MASK :: u64 where "PAR_MASK = 0x0000FFFFFFFFF000"
definition PAR_F :: u64 where "PAR_F = push_bit 0 1"

text \<open>
  \<open>AT S1E1W\<close> leaves its result in the register \<open>PAR_EL1\<close>. The function returns the
  translated address and the register, which it restores.
\<close>

definition kva2pa :: "(u64 \<Rightarrow> u64) \<Rightarrow> u64 \<Rightarrow> u64 \<Rightarrow> u64 \<times> u64" where
  "kva2pa at_s1e1w par_el1 va =
    (let par_saved = par_el1;
         par_el1 = at_s1e1w va;
         par = par_el1;
         par_el1 = par_saved
     in if par AND PAR_F \<noteq> 0 then (NOT 0, par_el1)
        else (par AND PAR_MASK OR va AND (0x1000 - 1), par_el1))"

section \<open>Properties\<close>

text \<open>
  C40. The address translation is exact. It leaves \<open>PAR_EL1\<close> as it found it. It returns the
  all-ones marker exactly when the translation faulted, never for a translated address; a
  translated address has the page offset of the virtual address and the page frame, bits 12
  to 47, of the register.
\<close>

theorem kva2pa_exact:
  "case kva2pa at_s1e1w saved va of (pa, par) \<Rightarrow> par = saved \<and>
    (pa = NOT 0 \<longleftrightarrow> bit (at_s1e1w va) 0) \<and>
    (\<not> bit (at_s1e1w va) 0 \<longrightarrow>
      (\<forall>n. bit pa n \<longleftrightarrow> n < 12 \<and> bit va n \<or> 12 \<le> n \<and> n < 48 \<and> bit (at_s1e1w va) n))"
proof -
  have f: "at_s1e1w va AND PAR_F \<noteq> 0 \<longleftrightarrow> bit (at_s1e1w va) 0"
    by (auto simp: PAR_F_def and_one_eq bit_0 odd_iff_mod_2_eq_one)
  have m: "PAR_MASK = push_bit 12 (mask 36)" "(0x1000 - 1 :: u64) = mask 12"
    by (simp_all add: PAR_MASK_def mask_numeral push_bit_numeral)
  have bits: "bit (at_s1e1w va AND PAR_MASK OR va AND (0x1000 - 1)) n \<longleftrightarrow>
      n < 12 \<and> bit va n \<or> 12 \<le> n \<and> n < 48 \<and> bit (at_s1e1w va) n" for n
    unfolding m by (auto simp: bit_simps dest: bit_imp_le_length)
  moreover have "at_s1e1w va AND PAR_MASK OR va AND (0x1000 - 1) \<noteq> NOT 0"
  proof
    assume "at_s1e1w va AND PAR_MASK OR va AND (0x1000 - 1) = NOT 0"
    then have "bit (at_s1e1w va AND PAR_MASK OR va AND (0x1000 - 1)) 50" by (simp add: bit_simps)
    then show False using bits[of 50] by simp
  qed
  ultimately show ?thesis by (simp add: kva2pa_def Let_def f)
qed

theorem kva2pa_exact_witness:
  "kva2pa (\<lambda>va. 0x40001000) 5 0xffff000012345678 = (0x40001678, 5) \<and>
    fst (kva2pa (\<lambda>va. 0x40001000) 5 0xffff000012345678) \<noteq> NOT 0"
  using kva2pa_exact[where at_s1e1w = "\<lambda>va. 0x40001000" and saved = 5 and va = "0xffff000012345678"]
  by (simp add: kva2pa_def PAR_MASK_def PAR_F_def)

end
