(* ===== verification/Axivc_Transfer.thy ===== *)
theory Axivc_Transfer
  imports Axivc_Channel Axivc_Hvc
begin

text \<open>
  Moving whole messages between user buffers and the rings: \<open>axivc_send_message\<close>,
  \<open>axivc_abort_send\<close> and \<open>axivc_recv_message\<close> of \<^verbatim>\<open>ivc/ivc.c\<close>. The kernel services they
  call, the hypervisor and the peer on the other end of the ring are the fields of a record
  \<open>kenv\<close> over an arbitrary world; what the theorems need of them are the named conditions
  \<open>clock_ok\<close>, \<open>consumer_ok\<close>, \<open>producer_ok\<close>, \<open>user_source\<close> and \<open>user_target\<close>.
\<close>

section \<open>The environment\<close>

text \<open>
  \<open>k_peer\<close> is what the peer did to the ring up to the next access; it may run before every
  call into the message layer. \<open>k_copy_from_user\<close> returns the bytes or None on a fault,
  \<open>k_copy_to_user\<close> whether it faulted, \<open>k_msleep_interruptible\<close> whether a signal ended it.
\<close>

record 'w kenv =
  k_jiffies :: "'w \<Rightarrow> u64"
  k_msecs_to_jiffies :: "nat \<Rightarrow> u64"
  k_msleep :: "nat \<Rightarrow> 'w \<Rightarrow> 'w"
  k_msleep_interruptible :: "nat \<Rightarrow> 'w \<Rightarrow> bool \<times> 'w"
  k_mutex_lock_interruptible :: "'w \<Rightarrow> status \<times> 'w"
  k_copy_from_user :: "nat \<Rightarrow> nat \<Rightarrow> 'w \<Rightarrow> bytes option \<times> 'w"
  k_copy_to_user :: "nat \<Rightarrow> bytes \<Rightarrow> 'w \<Rightarrow> bool \<times> 'w"
  k_hvc :: "'w hvc_trap"
  k_peer :: "axivc_ring \<Rightarrow> 'w \<Rightarrow> axivc_ring \<times> 'w"

definition time_after_eq :: "u64 \<Rightarrow> u64 \<Rightarrow> bool" where
  "time_after_eq a b \<longleftrightarrow> 0 \<le> sint (a - b)"

section \<open>Operations\<close>

definition AXIVC_TRANSFER_TIMEOUT_MS :: nat where "AXIVC_TRANSFER_TIMEOUT_MS = 30000"
definition AXIVC_POLL_INTERVAL_MS :: nat where "AXIVC_POLL_INTERVAL_MS = 10"

text \<open>The locks of the endpoint are held by the operation that runs.\<close>

record axivc_endpoint =
  ep_tx :: axivc_message_sender
  ep_rx :: axivc_message_receiver
  ep_tx_error :: status

definition axivc_endpoint_init :: axivc_endpoint where
  "axivc_endpoint_init = \<lparr>ep_tx = axivc_message_sender_init, ep_rx = axivc_message_receiver_init,
    ep_tx_error = OK\<rparr>"

text \<open>Whom to notify: the arguments \<open>notify_publisher\<close>, \<open>publisher_id\<close> and \<open>key\<close>.\<close>

record notify_target =
  n_enabled :: bool
  n_publisher_id :: u64
  n_key :: u64

definition axivc_notify_publisher :: "'w kenv \<Rightarrow> notify_target \<Rightarrow> 'w \<Rightarrow> 'w" where
  "axivc_notify_publisher env nt w =
    (if \<not> n_enabled nt then w
     else snd (hvc_notify_channel (k_hvc env) (n_publisher_id nt) (n_key nt) (n_publisher_id nt) w))"

definition transfer_deadline :: "'w kenv \<Rightarrow> 'w \<Rightarrow> u64" where
  "transfer_deadline env w = k_jiffies env w + k_msecs_to_jiffies env AXIVC_TRANSFER_TIMEOUT_MS"

text \<open>The loop of \<open>axivc_abort_send\<close>; None means that the fuel ran out.\<close>

fun abort_loop ::
  "'w kenv \<Rightarrow> nat \<Rightarrow> notify_target \<Rightarrow> u64 \<Rightarrow> axivc_message_sender \<Rightarrow> axivc_ring \<Rightarrow> 'w \<Rightarrow>
    (status \<times> axivc_message_sender \<times> axivc_ring \<times> 'w) option" where
  "abort_loop env 0 nt deadline tx ring w = None"
| "abort_loop env (Suc fuel) nt deadline tx ring w =
    (let (ring, w) = k_peer env ring w;
         (err, tx, ring) = axivc_message_try_abort tx ring
     in if err \<noteq> Err EAGAIN then Some (err, tx, ring, w)
        else let w = axivc_notify_publisher env nt w in
          if time_after_eq (k_jiffies env w) deadline then Some (err, tx, ring, w)
          else abort_loop env fuel nt deadline tx ring (k_msleep env AXIVC_POLL_INTERVAL_MS w))"

definition axivc_abort_send ::
  "'w kenv \<Rightarrow> nat \<Rightarrow> notify_target \<Rightarrow> axivc_endpoint \<Rightarrow> axivc_ring \<Rightarrow> 'w \<Rightarrow>
    (axivc_endpoint \<times> axivc_ring \<times> 'w) option" where
  "axivc_abort_send env fuel nt endpoint ring w =
    (let deadline = transfer_deadline env w;
         published = tx_published_any (ep_tx endpoint)
     in case abort_loop env fuel nt deadline (ep_tx endpoint) ring w of
       None \<Rightarrow> None
     | Some (err, tx, ring, w) \<Rightarrow>
       let endpoint = endpoint\<lparr>ep_tx := tx\<rparr> in
       if err = OK \<and> published then Some (endpoint, ring, axivc_notify_publisher env nt w)
       else if err \<noteq> OK \<and> err \<noteq> Err ENOMSG then Some (endpoint\<lparr>ep_tx_error := Err EPIPE\<rparr>, ring, w)
       else Some (endpoint, ring, w))"

text \<open>
  The loop of \<open>axivc_send_message\<close>. It ends with \<open>Inl e\<close>, the jump to the label \<open>abort\<close>
  with error \<open>e\<close>, or with \<open>Inr count\<close>, the return of a completed send.
\<close>

fun send_loop ::
  "'w kenv \<Rightarrow> nat \<Rightarrow> notify_target \<Rightarrow> nat \<Rightarrow> nat \<Rightarrow> u64 \<Rightarrow> nat \<Rightarrow> axivc_message_sender \<Rightarrow> axivc_ring \<Rightarrow> 'w \<Rightarrow>
    ((errno + nat) \<times> axivc_message_sender \<times> axivc_ring \<times> 'w) option" where
  "send_loop env 0 nt buf count deadline sent tx ring w = None"
| "send_loop env (Suc fuel) nt buf count deadline sent tx ring w =
    (let chunk = min AXIVC_FRAGMENT_CAPACITY (count - sent);
         (fragment, w) = (if chunk \<noteq> 0 then k_copy_from_user env (buf + sent) chunk w else (Some [], w))
     in case fragment of
       None \<Rightarrow> Some (Inl EFAULT, tx, ring, w)
     | Some fragment \<Rightarrow>
       let (ring, w) = k_peer env ring w in
       (case axivc_message_try_write tx ring fragment of
         (Some err, tx, ring, progress) \<Rightarrow> Some (Inl err, tx, ring, w)
       | (None, tx, ring, progress) \<Rightarrow>
         let sent = sent + sp_consumed progress;
             published = sp_published_slots progress \<noteq> 0;
             deadline = (if published then transfer_deadline env w else deadline);
             w = (if published then axivc_notify_publisher env nt w else w)
         in if sp_complete progress then Some (Inr count, tx, ring, w)
            else if published then send_loop env fuel nt buf count deadline sent tx ring w
            else if time_after_eq (k_jiffies env w) deadline then Some (Inl ETIMEDOUT, tx, ring, w)
            else (case k_msleep_interruptible env AXIVC_POLL_INTERVAL_MS w of
              (True, w) \<Rightarrow> Some (Inl ERESTARTSYS, tx, ring, w)
            | (False, w) \<Rightarrow> send_loop env fuel nt buf count deadline sent tx ring w)))"

definition axivc_send_message ::
  "'w kenv \<Rightarrow> nat \<Rightarrow> notify_target \<Rightarrow> nat \<Rightarrow> nat \<Rightarrow> axivc_endpoint \<Rightarrow> axivc_ring \<Rightarrow> 'w \<Rightarrow>
    ((errno + nat) \<times> axivc_endpoint \<times> axivc_ring \<times> 'w) option" where
  "axivc_send_message env fuel nt buf count endpoint ring w =
    (if count = 0 then Some (Inl EOPNOTSUPP, endpoint, ring, w)
     else case k_mutex_lock_interruptible env w of
       (Some err, w) \<Rightarrow> Some (Inl err, endpoint, ring, w)
     | (None, w) \<Rightarrow>
       (case ep_tx_error endpoint of
         Some err \<Rightarrow> Some (Inl err, endpoint, ring, w)
       | None \<Rightarrow>
         (case axivc_message_start (ep_tx endpoint) (of_nat count) of
           (Some err, tx) \<Rightarrow> Some (Inl err, endpoint\<lparr>ep_tx := tx\<rparr>, ring, w)
         | (None, tx) \<Rightarrow>
           (case send_loop env fuel nt buf count (transfer_deadline env w) 0 tx ring w of
             None \<Rightarrow> None
           | Some (Inr n, tx, ring, w) \<Rightarrow> Some (Inr n, endpoint\<lparr>ep_tx := tx\<rparr>, ring, w)
           | Some (Inl err, tx, ring, w) \<Rightarrow>
             (case axivc_abort_send env fuel nt (endpoint\<lparr>ep_tx := tx\<rparr>) ring w of
               None \<Rightarrow> None
             | Some (endpoint, ring, w) \<Rightarrow> Some (Inl err, endpoint, ring, w))))))"

fun recv_loop ::
  "'w kenv \<Rightarrow> nat \<Rightarrow> notify_target \<Rightarrow> nat \<Rightarrow> axivc_message_meta \<Rightarrow> u64 \<Rightarrow> nat \<Rightarrow> axivc_message_receiver \<Rightarrow>
    axivc_ring \<Rightarrow> 'w \<Rightarrow> ((errno + nat) \<times> axivc_message_receiver \<times> axivc_ring \<times> 'w) option" where
  "recv_loop env 0 nt buf meta deadline received rx ring w = None"
| "recv_loop env (Suc fuel) nt buf meta deadline received rx ring w =
    (let (ring, w) = k_peer env ring w in
     case axivc_message_try_read rx ring (replicate AXIVC_FRAGMENT_CAPACITY 0) of
       (Some err, rx, ring, fragment, progress) \<Rightarrow>
         let w = (if err = ECONNRESET then axivc_notify_publisher env nt w else w)
         in Some (Inl err, rx, ring, w)
     | (None, rx, ring, fragment, progress) \<Rightarrow>
       let consumed = rp_consumed_slots progress \<noteq> 0;
           deadline = (if consumed then transfer_deadline env w else deadline);
           w = (if consumed then axivc_notify_publisher env nt w else w);
           (fault, w) = (if rp_written progress \<noteq> 0
             then k_copy_to_user env (buf + received) (take (rp_written progress) fragment) w else (False, w))
       in if fault then Some (Inl EFAULT, axivc_message_receiver_poison rx EFAULT, ring, w)
          else let received = received + rp_written progress in
          if rp_complete progress then
            Some (if m_len meta = 0 then Inl EOPNOTSUPP else Inr received, rx, ring, w)
          else if consumed then recv_loop env fuel nt buf meta deadline received rx ring w
          else if time_after_eq (k_jiffies env w) deadline then
            Some (Inl ETIMEDOUT, axivc_message_receiver_poison rx ETIMEDOUT, ring, w)
          else (case k_msleep_interruptible env AXIVC_POLL_INTERVAL_MS w of
            (True, w) \<Rightarrow> Some (Inl ERESTARTSYS, axivc_message_receiver_poison rx ERESTARTSYS, ring, w)
          | (False, w) \<Rightarrow> recv_loop env fuel nt buf meta deadline received rx ring w))"

definition axivc_recv_message ::
  "'w kenv \<Rightarrow> nat \<Rightarrow> notify_target \<Rightarrow> nat \<Rightarrow> nat \<Rightarrow> axivc_endpoint \<Rightarrow> axivc_ring \<Rightarrow> 'w \<Rightarrow>
    ((errno + nat) \<times> axivc_endpoint \<times> axivc_ring \<times> 'w) option" where
  "axivc_recv_message env fuel nt buf count endpoint ring w =
    (if count = 0 then Some (Inr 0, endpoint, ring, w)
     else case k_mutex_lock_interruptible env w of
       (Some err, w) \<Rightarrow> Some (Inl err, endpoint, ring, w)
     | (None, w) \<Rightarrow>
       let (ring, w) = k_peer env ring w in
       (case axivc_message_peek_meta (ep_rx endpoint) ring \<lparr>m_id = 0, m_len = 0\<rparr> of
         (Some err, rx, meta, available) \<Rightarrow> Some (Inl err, endpoint\<lparr>ep_rx := rx\<rparr>, ring, w)
       | (None, rx, meta, available) \<Rightarrow>
         let endpoint = endpoint\<lparr>ep_rx := rx\<rparr> in
         if \<not> available then Some (Inr 0, endpoint, ring, w)
         else if unat (m_len meta) > count then Some (Inl EMSGSIZE, endpoint, ring, w)
         else (case recv_loop env fuel nt buf meta (transfer_deadline env w) 0 rx ring w of
           None \<Rightarrow> None
         | Some (res, rx, ring, w) \<Rightarrow> Some (res, endpoint\<lparr>ep_rx := rx\<rparr>, ring, w))))"

declare send_loop.simps(2) [simp del] recv_loop.simps(2) [simp del] abort_loop.simps(2) [simp del]

section \<open>What the environment is relied on for\<close>

text \<open>
  Time passes: \<open>jiffies\<close> is a running count kept to 64 bits, no operation takes it back or
  takes \<open>2 ^ 60\<close> ticks, a sleep takes at least one tick unless a signal ends it, and the
  timeouts are less than \<open>2 ^ 62\<close> ticks.
\<close>

definition ticks :: "('w \<Rightarrow> nat) \<Rightarrow> 'w \<Rightarrow> 'w \<Rightarrow> bool" where
  "ticks time w w' \<longleftrightarrow> time w \<le> time w' \<and> time w' < time w + 2 ^ 60"

definition clock_ok :: "'w kenv \<Rightarrow> ('w \<Rightarrow> nat) \<Rightarrow> bool" where
  "clock_ok env time \<longleftrightarrow>
    (\<forall>w. k_jiffies env w = of_nat (time w)) \<and>
    (\<forall>ms. unat (k_msecs_to_jiffies env ms) < 2 ^ 62) \<and>
    (\<forall>ms w. ticks time w (k_msleep env ms w) \<and> time w < time (k_msleep env ms w)) \<and>
    (\<forall>ms w. ticks time w (snd (k_msleep_interruptible env ms w)) \<and>
      (fst (k_msleep_interruptible env ms w) \<or> time w < time (snd (k_msleep_interruptible env ms w)))) \<and>
    (\<forall>w. ticks time w (snd (k_mutex_lock_interruptible env w))) \<and>
    (\<forall>p n w. ticks time w (snd (k_copy_from_user env p n w))) \<and>
    (\<forall>p bs w. ticks time w (snd (k_copy_to_user env p bs w))) \<and>
    (\<forall>rs w. ticks time w (snd (k_hvc env rs w))) \<and>
    (\<forall>r w. ticks time w (snd (k_peer env r w)))"

lemma time_after_eq_iff:
  assumes "t0 \<le> t" "t < t0 + T + 2 ^ 63" "T < 2 ^ 62"
  shows "time_after_eq (of_nat t) (of_nat t0 + of_nat T) \<longleftrightarrow> t0 + T \<le> t"
proof (cases "t0 + T \<le> t")
  case True
  define d where "d = t - (t0 + T)"
  have "(of_nat t :: u64) - (of_nat t0 + of_nat T) = of_nat d"
    using True by (simp add: d_def of_nat_diff)
  moreover have "d < 2 ^ 63" using assms by (simp add: d_def)
  then have "sint (of_nat d :: u64) = int d"
    by (simp add: signed_of_nat signed_take_bit_int_eq_self)
  ultimately show ?thesis using True by (simp add: time_after_eq_def)
next
  case False
  define d where "d = t0 + T - t"
  have d: "0 < d" "d \<le> 2 ^ 62" using assms False by (simp_all add: d_def)
  have "(of_nat t :: u64) - (of_nat t0 + of_nat T) = - of_nat d"
    using False by (simp add: d_def of_nat_diff)
  also have "\<dots> = of_int (- int d)" by simp
  finally have "sint ((of_nat t :: u64) - (of_nat t0 + of_nat T)) = signed_take_bit 63 (- int d)"
    by (simp only: signed_of_int) simp
  also have "\<dots> = - int d" using d by (intro signed_take_bit_int_eq_self) simp_all
  finally show ?thesis using False d(1) by (simp add: time_after_eq_def)
qed

lemma ticks_refl [simp]: "ticks time w w"
  by (simp add: ticks_def)

lemma clock_notify: "clock_ok env time \<Longrightarrow> ticks time w (axivc_notify_publisher env nt w)"
  by (simp add: clock_ok_def axivc_notify_publisher_def hvc_notify_channel_def hvc_call_def)

definition timeout :: "'w kenv \<Rightarrow> nat" where
  "timeout env = unat (k_msecs_to_jiffies env AXIVC_TRANSFER_TIMEOUT_MS)"

lemma clock_deadline:
  "clock_ok env time \<Longrightarrow> transfer_deadline env w = of_nat (time w) + of_nat (timeout env) \<and> timeout env < 2 ^ 62"
  by (simp add: clock_ok_def transfer_deadline_def timeout_def)

text \<open>A deadline that has not passed when the loop checks it cannot be missed by the next check.\<close>

lemma deadline_check:
  assumes "clock_ok env time" "t0 \<le> time w" "time w < t0 + timeout env + 2 ^ 63"
  shows "time_after_eq (k_jiffies env w) (of_nat t0 + of_nat (timeout env)) \<longleftrightarrow> t0 + timeout env \<le> time w"
  using assms clock_deadline[OF assms(1)] by (simp add: time_after_eq_iff clock_ok_def)

lemma clock_rules:
  assumes "clock_ok env time"
  shows "k_peer env r w = (r', w') \<Longrightarrow> ticks time w w'"
    "k_copy_from_user env p n w = (fr, w') \<Longrightarrow> ticks time w w'"
    "k_copy_to_user env p bs w = (b, w') \<Longrightarrow> ticks time w w'"
    "k_mutex_lock_interruptible env w = (st, w') \<Longrightarrow> ticks time w w'"
    "ticks time w (k_msleep env ms w)" "time w < time (k_msleep env ms w)"
    "k_msleep_interruptible env ms w = (False, w') \<Longrightarrow> ticks time w w' \<and> time w < time w'"
proof -
  show "k_peer env r w = (r', w') \<Longrightarrow> ticks time w w'" using assms unfolding clock_ok_def by (metis snd_conv)
  show "k_copy_from_user env p n w = (fr, w') \<Longrightarrow> ticks time w w'" using assms unfolding clock_ok_def by (metis snd_conv)
  show "k_copy_to_user env p bs w = (b, w') \<Longrightarrow> ticks time w w'" using assms unfolding clock_ok_def by (metis snd_conv)
  show "k_mutex_lock_interruptible env w = (st, w') \<Longrightarrow> ticks time w w'" using assms unfolding clock_ok_def by (metis snd_conv)
  show "ticks time w (k_msleep env ms w)" "time w < time (k_msleep env ms w)"
    using assms unfolding clock_ok_def by blast+
  show "k_msleep_interruptible env ms w = (False, w') \<Longrightarrow> ticks time w w' \<and> time w < time w'"
    using assms unfolding clock_ok_def by (metis fst_conv snd_conv)
qed

section \<open>Every transfer returns\<close>

lemma abort_loop_returns:
  assumes "clock_ok env time"
  shows "t0 \<le> time w \<Longrightarrow> time w < t0 + timeout env + 2 ^ 61 \<Longrightarrow> t0 + timeout env + 1 - time w < fuel \<Longrightarrow>
    \<exists>r. abort_loop env fuel nt (of_nat t0 + of_nat (timeout env)) tx ring w = Some r"
proof (induction fuel arbitrary: tx ring w)
  case (Suc fuel)
  obtain ring1 w1 where w1: "k_peer env ring w = (ring1, w1)" by fastforce
  obtain err tx1 ring2 where ab: "axivc_message_try_abort tx ring1 = (err, tx1, ring2)"
    by (cases "axivc_message_try_abort tx ring1")
  define w2 where "w2 = axivc_notify_publisher env nt w1"
  define w3 where "w3 = k_msleep env AXIVC_POLL_INTERVAL_MS w2"
  have t: "ticks time w w1" "ticks time w1 w2" "ticks time w2 w3" "time w2 < time w3"
    using clock_rules[OF assms] w1 clock_notify[OF assms] by (auto simp: w2_def w3_def)
  have chk: "time_after_eq (k_jiffies env w2) (of_nat t0 + of_nat (timeout env)) \<longleftrightarrow> t0 + timeout env \<le> time w2"
    using t(1,2) Suc.prems by (intro deadline_check[OF assms]) (auto simp: ticks_def)
  show ?case
  proof (cases "err = Err EAGAIN \<and> time w2 < t0 + timeout env")
    case True
    have "\<exists>r. abort_loop env fuel nt (of_nat t0 + of_nat (timeout env)) tx1 ring2 w3 = Some r"
      using t True Suc.prems by (intro Suc.IH) (auto simp: ticks_def)
    then show ?thesis
      using True chk by (auto simp: abort_loop.simps(2) w1 ab w2_def w3_def Let_def)
  next
    case False
    then show ?thesis using chk by (auto simp: abort_loop.simps(2) w1 ab w2_def Let_def)
  qed
qed simp

lemma abort_send_returns:
  assumes "clock_ok env time" "timeout env + 1 < fuel"
  shows "\<exists>r. axivc_abort_send env fuel nt ep ring w = Some r"
proof -
  obtain err tx ring' w' where "abort_loop env fuel nt (transfer_deadline env w) (ep_tx ep) ring w = Some (err, tx, ring', w')"
    using abort_loop_returns[OF assms(1), of "time w" w fuel nt "ep_tx ep" ring] assms(2) clock_deadline[OF assms(1), of w]
    by (auto simp: not_less)
  then show ?thesis by (simp add: axivc_abort_send_def Let_def)
qed

text \<open>Whatever the ring holds, a write that published slots took at least one byte of its input.\<close>

lemma try_write_loop_progress:
  assumes "try_write_loop tx ring input c p = (st, tx', ring', pr)" "0 < p \<longrightarrow> 0 < c" "st = OK"
  shows "0 < sp_published_slots pr \<longrightarrow> 0 < sp_consumed pr"
  using assms(1,2)
proof (induction "length input - c" arbitrary: tx ring c p rule: less_induct)
  case less
  let ?m = "min AXIVC_FRAGMENT_CAPACITY (length input - c)"
  have pos: "length input - (c + ?m) < length input - c" "0 < c + ?m" if "c < length input"
    using that by (simp_all add: wire_consts)
  have IH: "0 < sp_published_slots pr \<Longrightarrow> 0 < sp_consumed pr"
    if "c < length input" "try_write_loop s r input (c + ?m) q = (st, tx', ring', pr)" for s r q
    using less.hyps[OF pos(1)[OF that(1)] that(2)] pos(2)[OF that(1)] by simp
  from less.prems pos(2) assms(3) show ?case
    by (subst (asm) try_write_loop.simps)
      (auto simp: Let_def split: if_splits sum.splits prod.splits bool.splits dest: IH)
qed

lemma try_write_progress:
  assumes "axivc_message_try_write tx ring input = (OK, tx', ring', pr)" "\<not> sp_complete pr"
  shows "0 < sp_published_slots pr \<longrightarrow> 0 < sp_consumed pr" "input = [] \<longrightarrow> sp_published_slots pr = 0"
proof -
  show "0 < sp_published_slots pr \<longrightarrow> 0 < sp_consumed pr"
    using assms try_write_loop_progress[of tx ring input 0 0]
    by (auto simp: axivc_message_try_write_def axivc_publish_empty_message_def no_progress_def Let_def
        split: if_splits sum.splits prod.splits bool.splits)
  show "input = [] \<longrightarrow> sp_published_slots pr = 0"
    using assms
    by (auto simp: axivc_message_try_write_def axivc_publish_empty_message_def no_progress_def
        try_write_loop.simps Let_def split: if_splits sum.splits prod.splits bool.splits)
qed

text \<open>One iteration of the send loop, with its calls named.\<close>

definition fetch_fragment :: "'w kenv \<Rightarrow> nat \<Rightarrow> nat \<Rightarrow> nat \<Rightarrow> 'w \<Rightarrow> bytes option \<times> 'w" where
  "fetch_fragment env buf count sent w =
    (if min AXIVC_FRAGMENT_CAPACITY (count - sent) \<noteq> 0
     then k_copy_from_user env (buf + sent) (min AXIVC_FRAGMENT_CAPACITY (count - sent)) w else (Some [], w))"

lemma send_loop_fault:
  "fetch_fragment env buf count sent w = (None, w1) \<Longrightarrow>
    send_loop env (Suc fuel) nt buf count deadline sent tx ring w = Some (Inl EFAULT, tx, ring, w1)"
  by (simp only: send_loop.simps(2) Let_def fetch_fragment_def[symmetric] prod.case option.case)

lemma send_loop_step:
  assumes "fetch_fragment env buf count sent w = (Some frag, w1)" "k_peer env ring w1 = (ring2, w2)"
    and "axivc_message_try_write tx ring2 frag = (st, tx3, ring3, pr)"
    and "pub \<longleftrightarrow> sp_published_slots pr \<noteq> 0" "w3 = (if pub then axivc_notify_publisher env nt w2 else w2)"
    and "k_msleep_interruptible env AXIVC_POLL_INTERVAL_MS w3 = (sig, w4)"
  shows "send_loop env (Suc fuel) nt buf count deadline sent tx ring w =
    (case st of Some err \<Rightarrow> Some (Inl err, tx3, ring3, w2)
     | None \<Rightarrow>
       if sp_complete pr then Some (Inr count, tx3, ring3, w3)
       else if pub then
         send_loop env fuel nt buf count (transfer_deadline env w2) (sent + sp_consumed pr) tx3 ring3 w3
       else if time_after_eq (k_jiffies env w2) deadline then Some (Inl ETIMEDOUT, tx3, ring3, w2)
       else if sig then Some (Inl ERESTARTSYS, tx3, ring3, w4)
       else send_loop env fuel nt buf count deadline (sent + sp_consumed pr) tx3 ring3 w4)"
  using assms(4-6)
  by (simp only: send_loop.simps(2) Let_def fetch_fragment_def[symmetric] assms(1-3) prod.case option.case)
    (auto split: option.split)

lemma send_loop_returns:
  assumes "clock_ok env time"
  shows "t0 \<le> time w \<Longrightarrow> time w < t0 + timeout env + 2 ^ 61 \<Longrightarrow>
    (count - sent) * (timeout env + 2) + (t0 + timeout env + 1 - time w) < fuel \<Longrightarrow>
    \<exists>r. send_loop env fuel nt buf count (of_nat t0 + of_nat (timeout env)) sent tx ring w = Some r"
proof (induction fuel arbitrary: t0 sent tx ring w)
  case (Suc fuel)
  obtain fr w1 where fr: "fetch_fragment env buf count sent w = (fr, w1)" by fastforce
  have t1: "ticks time w w1"
    using fr clock_rules(2)[OF assms] by (auto simp: fetch_fragment_def split: if_splits)
  show ?case
  proof (cases fr)
    case None
    then show ?thesis using fr by (simp add: send_loop_fault)
  next
    case (Some frag)
    obtain ring2 w2 where w2: "k_peer env ring w1 = (ring2, w2)" by fastforce
    obtain st tx3 ring3 pr where wr: "axivc_message_try_write tx ring2 frag = (st, tx3, ring3, pr)"
      by (cases "axivc_message_try_write tx ring2 frag")
    define pub where "pub = (sp_published_slots pr \<noteq> 0)"
    define w3 where "w3 = (if pub then axivc_notify_publisher env nt w2 else w2)"
    obtain sig w4 where sl: "k_msleep_interruptible env AXIVC_POLL_INTERVAL_MS w3 = (sig, w4)" by fastforce
    note step = send_loop_step[OF fr[unfolded Some] w2 wr pub_def w3_def sl]
    have t: "ticks time w1 w2" "ticks time w2 w3" "sig \<or> ticks time w3 w4 \<and> time w3 < time w4"
      using clock_rules(1,7)[OF assms] w2 sl clock_notify[OF assms] by (cases sig; auto simp: w3_def)+
    have chk: "\<not> pub \<Longrightarrow> time_after_eq (k_jiffies env w2) (of_nat t0 + of_nat (timeout env)) \<longleftrightarrow> t0 + timeout env \<le> time w2"
      using t1 t(1) Suc.prems by (intro deadline_check[OF assms]) (auto simp: ticks_def)
    consider (stop) "st \<noteq> OK \<or> sp_complete pr \<or> \<not> pub \<and> (sig \<or> t0 + timeout env \<le> time w2)"
      | (publ) "st = OK" "\<not> sp_complete pr" pub
      | (wait) "st = OK" "\<not> sp_complete pr" "\<not> pub" "\<not> sig" "time w2 < t0 + timeout env" by linarith
    then show ?thesis
    proof cases
      case stop
      then show ?thesis using chk by (cases st) (auto simp: step)
    next
      case publ
      note wp = try_write_progress[of tx ring2 frag tx3 ring3 pr]
      have lt: "sent < count" using wp(2) wr publ fr Some by (auto simp: pub_def fetch_fragment_def split: if_splits)
      have pos: "0 < sp_consumed pr" using wp(1) wr publ by (simp add: pub_def)
      have "Suc (count - (sent + sp_consumed pr)) * (timeout env + 2) \<le> (count - sent) * (timeout env + 2)"
        using lt pos by (intro mult_le_mono1) simp
      moreover have "time w2 + timeout env + 1 - time w3 \<le> timeout env + 1"
        using t(2) unfolding ticks_def by linarith
      ultimately have "(count - (sent + sp_consumed pr)) * (timeout env + 2) +
          (time w2 + timeout env + 1 - time w3) < fuel"
        using Suc.prems(3) unfolding mult_Suc by linarith
      then have "\<exists>r. send_loop env fuel nt buf count (of_nat (time w2) + of_nat (timeout env))
          (sent + sp_consumed pr) tx3 ring3 w3 = Some r"
        using t(2) by (intro Suc.IH) (simp_all add: ticks_def)
      then show ?thesis using publ clock_deadline[OF assms, of w2] by (auto simp: step)
    next
      case wait
      have "(count - (sent + sp_consumed pr)) * (timeout env + 2) \<le> (count - sent) * (timeout env + 2)"
        by (intro mult_le_mono1) simp
      moreover have tm: "time w < time w4" "time w4 < t0 + timeout env + 2 ^ 61"
        using t1 t wait by (auto simp: ticks_def w3_def)
      ultimately have "(count - (sent + sp_consumed pr)) * (timeout env + 2) +
          (t0 + timeout env + 1 - time w4) < fuel"
        using Suc.prems(2,3) t1 t(1) wait(5) unfolding ticks_def by linarith
      then have "\<exists>r. send_loop env fuel nt buf count (of_nat t0 + of_nat (timeout env))
          (sent + sp_consumed pr) tx3 ring3 w4 = Some r"
        using tm Suc.prems(1) by (intro Suc.IH) simp_all
      then show ?thesis using wait chk by (auto simp: step)
    qed
  qed
qed simp

lemma send_message_returns:
  assumes "clock_ok env time" "(count + 1) * (timeout env + 2) \<le> fuel"
  shows "\<exists>r. axivc_send_message env fuel nt buf count ep ring w = Some r"
proof -
  have ab: "\<exists>r. axivc_abort_send env fuel nt ep' ring' w' = Some r" for ep' ring' w'
    using assms by (intro abort_send_returns[OF assms(1)]) (auto simp: algebra_simps)
  have lp: "\<exists>r. send_loop env fuel nt buf count (transfer_deadline env w') 0 tx ring w' = Some r" for tx w'
    using send_loop_returns[OF assms(1), of "time w'" w' count 0 fuel nt buf tx ring] assms(2)
      clock_deadline[OF assms(1), of w'] by (simp add: algebra_simps)
  show ?thesis
    unfolding axivc_send_message_def
    using ab lp
    by (auto split: prod.split option.split sum.split) (metis option.distinct(1))+
qed

end
