(* ===== verification/Axivc_Send.thy ===== *)
theory Axivc_Send
  imports Axivc_Transfer
begin

text \<open>
  What \<open>axivc_send_message\<close> of \<^verbatim>\<open>ivc/ivc.c\<close> does to the ring while the peer consumes it: a
  message is published completely, or it is not published at all, or it is cut off by an
  ABORT frame; and if even that is impossible the endpoint refuses every later send.
\<close>

section \<open>A consuming peer and a user buffer\<close>

text \<open>
  \<open>seen\<close> is everything the peer has taken out of the ring. A consumer takes the oldest
  slots, in order, and writes nothing into the ring; nothing else changes what it has seen.
\<close>

definition keeps :: "'w kenv \<Rightarrow> ('w \<Rightarrow> 'a) \<Rightarrow> bool" where
  "keeps env f \<longleftrightarrow>
    (\<forall>ms w. f (k_msleep env ms w) = f w) \<and>
    (\<forall>ms w. f (snd (k_msleep_interruptible env ms w)) = f w) \<and>
    (\<forall>w. f (snd (k_mutex_lock_interruptible env w)) = f w) \<and>
    (\<forall>p n w. f (snd (k_copy_from_user env p n w)) = f w) \<and>
    (\<forall>rs w. f (snd (k_hvc env rs w)) = f w)"

lemma keeps_rules:
  assumes "keeps env f"
  shows "f (k_msleep env ms w) = f w"
    "k_msleep_interruptible env ms w = (sig, w') \<Longrightarrow> f w' = f w"
    "k_mutex_lock_interruptible env w = (st, w') \<Longrightarrow> f w' = f w"
    "k_copy_from_user env p n w = (fr, w') \<Longrightarrow> f w' = f w"
    "f (axivc_notify_publisher env nt w) = f w"
proof -
  show "f (k_msleep env ms w) = f w" "f (axivc_notify_publisher env nt w) = f w"
    using assms by (auto simp: keeps_def axivc_notify_publisher_def hvc_notify_channel_def hvc_call_def)
  show "k_msleep_interruptible env ms w = (sig, w') \<Longrightarrow> f w' = f w"
    "k_mutex_lock_interruptible env w = (st, w') \<Longrightarrow> f w' = f w"
    "k_copy_from_user env p n w = (fr, w') \<Longrightarrow> f w' = f w"
    using assms unfolding keeps_def by (metis snd_conv)+
qed

definition consumer_ok :: "'w kenv \<Rightarrow> ('w \<Rightarrow> slot list) \<Rightarrow> bool" where
  "consumer_ok env seen \<longleftrightarrow> keeps env seen \<and>
    (\<forall>r w. ring_wf r \<longrightarrow> (case k_peer env r w of (r', w') \<Rightarrow>
      ring_wf r' \<and> seen w' @ ring_contents r' = seen w @ ring_contents r))"

lemma consumer_peer:
  "consumer_ok env seen \<Longrightarrow> ring_wf r \<Longrightarrow> k_peer env r w = (r', w') \<Longrightarrow>
    ring_wf r' \<and> seen w' @ ring_contents r' = seen w @ ring_contents r"
proof -
  assume *: "consumer_ok env seen" "ring_wf r" "k_peer env r w = (r', w')"
  from *(1) have "\<forall>r w. ring_wf r \<longrightarrow> (case k_peer env r w of (r', w') \<Rightarrow>
      ring_wf r' \<and> seen w' @ ring_contents r' = seen w @ ring_contents r)"
    unfolding consumer_ok_def by (rule conjunct2)
  from this[rule_format, OF *(2), of w] *(3) show ?thesis by simp
qed

text \<open>The user buffer holds the message; a copy gives its bytes or faults.\<close>

definition user_source :: "'w kenv \<Rightarrow> nat \<Rightarrow> bytes \<Rightarrow> bool" where
  "user_source env buf data \<longleftrightarrow>
    (\<forall>off n w. off + n \<le> length data \<longrightarrow>
      fst (k_copy_from_user env (buf + off) n w) \<in> {None, Some (take n (drop off data))})"

section \<open>The frames of a message, by index\<close>

definition message_frames :: "u64 \<Rightarrow> bytes \<Rightarrow> slot list" where
  "message_frames i data = frames_from i (of_nat (length data)) 0 (chunks data)"

definition fragment_at :: "bytes \<Rightarrow> nat \<Rightarrow> bytes" where
  "fragment_at data k = take AXIVC_FRAGMENT_CAPACITY (drop (AXIVC_FRAGMENT_CAPACITY * k) data)"

lemma chunks_nth: "k < length (chunks xs) \<Longrightarrow> chunks xs ! k = fragment_at xs k"
proof (induction xs arbitrary: k rule: chunks.induct)
  case (1 xs)
  then have ne: "xs \<noteq> []" by auto
  show ?case
  proof (cases k)
    case 0
    then show ?thesis using ne by (simp add: chunks_step fragment_at_def)
  next
    case (Suc m)
    then show ?thesis using 1 ne by (simp add: chunks_step fragment_at_def add.commute)
  qed
qed

lemma length_concat_take_chunks:
  "length (concat (take k (chunks xs))) = min (AXIVC_FRAGMENT_CAPACITY * k) (length xs)"
proof (induction xs arbitrary: k rule: chunks.induct)
  case (1 xs)
  show ?case
  proof (cases "xs = [] \<or> k = 0")
    case False
    then obtain m where "k = Suc m" "xs \<noteq> []" by (cases k) auto
    moreover from this have "length (concat (take m (chunks (drop AXIVC_FRAGMENT_CAPACITY xs)))) =
        min (AXIVC_FRAGMENT_CAPACITY * m) (length xs - AXIVC_FRAGMENT_CAPACITY)" using 1 by simp
    ultimately have "length (concat (take k (chunks xs))) = min (length xs) AXIVC_FRAGMENT_CAPACITY +
        min (AXIVC_FRAGMENT_CAPACITY * m) (length xs - AXIVC_FRAGMENT_CAPACITY)" by (simp add: chunks_step)
    also have "\<dots> = min (AXIVC_FRAGMENT_CAPACITY * k) (length xs)"
      using \<open>k = Suc m\<close> by (auto simp: min_def wire_consts)
    finally show ?thesis .
  qed auto
qed

lemma frames_from_nth:
  "k < length frs \<Longrightarrow> frames_from i l off frs ! k =
    frame_slot i l (off + length (concat (take k frs)) = 0)
      (off + length (concat (take (Suc k) frs)) = unat l) False (frs ! k)"
proof (induction frs arbitrary: off k)
  case (Cons fr frs)
  then show ?case by (cases k) (simp_all add: add.assoc)
qed simp

lemma chunk_index:
  assumes "AXIVC_FRAGMENT_CAPACITY * k < length xs"
  shows "k < length (chunks xs)"
proof (rule ccontr)
  assume "\<not> k < length (chunks xs)"
  then have "length xs = min (AXIVC_FRAGMENT_CAPACITY * k) (length xs)"
    using length_concat_take_chunks[of k xs] by simp
  with assms show False by simp
qed

lemma message_frame_nth:
  assumes "AXIVC_FRAGMENT_CAPACITY * k < length data" "length data < 2 ^ 64"
  shows "k < length (message_frames i data)"
    "message_frames i data ! k = frame_slot i (of_nat (length data)) (k = 0)
      (AXIVC_FRAGMENT_CAPACITY * k + length (fragment_at data k) = length data) False (fragment_at data k)"
    "Suc k = length (message_frames i data) \<longleftrightarrow>
      AXIVC_FRAGMENT_CAPACITY * k + length (fragment_at data k) = length data"
    "AXIVC_FRAGMENT_CAPACITY * k + length (fragment_at data k) = min (AXIVC_FRAGMENT_CAPACITY * Suc k) (length data)"
proof -
  note idx = chunk_index[OF assms(1)]
  show "k < length (message_frames i data)" using idx by (simp add: message_frames_def)
  show next_off: "AXIVC_FRAGMENT_CAPACITY * k + length (fragment_at data k) =
      min (AXIVC_FRAGMENT_CAPACITY * Suc k) (length data)"
    using assms(1) by (auto simp: fragment_at_def min_def)
  then show "message_frames i data ! k = frame_slot i (of_nat (length data)) (k = 0)
      (AXIVC_FRAGMENT_CAPACITY * k + length (fragment_at data k) = length data) False (fragment_at data k)"
    using idx assms length_concat_take_chunks[of k data] length_concat_take_chunks[of "Suc k" data]
    by (simp add: message_frames_def frames_from_nth chunks_nth unat_of_nat_u64 wire_consts del: mult_Suc_right)
  have "Suc k = length (chunks data) \<longleftrightarrow> \<not> AXIVC_FRAGMENT_CAPACITY * Suc k < length data"
  proof
    assume "Suc k = length (chunks data)"
    then show "\<not> AXIVC_FRAGMENT_CAPACITY * Suc k < length data" using chunk_index[of "Suc k" data] by auto
  next
    assume "\<not> AXIVC_FRAGMENT_CAPACITY * Suc k < length data"
    then have "length (concat (take (Suc k) (chunks data))) = length (concat (chunks data))"
      using length_concat_take_chunks[of "Suc k" data] by simp
    moreover have "length (concat (chunks data)) =
        length (concat (take (Suc k) (chunks data))) + length (concat (drop (Suc k) (chunks data)))"
      by (metis append_take_drop_id concat_append length_append)
    ultimately have "concat (drop (Suc k) (chunks data)) = []" by simp
    then have "drop (Suc k) (chunks data) = []"
      by (metis chunks_ok concat_eq_Nil_conv fragment_ok_def in_set_dropD list.set_intros(1) neq_Nil_conv)
    then show "Suc k = length (chunks data)" using idx by simp
  qed
  then show "Suc k = length (message_frames i data) \<longleftrightarrow>
      AXIVC_FRAGMENT_CAPACITY * k + length (fragment_at data k) = length data"
    using next_off assms(1) by (auto simp: message_frames_def)
qed

section \<open>The send loop\<close>

text \<open>The sender is about to publish frame \<open>k\<close> of the message \<open>data\<close> with identifier \<open>i\<close>.\<close>

definition sending_at :: "u64 \<Rightarrow> bytes \<Rightarrow> nat \<Rightarrow> axivc_message_sender \<Rightarrow> bool" where
  "sending_at i data k tx \<longleftrightarrow> sender_ok tx \<and> tx_sending tx \<and>
    tx_active tx = \<lparr>m_id = i, m_len = of_nat (length data)\<rparr> \<and>
    unat (tx_sent tx) = AXIVC_FRAGMENT_CAPACITY * k \<and> AXIVC_FRAGMENT_CAPACITY * k < length data"

lemma sending_at_published: "sending_at i data k tx \<Longrightarrow> tx_published_any tx \<longleftrightarrow> k \<noteq> 0"
proof -
  assume *: "sending_at i data k tx"
  have "tx_sent tx = 0 \<longleftrightarrow> k = 0"
    using * unat_eq_zero[of "tx_sent tx"] by (auto simp: sending_at_def wire_consts)
  with * show ?thesis by (simp add: sending_at_def sender_ok_def)
qed

lemma write_fragment:
  assumes "ring_wf ring" "sending_at i data k tx" "length data < 2 ^ 64"
  obtains (full) ring' pr where "axivc_message_try_write tx ring (fragment_at data k) = (OK, tx, ring', pr)"
      "ring_wf ring'" "ring_contents ring' = ring_contents ring"
      "sp_consumed pr = 0" "sp_published_slots pr = 0" "\<not> sp_complete pr"
  | (more) ring' tx' pr where "axivc_message_try_write tx ring (fragment_at data k) = (OK, tx', ring', pr)"
      "ring_wf ring'" "ring_contents ring' = ring_contents ring @ [message_frames i data ! k]"
      "sp_consumed pr = AXIVC_FRAGMENT_CAPACITY" "sp_published_slots pr \<noteq> 0" "\<not> sp_complete pr"
      "sending_at i data (Suc k) tx'" "Suc k < length (message_frames i data)"
  | (last) ring' tx' pr where "axivc_message_try_write tx ring (fragment_at data k) = (OK, tx', ring', pr)"
      "ring_wf ring'" "ring_contents ring' = ring_contents ring @ [message_frames i data ! k]"
      "sp_published_slots pr \<noteq> 0" "sp_complete pr" "\<not> tx_sending tx'" "Suc k = length (message_frames i data)"
proof -
  let ?frag = "fragment_at data k" and ?off = "AXIVC_FRAGMENT_CAPACITY * k"
  from assms(2) have s: "sender_ok tx" "tx_sending tx" "tx_active tx = \<lparr>m_id = i, m_len = of_nat (length data)\<rparr>"
      "unat (tx_sent tx) = ?off" "?off < length data" by (simp_all add: sending_at_def)
  note fr = message_frame_nth(1-3)[OF s(5) assms(3), of i] message_frame_nth(4)[OF s(5) assms(3)]
  have l: "unat (m_len (tx_active tx)) = length data" using assms(3) s(3) by (simp add: unat_of_nat_u64)
  have ne: "?frag \<noteq> []" "length ?frag \<le> AXIVC_FRAGMENT_CAPACITY" using s(5) by (simp_all add: fragment_at_def wire_consts)
  then have ch: "chunks ?frag = [?frag]" by (simp add: chunks_step)
  from l s(5) have nz: "m_len (tx_active tx) \<noteq> 0" by (metis not_less_zero unsigned_0)
  have le: "unat (tx_sent tx) + length ?frag \<le> unat (m_len (tx_active tx))" using fr(4) s(4) l by simp
  have k0: "?off = 0 \<longleftrightarrow> k = 0" by (simp add: wire_consts)
  show ?thesis
  proof (cases rule: try_write_cases[OF assms(1) s(1), of ?frag, case_names refused stalled empty data])
    case (refused e)
    then show ?thesis using s(1,2) nz le by (auto simp: sender_ok_def unat_sub_no_wrap)
  next
    case (data j n fin ring')
    note aw = after_write_ok[OF s(1,2) nz data(4-6)]
    show ?thesis
    proof (cases "length (ring_contents ring) = AXIVC_RING_CAPACITY")
      case True
      then have "j = 0" "n = 0" "\<not> fin" using data(5-8) by (auto simp: write_bytes_zero)
      then have eq: "axivc_message_try_write tx ring ?frag = (OK, tx, ring',
          \<lparr>sp_consumed = 0, sp_published_slots = 0, sp_complete = False\<rparr>)" using data(9) by simp
      with \<open>j = 0\<close> data(10,11) show ?thesis by (intro full[OF eq]) simp_all
    next
      case False
      then have j: "j = 1" "n = length ?frag"
        using data(7,8) ch rq.bounded[OF assms(1)] by (auto simp: write_count_def write_bytes_def)
      have c: "ring_contents ring' = ring_contents ring @ [message_frames i data ! k]"
        using data(11) s(3,4) fr(2) j ch k0 assms(3) by (simp add: unat_of_nat_u64)
      show ?thesis
      proof (cases fin)
        case True
        then show ?thesis
          using data(6,10) c j fr(3) s(4) l by (intro last[OF data(9)]) (simp_all add: after_write_def)
      next
        case nf: False
        then have lt: "Suc k \<noteq> length (message_frames i data)" using data(6) j fr(3) s(4) l by simp
        then have more': "length ?frag = AXIVC_FRAGMENT_CAPACITY" "AXIVC_FRAGMENT_CAPACITY * Suc k < length data"
          using fr(3,4) s(5) by (auto simp: min_def split: if_splits)
        have "sending_at i data (Suc k) (after_write tx n j fin)"
          using aw nf s more' j by (simp add: sending_at_def after_write_def)
        then show ?thesis
          using data(10) c j more'(1) nf lt fr(1) by (intro more[OF data(9)]) simp_all
      qed
    qed
  qed (use s nz in auto)
qed

text \<open>What the send loop leaves behind, from frame \<open>k\<close> on.\<close>

definition send_post ::
  "('w \<Rightarrow> slot list) \<Rightarrow> u64 \<Rightarrow> bytes \<Rightarrow> slot list \<Rightarrow>
    (errno + nat) \<times> axivc_message_sender \<times> axivc_ring \<times> 'w \<Rightarrow> bool" where
  "send_post seen i data before r \<longleftrightarrow> (case r of (res, tx, ring, w) \<Rightarrow> ring_wf ring \<and>
    (case res of
      Inr n \<Rightarrow> n = length data \<and> \<not> tx_sending tx \<and>
        seen w @ ring_contents ring = before @ message_frames i data
    | Inl e \<Rightarrow> \<exists>j. sending_at i data j tx \<and>
        seen w @ ring_contents ring = before @ take j (message_frames i data)))"

lemma send_loop_spec:
  assumes env: "consumer_ok env seen" "user_source env buf data" and len: "length data < 2 ^ 64"
  shows "ring_wf ring \<Longrightarrow> sending_at i data k tx \<Longrightarrow>
    seen w @ ring_contents ring = before @ take k (message_frames i data) \<Longrightarrow>
    send_loop env fuel nt buf (length data) deadline (AXIVC_FRAGMENT_CAPACITY * k) tx ring w = Some r \<Longrightarrow>
    send_post seen i data before r"
proof (induction fuel arbitrary: deadline k tx ring w)
  case (Suc fuel)
  let ?off = "AXIVC_FRAGMENT_CAPACITY * k"
  note kp = keeps_rules[OF env(1)[unfolded consumer_ok_def, THEN conjunct1]]
  have off: "?off < length data" using Suc.prems(2) by (simp add: sending_at_def)
  obtain fr w1 where fr: "fetch_fragment env buf (length data) ?off w = (fr, w1)" by fastforce
  have w1: "seen w1 = seen w" using fr kp(4) by (auto simp: fetch_fragment_def split: if_splits)
  have src: "fr = None \<or> fr = Some (fragment_at data k)"
  proof -
    let ?n = "min AXIVC_FRAGMENT_CAPACITY (length data - ?off)"
    have "fst (k_copy_from_user env (buf + ?off) ?n w) \<in> {None, Some (take ?n (drop ?off data))}"
      using env(2) off unfolding user_source_def by simp
    moreover have "take ?n (drop ?off data) = fragment_at data k" by (simp add: fragment_at_def min_def)
    moreover have "?n \<noteq> 0" using off by (simp add: wire_consts)
    ultimately show ?thesis using fr by (auto simp: fetch_fragment_def)
  qed
  show ?case
  proof (cases fr)
    case None
    then show ?thesis
      using Suc.prems fr w1 by (auto simp: send_loop_fault send_post_def)
  next
    case (Some frag)
    then have frag: "frag = fragment_at data k" using src by simp
    obtain ring2 w2 where w2: "k_peer env ring w1 = (ring2, w2)" by fastforce
    note peer = consumer_peer[OF env(1) Suc.prems(1) w2]
    obtain st tx3 ring3 pr where wr: "axivc_message_try_write tx ring2 frag = (st, tx3, ring3, pr)"
      by (cases "axivc_message_try_write tx ring2 frag")
    define pub where "pub = (sp_published_slots pr \<noteq> 0)"
    define w3 where "w3 = (if pub then axivc_notify_publisher env nt w2 else w2)"
    obtain sig w4 where sl: "k_msleep_interruptible env AXIVC_POLL_INTERVAL_MS w3 = (sig, w4)" by fastforce
    note step = send_loop_step[OF fr[unfolded Some] w2 wr pub_def w3_def sl]
    have seen: "seen w3 = seen w2" "seen w4 = seen w2" using kp(2)[OF sl] kp(5) by (simp_all add: w3_def)
    have st: "seen w2 @ ring_contents ring2 = before @ take k (message_frames i data)"
      using peer w1 Suc.prems(3) by simp
    have klt: "k < length (message_frames i data)" using message_frame_nth(1)[OF off len] .
    show ?thesis
    proof (cases rule: write_fragment[OF conjunct1[OF peer] Suc.prems(2) len, case_names full more last])
      case (full ring' pr')
      then have pr: "st = OK" "tx3 = tx" "ring3 = ring'" "pr' = pr" using wr frag by auto
      then have "\<not> pub" using full by (simp add: pub_def)
      then show ?thesis
        using Suc.prems(2,4) Suc.IH[OF full(2) Suc.prems(2), of w4 deadline] st full pr seen
        by (auto simp: step send_post_def split: if_splits)
    next
      case (more ring' tx' pr')
      then have pr: "st = OK" "tx3 = tx'" "ring3 = ring'" "pr' = pr" using wr frag by auto
      have "seen w3 @ ring_contents ring' = before @ take (Suc k) (message_frames i data)"
        using st more(3) seen klt by (simp add: take_Suc_conv_app_nth)
      then show ?thesis
        using Suc.prems(4) Suc.IH[OF more(2) more(7), of w3] more pr
        by (auto simp: step pub_def add.commute split: if_splits)
    next
      case (last ring' tx' pr')
      then have pr: "st = OK" "tx3 = tx'" "ring3 = ring'" "pr' = pr" using wr frag by auto
      have "seen w3 @ ring_contents ring' = before @ message_frames i data"
        using st last(3,7) seen take_Suc_conv_app_nth[OF klt] by (simp flip: append.assoc)
      then show ?thesis using Suc.prems(4) last pr by (auto simp: step send_post_def)
    qed
  qed
qed simp

section \<open>Aborting\<close>

definition abort_frame :: "u64 \<Rightarrow> bytes \<Rightarrow> slot" where
  "abort_frame i data = frame_slot i (of_nat (length data)) False False True []"

definition abort_post ::
  "('w \<Rightarrow> slot list) \<Rightarrow> u64 \<Rightarrow> bytes \<Rightarrow> nat \<Rightarrow> slot list \<Rightarrow>
    status \<times> axivc_message_sender \<times> axivc_ring \<times> 'w \<Rightarrow> bool" where
  "abort_post seen i data k sent r \<longleftrightarrow> (case r of (err, tx, ring, w) \<Rightarrow> ring_wf ring \<and> sender_ok tx \<and>
    (err = OK \<and> \<not> tx_sending tx \<and>
      seen w @ ring_contents ring = sent @ (if k = 0 then [] else [abort_frame i data]) \<or>
     err = Err EAGAIN \<and> k \<noteq> 0 \<and> tx_sending tx \<and> seen w @ ring_contents ring = sent))"

lemma abort_loop_spec:
  assumes env: "consumer_ok env seen"
  shows "ring_wf ring \<Longrightarrow> sending_at i data k tx \<Longrightarrow> seen w @ ring_contents ring = sent \<Longrightarrow>
    abort_loop env fuel nt deadline tx ring w = Some r \<Longrightarrow> abort_post seen i data k sent r"
proof (induction fuel arbitrary: ring w)
  case (Suc fuel)
  note kp = keeps_rules[OF env[unfolded consumer_ok_def, THEN conjunct1]]
  obtain ring1 w1 where w1: "k_peer env ring w = (ring1, w1)" by fastforce
  note peer = consumer_peer[OF env Suc.prems(1) w1]
  have tx: "sender_ok tx" "tx_sending tx" "tx_active tx = \<lparr>m_id = i, m_len = of_nat (length data)\<rparr>"
    using Suc.prems(2) by (simp_all add: sending_at_def)
  note pub = sending_at_published[OF Suc.prems(2)]
  show ?case
  proof (cases rule: try_abort_cases[OF conjunct1[OF peer] tx(1), case_names idle local full abort])
    case idle
    then show ?thesis using tx by simp
  next
    case local
    then show ?thesis
      using Suc.prems(3,4) peer pub w1 by (auto simp: abort_loop.simps(2) abort_post_def sender_ok_def)
  next
    case full
    let ?w2 = "axivc_notify_publisher env nt w1"
    let ?w3 = "k_msleep env AXIVC_POLL_INTERVAL_MS ?w2"
    have "seen ?w2 = seen w1" "seen ?w3 = seen w1" using kp(1,5) by simp_all
    then show ?thesis
      using Suc.prems(2-4) Suc.IH[of ring1 ?w3] full peer pub w1 tx(1)
      by (auto simp: abort_loop.simps(2) abort_post_def Let_def split: if_splits)
  next
    case (abort ring2)
    then show ?thesis
      using Suc.prems(3,4) peer pub w1 tx by (auto simp: abort_loop.simps(2) abort_post_def sender_ok_def abort_frame_def)
  qed
qed simp

lemma abort_send_spec:
  assumes env: "consumer_ok env seen"
    and "ring_wf ring" "sending_at i data k (ep_tx ep)" "seen w @ ring_contents ring = sent"
    and "axivc_abort_send env fuel nt ep ring w = Some (ep', ring', w')"
  shows "ring_wf ring' \<and> sender_ok (ep_tx ep') \<and> ep_rx ep' = ep_rx ep \<and>
    (\<not> tx_sending (ep_tx ep') \<and> ep_tx_error ep' = ep_tx_error ep \<and>
      seen w' @ ring_contents ring' = sent @ (if k = 0 then [] else [abort_frame i data]) \<or>
     k \<noteq> 0 \<and> tx_sending (ep_tx ep') \<and> ep_tx_error ep' = Err EPIPE \<and> seen w' @ ring_contents ring' = sent)"
proof -
  note kp = keeps_rules[OF env[unfolded consumer_ok_def, THEN conjunct1]]
  obtain err tx r2 w2 where l: "abort_loop env fuel nt (transfer_deadline env w) (ep_tx ep) ring w = Some (err, tx, r2, w2)"
    using assms(5) by (auto simp: axivc_abort_send_def Let_def split: option.splits)
  show ?thesis
    using abort_loop_spec[OF env assms(2-4) l] assms(5) l kp(5)
    by (auto simp: axivc_abort_send_def abort_post_def Let_def split: if_splits)
qed

section \<open>A concrete environment\<close>

text \<open>
  A world with a clock and a peer that takes every slot out of the ring as soon as it runs;
  the user buffer at address 0 holds \<open>data\<close>.
\<close>

definition demo_env :: "bytes \<Rightarrow> (nat \<times> slot list) kenv" where
  "demo_env data = \<lparr>
    k_jiffies = (\<lambda>w. of_nat (fst w)),
    k_msecs_to_jiffies = (\<lambda>ms. of_nat (min ms 100000)),
    k_msleep = (\<lambda>ms w. (fst w + 1, snd w)),
    k_msleep_interruptible = (\<lambda>ms w. (False, fst w + 1, snd w)),
    k_mutex_lock_interruptible = (\<lambda>w. (OK, w)),
    k_copy_from_user = (\<lambda>p n w. (Some (take n (drop p data)), w)),
    k_copy_to_user = (\<lambda>p bs w. (False, w)),
    k_hvc = (\<lambda>regs w. (0, w)),
    k_peer = (\<lambda>r w. (r\<lparr>r_head := r_tail r\<rparr>, fst w, snd w @ ring_contents r))\<rparr>"

lemma demo_clock: "clock_ok (demo_env data) fst" "timeout (demo_env data) = 30000"
  by (auto simp: clock_ok_def demo_env_def ticks_def timeout_def AXIVC_TRANSFER_TIMEOUT_MS_def unat_of_nat_u64 min_def)

lemma demo_consumer: "consumer_ok (demo_env data) snd"
  by (auto simp: consumer_ok_def keeps_def demo_env_def ring_wf_def ring_layout_def ring_used_def ring_contents_def)

lemma demo_source: "user_source (demo_env data) 0 data"
  by (simp add: user_source_def demo_env_def)

definition no_notify :: notify_target where
  "no_notify = \<lparr>n_enabled = False, n_publisher_id = 0, n_key = 0\<rparr>"

lemma demo_send:
  "\<exists>ep' ring' w'. axivc_send_message (demo_env [1, 2, 3]) 1 no_notify 0 3 axivc_endpoint_init empty_ring (0, []) =
    Some (Inr 3, ep', ring', w')"
proof -
  let ?env = "demo_env [1, 2, 3]" and ?data = "[1, 2, 3 :: u8]"
  let ?tx = "\<lparr>tx_next_message_id = 2, tx_sending = True, tx_active = \<lparr>m_id = 1, m_len = 3\<rparr>, tx_sent = 0, tx_published_any = False\<rparr>"
  define r1 where "r1 = fst (k_peer ?env empty_ring (0, []))"
  have w: "k_peer ?env empty_ring (0, []) = (r1, 0, [])" using empty_ring(2) by (simp add: r1_def demo_env_def)
  have wf: "ring_wf r1" "ring_contents r1 = []" using consumer_peer[OF demo_consumer empty_ring(1) w] empty_ring(2) by auto
  have start: "axivc_message_start (ep_tx axivc_endpoint_init) 3 = (OK, ?tx)"
    by (simp add: axivc_endpoint_init_def axivc_message_start_def axivc_message_sender_init_def)
  have at: "sending_at 1 ?data 0 ?tx" by (simp add: sending_at_def sender_ok_def)
  have len: "length ?data < 2 ^ 64" by simp
  have frag: "fragment_at ?data 0 = ?data" by (simp add: fragment_at_def wire_consts)
  have fetch: "fetch_fragment ?env 0 3 0 (0, []) = (Some ?data, (0, []))"
    by (simp add: fetch_fragment_def demo_env_def wire_consts)
  have one: "length (message_frames 1 ?data) = 1" by (simp add: message_frames_def chunks_step wire_consts)
  have "\<exists>tx3 ring3 pr. axivc_message_try_write ?tx r1 ?data = (OK, tx3, ring3, pr) \<and> sp_complete pr"
  proof (cases rule: write_fragment[OF wf(1) at len, case_names full more last])
    case (full ring' pr)
    then show ?thesis
      using frag wf at
      by (cases rule: try_write_cases[OF wf(1), of ?tx ?data, case_names ok refused stalled empty data])
        (auto simp: write_count_def chunks_step wire_consts sending_at_def simp flip: length_ring_contents)
  qed (use one frag in auto)
  then obtain tx3 ring3 pr where wr: "axivc_message_try_write ?tx r1 ?data = (OK, tx3, ring3, pr)" "sp_complete pr" by blast
  note step = send_loop_step[OF fetch w wr(1) refl refl surjective_pairing]
  show ?thesis
    using start wr(2) step
    by (simp add: axivc_send_message_def axivc_endpoint_init_def) (simp add: demo_env_def)
qed

section \<open>The whole send\<close>

lemma send_message_spec:
  assumes "consumer_ok env seen" "user_source env buf data" "0 < length data" "length data < 2 ^ 64"
    and "ring_wf ring" "sender_ok (ep_tx ep)" "\<not> tx_sending (ep_tx ep)" "ep_tx_error ep = OK"
    and "axivc_send_message env fuel nt buf (length data) ep ring w = Some (res, ep', ring', w')"
    and "F = message_frames (tx_next_message_id (ep_tx ep)) data"
    and "sent = seen w @ ring_contents ring" "sent' = seen w' @ ring_contents ring'"
  shows "ring_wf ring' \<and> sender_ok (ep_tx ep') \<and> ep_rx ep' = ep_rx ep \<and>
    (case res of
      Inr n \<Rightarrow> n = length data \<and> sent' = sent @ F \<and> \<not> tx_sending (ep_tx ep') \<and> ep_tx_error ep' = OK
    | Inl e \<Rightarrow>
      sent' = sent \<and> \<not> tx_sending (ep_tx ep') \<and> ep_tx_error ep' = OK \<or>
      (\<exists>k. 0 < k \<and> k < length F \<and>
        (sent' = sent @ take k F @ [abort_frame (tx_next_message_id (ep_tx ep)) data] \<and>
           \<not> tx_sending (ep_tx ep') \<and> ep_tx_error ep' = OK \<or>
         sent' = sent @ take k F \<and> ep_tx_error ep' = Err EPIPE)))"
proof -
  let ?i = "tx_next_message_id (ep_tx ep)"
  note kp = keeps_rules[OF assms(1)[unfolded consumer_ok_def, THEN conjunct1]]
  obtain lk w1 where lk: "k_mutex_lock_interruptible env w = (lk, w1)" by fastforce
  have w1: "seen w1 = seen w" using kp(3)[OF lk] .
  show ?thesis
  proof (cases "lk = OK \<and> ?i \<noteq> 0")
    case False
    then show ?thesis
      using assms(3,5-12) lk w1
      by (cases rule: start_cases[of "ep_tx ep" "of_nat (length data)", case_names busy exhausted started]; cases lk)
        (auto simp: axivc_send_message_def)
  next
    case go: True
    define tx where "tx = \<lparr>tx_next_message_id = ?i + 1, tx_sending = True,
      tx_active = \<lparr>m_id = ?i, m_len = of_nat (length data)\<rparr>, tx_sent = 0, tx_published_any = False\<rparr>"
    have start: "axivc_message_start (ep_tx ep) (of_nat (length data)) = (OK, tx)"
      using assms(7) go
      by (cases rule: start_cases[of "ep_tx ep" "of_nat (length data)", case_names busy exhausted started])
        (auto simp: tx_def)
    have "(of_nat (length data) :: u64) \<noteq> 0"
      using assms(3,4) unat_of_nat_u64[of "length data"] by (metis less_irrefl unsigned_0)
    then have at: "sending_at ?i data 0 tx"
      using go assms(3) by (simp add: sending_at_def tx_def sender_ok_def word_gt_0)
    obtain res1 tx1 r1 w2 where loop: "send_loop env fuel nt buf (length data) (transfer_deadline env w1) 0 tx ring w1 =
        Some (res1, tx1, r1, w2)"
      using assms(3,8,9) lk go start by (auto simp: axivc_send_message_def split: option.splits)
    have post: "send_post seen ?i data sent (res1, tx1, r1, w2)"
      using send_loop_spec[OF assms(1,2,4,5) at, of w1 sent fuel nt "transfer_deadline env w1"] loop w1 assms(11) by simp
    show ?thesis
    proof (cases res1)
      case (Inr n)
      then show ?thesis
        using post loop lk go start assms(3,8-12)
        by (auto simp: axivc_send_message_def send_post_def sender_ok_def)
    next
      case (Inl e)
      from post Inl obtain k where k: "ring_wf r1" "sending_at ?i data k tx1" "seen w2 @ ring_contents r1 = sent @ take k F"
        by (auto simp: send_post_def assms(10))
      then have klt: "k < length F" using message_frame_nth(1) assms(4,10) by (simp add: sending_at_def)
      have ab: "axivc_abort_send env fuel nt (ep\<lparr>ep_tx := tx1\<rparr>) r1 w2 = Some (ep', ring', w')" "res = Inl e"
        using Inl loop lk go start assms(3,8,9) by (auto simp: axivc_send_message_def split: option.splits)
      have "sending_at ?i data k (ep_tx (ep\<lparr>ep_tx := tx1\<rparr>))" using k(2) by simp
      from abort_send_spec[OF assms(1) k(1) this k(3) ab(1)] show ?thesis
        using klt ab(2) assms(8,12) by (cases "k = 0") (auto simp: axivc_send_message_def)
    qed
  qed
qed

section \<open>Properties\<close>

text \<open>
  C20. Every send returns. Whatever the peer, the user buffer, the hypervisor and signals do,
  if the clock runs, \<open>axivc_send_message\<close> comes back: it makes at most
  \<open>(count + 1) * (timeout + 2)\<close> iterations in either of its loops, where the timeout is 30 s
  in clock ticks.
\<close>

theorem send_returns:
  assumes "clock_ok env time" "(count + 1) * (timeout env + 2) \<le> fuel"
  shows "\<exists>res ep' ring' w'. axivc_send_message env fuel nt buf count ep ring w = Some (res, ep', ring', w')"
  using send_message_returns[OF assms, of nt buf ep ring w] by auto

theorem send_returns_witness:
  "clock_ok (demo_env [1, 2]) fst \<and> (2 + 1) * (timeout (demo_env [1, 2]) + 2) \<le> 100000 \<and>
    (\<exists>res ep' ring' w'. axivc_send_message (demo_env [1, 2]) 100000 no_notify 0 2 axivc_endpoint_init empty_ring (0, []) =
      Some (res, ep', ring', w'))"
  using send_returns[OF demo_clock(1), where data1 = "[1, 2]" and count = 2 and fuel = 100000] demo_clock by simp

text \<open>
  C5. A message is sent completely or not at all. While a peer consumes the ring, a send of
  \<open>data\<close> returns its length exactly when all frames of the message, and nothing else, were
  appended to what the peer gets to see. On any error (fault, timeout, signal, exhausted
  identifiers) the peer sees none of the frames, or some of them followed by an ABORT frame.
  If the ring stayed full so that not even the ABORT could be published, the endpoint is
  broken: every later send is refused with EPIPE and touches nothing.
\<close>

theorem send_all_or_nothing:
  assumes "consumer_ok env seen" "user_source env buf data" "0 < length data" "length data < 2 ^ 64"
    and "ring_wf ring" "sender_ok (ep_tx ep)" "\<not> tx_sending (ep_tx ep)" "ep_tx_error ep = OK"
    and "axivc_send_message env fuel nt buf (length data) ep ring w = Some (res, ep', ring', w')"
    and "F = message_frames (tx_next_message_id (ep_tx ep)) data"
    and "sent = seen w @ ring_contents ring" "sent' = seen w' @ ring_contents ring'"
  shows "ring_wf ring' \<and> sender_ok (ep_tx ep') \<and> ep_rx ep' = ep_rx ep \<and>
    (case res of
      Inr n \<Rightarrow> n = length data \<and> sent' = sent @ F \<and> \<not> tx_sending (ep_tx ep') \<and> ep_tx_error ep' = OK
    | Inl e \<Rightarrow>
      sent' = sent \<and> \<not> tx_sending (ep_tx ep') \<and> ep_tx_error ep' = OK \<or>
      (\<exists>k. 0 < k \<and> k < length F \<and>
        (sent' = sent @ take k F @ [abort_frame (tx_next_message_id (ep_tx ep)) data] \<and>
           \<not> tx_sending (ep_tx ep') \<and> ep_tx_error ep' = OK \<or>
         sent' = sent @ take k F \<and>
           (\<forall>fuel nt buf count r w w1. 0 < count \<and> k_mutex_lock_interruptible env w = (OK, w1) \<longrightarrow>
             axivc_send_message env fuel nt buf count ep' r w = Some (Inl EPIPE, ep', r, w1)))))"
  using send_message_spec[OF assms] by (cases res) (auto simp: axivc_send_message_def)

theorem send_all_or_nothing_witness:
  "consumer_ok (demo_env [1, 2, 3]) snd \<and> user_source (demo_env [1, 2, 3]) 0 [1, 2, 3] \<and>
    (\<exists>ep' ring' w'. axivc_send_message (demo_env [1, 2, 3]) 1 no_notify 0 3 axivc_endpoint_init empty_ring (0, []) =
        Some (Inr 3, ep', ring', w') \<and>
      snd w' @ ring_contents ring' = message_frames 1 [1, 2, 3])"
proof -
  obtain ep' ring' w' where s: "axivc_send_message (demo_env [1, 2, 3]) 1 no_notify 0 3
      axivc_endpoint_init empty_ring (0, []) = Some (Inr 3, ep', ring', w')"
    using demo_send by blast
  then have s': "axivc_send_message (demo_env [1, 2, 3]) 1 no_notify 0 (length [1, 2, 3 :: u8])
      axivc_endpoint_init empty_ring (0, []) = Some (Inr 3, ep', ring', w')"
    by (simp add: numeral_3_eq_3)
  have "sender_ok (ep_tx axivc_endpoint_init)" "\<not> tx_sending (ep_tx axivc_endpoint_init)" "ep_tx_error axivc_endpoint_init = OK"
    using sender_init_ok by (simp_all add: axivc_endpoint_init_def axivc_message_sender_init_def)
  from send_all_or_nothing[OF demo_consumer demo_source _ _ empty_ring(1) this s' refl refl refl]
  have "snd w' @ ring_contents ring' = message_frames 1 [1, 2, 3]"
    by (simp add: empty_ring(2) axivc_endpoint_init_def axivc_message_sender_init_def)
  with s demo_consumer demo_source show ?thesis by auto
qed

end
