(* ===== verification/Axivc_Recv.thy ===== *)
theory Axivc_Recv
  imports Axivc_Send
begin

text \<open>
  What \<open>axivc_recv_message\<close> of \<^verbatim>\<open>ivc/ivc.c\<close> does: with a peer that only appends slots, a read
  takes at most one message out of the ring and delivers all of it to the user buffer; and
  what happens when the peer rewrites a slot after it was inspected.
\<close>

section \<open>A producing peer and a user buffer\<close>

text \<open>
  \<open>hist\<close> is everything the peer has put into the ring. A producer appends slots behind the
  published ones. \<open>umem\<close> is the user buffer of \<open>count\<close> bytes at address \<open>buf\<close>.
\<close>

definition producer_ok :: "'w kenv \<Rightarrow> ('w \<Rightarrow> slot list) \<Rightarrow> bool" where
  "producer_ok env hist \<longleftrightarrow> keeps env hist \<and>
    (\<forall>p bs w. hist (snd (k_copy_to_user env p bs w)) = hist w) \<and>
    (\<forall>r w. ring_wf r \<longrightarrow> (case k_peer env r w of (r', w') \<Rightarrow>
      ring_wf r' \<and> (\<exists>xs. ring_contents r' = ring_contents r @ xs \<and> hist w' = hist w @ xs)))"

definition user_target :: "'w kenv \<Rightarrow> nat \<Rightarrow> nat \<Rightarrow> ('w \<Rightarrow> bytes) \<Rightarrow> bool" where
  "user_target env buf count umem \<longleftrightarrow> keeps env umem \<and>
    (\<forall>r w. umem (snd (k_peer env r w)) = umem w) \<and>
    (\<forall>off bs w. off + length bs \<le> count \<and> length (umem w) = count \<longrightarrow>
      (case k_copy_to_user env (buf + off) bs w of (fault, w') \<Rightarrow>
        length (umem w') = count \<and> (\<not> fault \<longrightarrow> umem w' = memcpy_at off bs (umem w))))"

lemma producer_peer:
  assumes "producer_ok env hist" "ring_wf r" "k_peer env r w = (r', w')"
  shows "ring_wf r'" "\<exists>xs. ring_contents r' = ring_contents r @ xs \<and> hist w' = hist w @ xs"
proof -
  from assms(1) have "\<forall>r w. ring_wf r \<longrightarrow> (case k_peer env r w of (r', w') \<Rightarrow>
      ring_wf r' \<and> (\<exists>xs. ring_contents r' = ring_contents r @ xs \<and> hist w' = hist w @ xs))"
    unfolding producer_ok_def by (elim conjE)
  from this[rule_format, OF assms(2), of w] assms(3)
  show "ring_wf r'" "\<exists>xs. ring_contents r' = ring_contents r @ xs \<and> hist w' = hist w @ xs" by simp_all
qed

lemma producer_keeps:
  assumes "producer_ok env hist"
  shows "keeps env hist" "k_copy_to_user env p bs w = (b, w') \<Longrightarrow> hist w' = hist w"
  using assms unfolding producer_ok_def by (blast, metis snd_conv)

lemma target_copy:
  assumes "user_target env buf count umem" "off + length bs \<le> count" "length (umem w) = count"
    and "k_copy_to_user env (buf + off) bs w = (fault, w')"
  shows "length (umem w') = count" "\<not> fault \<Longrightarrow> umem w' = memcpy_at off bs (umem w)"
proof -
  from assms(1) have "\<forall>off bs w. off + length bs \<le> count \<and> length (umem w) = count \<longrightarrow>
      (case k_copy_to_user env (buf + off) bs w of (fault, w') \<Rightarrow>
        length (umem w') = count \<and> (\<not> fault \<longrightarrow> umem w' = memcpy_at off bs (umem w)))"
    unfolding user_target_def by (elim conjE)
  from this[rule_format, of off bs w] assms(2-4)
  show "length (umem w') = count" "\<not> fault \<Longrightarrow> umem w' = memcpy_at off bs (umem w)" by simp_all
qed

lemma target_keeps:
  assumes "user_target env buf count umem"
  shows "keeps env umem" "k_peer env r w = (r', w') \<Longrightarrow> umem w' = umem w"
  using assms unfolding user_target_def by (blast, metis snd_conv)

section \<open>What the slots of one message say\<close>

lemma rx_feeds_one_message:
  assumes "list_all slot_wf ss" "rx_state rx0 = AXIVC_RX_IDLE" "rx_feeds (rx0, [], []) ss = Some (rx, log, cur)"
    and "ss = s0 # rest" "axivc_decode_frame s0 = Inr f0"
  shows "log = [] \<Longrightarrow> rx_state rx = AXIVC_RX_RECEIVING \<and> length cur \<le> unat (f_message_len f0)"
    and "log = [Delivered bs] \<Longrightarrow> rx_state rx = AXIVC_RX_IDLE \<Longrightarrow> length bs = unat (f_message_len f0)"
proof -
  have "justified_view [] (rx0, [], [])" using assms(2) by (simp add: justified_view_def)
  from rx_feeds_justified[OF assms(1) this assms(3)] have j: "justified_view ss (rx, log, cur)" by simp
  then obtain groups os where g: "ss = concat groups @ os" "list_all2 justifies groups log"
    and os: "if rx_state rx = AXIVC_RX_RECEIVING then \<exists>fs. message_run (rx_active rx) os fs \<and>
        \<not> f_last (last fs) \<and> \<not> f_abort (last fs) \<and> cur = payload fs else os = []"
    by (auto simp: justified_view_def)
  have run: "m_len meta = f_message_len f0" if "message_run meta ss fs" for meta fs
    using that assms(4,5) by (cases fs) (auto simp: message_run_def)
  have ok: "rx_ok (rx, log, cur)" using j by (simp add: justified_view_def)
  show "rx_state rx = AXIVC_RX_RECEIVING \<and> length cur \<le> unat (f_message_len f0)" if "log = []"
  proof -
    have ss: "ss = os" using g that by simp
    with assms(4) os have st: "rx_state rx = AXIVC_RX_RECEIVING" by (auto split: if_splits)
    then have "m_len (rx_active rx) = f_message_len f0" using os ss run by auto
    with ok st show ?thesis by (simp add: word_le_nat_alt)
  qed
  show "length bs = unat (f_message_len f0)" if l: "log = [Delivered bs]" and i: "rx_state rx = AXIVC_RX_IDLE"
  proof -
    obtain x where x: "groups = [x]" "justifies x (Delivered bs)"
      using g(2) l by (auto simp: list_all2_Cons2)
    then have "ss = x" using g(1) os i by simp
    with x(2) run show ?thesis by (auto simp: justifies_def)
  qed
qed

lemma rx_slot_data:
  assumes "slot_wf s" "rx_slot rx s = Inr (rx', data, t)" "rx_state rx \<noteq> AXIVC_RX_FAILED" "\<not> tr_aborted t" "\<not> tr_complete t"
  shows "data \<noteq> []"
proof -
  from assms(2) obtain f where f: "axivc_decode_frame s = Inr f"
      "axivc_validate_transition rx f blank_transition = (OK, t)" "data = take (f_fragment_len f) (f_fragment f)"
    by (auto simp: rx_slot_def split: sum.splits prod.splits option.splits)
  have "\<not> f_abort f" "\<not> f_last f"
    using f(2) assms(3-5)
    by (auto simp: axivc_validate_transition_def Let_def split: if_splits axivc_receiver_state.splits)
  moreover have "frame_ok f" using decode_frame_inv[OF assms(1) f(1)] by simp
  ultimately have "f_fragment_len f \<noteq> 0"
    by (auto simp: frame_ok_def axivc_validate_frame_shape_def split: if_splits)
  with decode_len(2)[OF assms(1) f(1)] f(3) show ?thesis by auto
qed

lemma rx_feeds_grow:
  assumes "list_all slot_wf ss" "rx_state rx \<noteq> AXIVC_RX_FAILED" "rx_feeds (rx, log, cur) ss = Some (rx', log, cur')"
  shows "length cur + length ss \<le> length cur'"
  using assms
proof (induction ss arbitrary: rx cur)
  case (Cons s ss)
  then obtain rx1 data t where acc: "rx_slot rx s = Inr (rx1, data, t)" by (cases "rx_slot rx s") auto
  have "\<not> tr_aborted t \<and> \<not> tr_complete t"
    using Cons.prems(3) acc rx_feeds_log by (fastforce split: if_splits)
  with Cons.prems acc rx_slot_data[OF _ acc] Cons.IH[OF _ rx_slot_state[OF acc], of "cur @ data"] show ?case
    by (cases data) auto
qed simp

section \<open>The receive loop\<close>

definition store_fragment ::
  "'w kenv \<Rightarrow> nat \<Rightarrow> axivc_receive_progress \<Rightarrow> bytes \<Rightarrow> 'w \<Rightarrow> bool \<times> 'w" where
  "store_fragment env p pr frag w =
    (if rp_written pr \<noteq> 0 then k_copy_to_user env p (take (rp_written pr) frag) w else (False, w))"

lemma recv_loop_step:
  assumes "k_peer env ring w = (ring1, w1)"
    and "axivc_message_try_read rx ring1 (replicate AXIVC_FRAGMENT_CAPACITY 0) = (st, rx2, ring2, frag, pr)"
    and "con \<longleftrightarrow> rp_consumed_slots pr \<noteq> 0" "w2 = (if con then axivc_notify_publisher env nt w1 else w1)"
    and "store_fragment env (buf + received) pr frag w2 = (fault, w3)"
    and "k_msleep_interruptible env AXIVC_POLL_INTERVAL_MS w3 = (sig, w4)"
  shows "recv_loop env (Suc fuel) nt buf meta deadline received rx ring w =
    (case st of
      Some err \<Rightarrow> Some (Inl err, rx2, ring2, if err = ECONNRESET then axivc_notify_publisher env nt w1 else w1)
    | None \<Rightarrow>
      if fault then Some (Inl EFAULT, axivc_message_receiver_poison rx2 EFAULT, ring2, w3)
      else if rp_complete pr then
        Some (if m_len meta = 0 then Inl EOPNOTSUPP else Inr (received + rp_written pr), rx2, ring2, w3)
      else if con then
        recv_loop env fuel nt buf meta (transfer_deadline env w1) (received + rp_written pr) rx2 ring2 w3
      else if time_after_eq (k_jiffies env w3) deadline then
        Some (Inl ETIMEDOUT, axivc_message_receiver_poison rx2 ETIMEDOUT, ring2, w3)
      else if sig then Some (Inl ERESTARTSYS, axivc_message_receiver_poison rx2 ERESTARTSYS, ring2, w4)
      else recv_loop env fuel nt buf meta deadline (received + rp_written pr) rx2 ring2 w4)"
  using assms(3-6)
  by (simp only: recv_loop.simps(2) Let_def assms(1,2) prod.case option.case store_fragment_def[symmetric])
    (auto split: option.split)

text \<open>
  The state of a read in progress: the slots \<open>ss\<close> taken so far begin with the one that was
  inspected, the receiver has accepted them without completing a message, and their payload
  \<open>cur\<close> is what the user buffer holds.
\<close>

record 'w recv_run =
  rr_hist :: "'w \<Rightarrow> slot list"
  rr_umem :: "'w \<Rightarrow> bytes"
  rr_count :: nat
  rr_rx0 :: axivc_message_receiver
  rr_hist0 :: "slot list"
  rr_ring0 :: "slot list"
  rr_first :: axivc_decoded_frame

definition run_ok :: "'w kenv \<Rightarrow> nat \<Rightarrow> 'w recv_run \<Rightarrow> bool" where
  "run_ok env buf R \<longleftrightarrow> producer_ok env (rr_hist R) \<and> user_target env buf (rr_count R) (rr_umem R) \<and>
    rx_state (rr_rx0 R) = AXIVC_RX_IDLE \<and> rr_ring0 R \<noteq> [] \<and>
    axivc_decode_frame (hd (rr_ring0 R)) = Inr (rr_first R) \<and> unat (f_message_len (rr_first R)) \<le> rr_count R"

text \<open>The slots \<open>ss\<close> were taken out of the ring, and the user buffer still has its size.\<close>

definition taken :: "'w recv_run \<Rightarrow> slot list \<Rightarrow> axivc_ring \<Rightarrow> 'w \<Rightarrow> bool" where
  "taken R ss ring w \<longleftrightarrow> ring_wf ring \<and> list_all slot_wf ss \<and> length (rr_umem R w) = rr_count R \<and>
    (\<exists>new. rr_hist R w = rr_hist0 R @ new \<and> rr_ring0 R @ new = ss @ ring_contents ring)"

definition recv_inv ::
  "'w recv_run \<Rightarrow> slot list \<Rightarrow> bytes \<Rightarrow> axivc_message_receiver \<Rightarrow> axivc_ring \<Rightarrow> 'w \<Rightarrow> bool" where
  "recv_inv R ss cur rx ring w \<longleftrightarrow> taken R ss ring w \<and>
    rx_feeds (rr_rx0 R, [], []) ss = Some (rx, [], cur) \<and> take (length cur) (rr_umem R w) = cur"

definition recv_post ::
  "'w recv_run \<Rightarrow> (errno + nat) \<times> axivc_message_receiver \<times> axivc_ring \<times> 'w \<Rightarrow> bool" where
  "recv_post R r \<longleftrightarrow> (case r of (res, rx, ring, w) \<Rightarrow> \<exists>ss. taken R ss ring w \<and>
    (case res of
      Inr n \<Rightarrow> \<exists>bs. rx_feeds (rr_rx0 R, [], []) ss = Some (rx, [Delivered bs], []) \<and> rx_state rx = AXIVC_RX_IDLE \<and>
        n = length bs \<and> 0 < n \<and> n \<le> rr_count R \<and> take n (rr_umem R w) = bs
    | Inl e \<Rightarrow>
        if e = EOPNOTSUPP then rx_feeds (rr_rx0 R, [], []) ss = Some (rx, [Delivered []], []) \<and> rx_state rx = AXIVC_RX_IDLE
        else if e = ECONNRESET then rx_feeds (rr_rx0 R, [], []) ss = Some (rx, [Reset], []) \<and> rx_state rx = AXIVC_RX_IDLE
        else rx_state rx = AXIVC_RX_FAILED \<and> rx_failed_errno rx = Err e))"

lemma taken_bound:
  assumes "run_ok env buf R" "taken R ss ring w" "rx_feeds (rr_rx0 R, [], []) ss = Some (rx, log, cur)"
  shows "log = [] \<Longrightarrow> length cur \<le> unat (f_message_len (rr_first R)) \<and> rx_state rx \<noteq> AXIVC_RX_FAILED"
    "log = [Delivered bs] \<Longrightarrow> rx_state rx = AXIVC_RX_IDLE \<Longrightarrow> length bs = unat (f_message_len (rr_first R))"
proof -
  from assms(1) have r: "rx_state (rr_rx0 R) = AXIVC_RX_IDLE" "rr_ring0 R \<noteq> []"
    "axivc_decode_frame (hd (rr_ring0 R)) = Inr (rr_first R)" by (simp_all add: run_ok_def)
  have wf: "list_all slot_wf ss" using assms(2) by (simp add: taken_def)
  have hd: "ss = hd (rr_ring0 R) # tl ss" if "ss \<noteq> []"
    using assms(2) that r(2) unfolding taken_def by (metis hd_append2 list.exhaust_sel)
  show "length cur \<le> unat (f_message_len (rr_first R)) \<and> rx_state rx \<noteq> AXIVC_RX_FAILED" if "log = []"
  proof (cases "ss = []")
    case True
    then show ?thesis using assms(3) r(1) by auto
  next
    case False
    then show ?thesis using rx_feeds_one_message(1)[OF wf r(1) assms(3) hd r(3)] that by auto
  qed
  show "length bs = unat (f_message_len (rr_first R))" if "log = [Delivered bs]" "rx_state rx = AXIVC_RX_IDLE"
  proof -
    have "ss \<noteq> []" using assms(3) that(1) by auto
    then show ?thesis using rx_feeds_one_message(2)[OF wf r(1) assms(3) hd r(3)] that by auto
  qed
qed

lemma rx_slot_len:
  "slot_wf s \<Longrightarrow> rx_slot rx s = Inr (rx', data, t) \<Longrightarrow> length data \<le> AXIVC_FRAGMENT_CAPACITY"
  by (auto simp: rx_slot_def min.coboundedI2 min.coboundedI1 dest: decode_len(1)
      split: sum.splits prod.splits option.splits)

lemma rx_slot_next:
  "rx_slot rx s = Inr (rx', data, t) \<Longrightarrow> rx_state rx \<noteq> AXIVC_RX_FAILED \<Longrightarrow> tr_aborted t \<or> tr_complete t \<Longrightarrow>
    rx_state rx' = AXIVC_RX_IDLE"
  by (auto simp: rx_slot_def axivc_validate_transition_def apply_transition_def Let_def
      split: sum.splits prod.splits option.splits if_splits axivc_receiver_state.splits)

lemma rx_feeds_end:
  assumes "list_all slot_wf ss" "rx_state rx \<noteq> AXIVC_RX_FAILED" "rx_feeds (rx, log, cur) ss = Some (rx', log', [])" "ss \<noteq> []"
  shows "rx_state rx' = AXIVC_RX_IDLE"
proof -
  from assms(4) obtain s ss' where ss: "ss = ss' @ [s]" by (metis rev_exhaust)
  with assms(3) obtain v where v: "rx_feeds (rx, log, cur) ss' = Some v" "rx_feed v s = Some (rx', log', [])"
    by (auto simp: rx_feeds_append split: option.splits)
  obtain a b c where abc: "v = (a, b, c)" by (cases v)
  have a: "rx_state a \<noteq> AXIVC_RX_FAILED" using rx_feeds_state[OF v(1)] assms(2) abc by simp
  from v(2) abc obtain data t where acc: "rx_slot a s = Inr (rx', data, t)"
      "tr_aborted t \<or> tr_complete t \<or> c @ data = []"
    by (auto split: sum.splits if_splits)
  then show ?thesis using rx_slot_next[OF acc(1) a] rx_slot_data[OF _ acc(1) a] assms(1) ss by auto
qed

lemma taken_peer:
  assumes "run_ok env buf R" "taken R ss ring w" "k_peer env ring w = (ring1, w1)"
  shows "taken R ss ring1 w1" "rr_umem R w1 = rr_umem R w"
proof -
  from assms(1) have e: "producer_ok env (rr_hist R)" "user_target env buf (rr_count R) (rr_umem R)"
    by (simp_all add: run_ok_def)
  have wf: "ring_wf ring" using assms(2) by (simp add: taken_def)
  obtain xs where xs: "ring_contents ring1 = ring_contents ring @ xs" "rr_hist R w1 = rr_hist R w @ xs"
    using producer_peer(2)[OF e(1) wf assms(3)] by blast
  show u: "rr_umem R w1 = rr_umem R w" using target_keeps(2)[OF e(2) assms(3)] .
  obtain new where n: "rr_hist R w = rr_hist0 R @ new" "rr_ring0 R @ new = ss @ ring_contents ring"
    using assms(2) by (auto simp: taken_def)
  have "rr_hist R w1 = rr_hist0 R @ (new @ xs)" using n(1) xs(2) by simp
  moreover have "rr_ring0 R @ (new @ xs) = ss @ ring_contents ring1"
    using arg_cong[OF n(2), of "\<lambda>x. x @ xs"] xs(1) by simp
  ultimately show "taken R ss ring1 w1"
    using assms(2) u producer_peer(1)[OF e(1) wf assms(3)] unfolding taken_def by auto
qed

lemma taken_consume:
  assumes "taken R ss ring w" "ring_wf ring'" "ring_contents ring' = drop k (ring_contents ring)"
  shows "taken R (ss @ take k (ring_contents ring)) ring' w"
proof -
  have "slot_wf s" if "s \<in> set (take k (ring_contents ring))" for s
    using that assms(1) rq.elems_ok[of ring s] by (auto simp: taken_def dest: in_set_takeD)
  then show ?thesis using assms by (auto simp: taken_def list_all_iff)
qed

lemma taken_world:
  "taken R ss ring w \<Longrightarrow> rr_hist R w' = rr_hist R w \<Longrightarrow> length (rr_umem R w') = rr_count R \<Longrightarrow> taken R ss ring w'"
  by (simp add: taken_def)

lemma run_keeps:
  assumes "run_ok env buf R"
  shows "rr_hist R (axivc_notify_publisher env nt w) = rr_hist R w" "rr_umem R (axivc_notify_publisher env nt w) = rr_umem R w"
    "k_msleep_interruptible env ms w = (sig, w') \<Longrightarrow> rr_hist R w' = rr_hist R w \<and> rr_umem R w' = rr_umem R w"
  using assms keeps_rules[OF producer_keeps(1)] keeps_rules[OF target_keeps(1)]
  by (auto simp: run_ok_def)

text \<open>Storing the fragment that was read keeps the user buffer in step.\<close>

lemma store_fragment_ok:
  assumes "run_ok env buf R" "length (rr_umem R w) = rr_count R" "take (length cur) (rr_umem R w) = cur"
    and "length (cur @ data) \<le> rr_count R" "rp_written pr = length data" "take (length data) frag = data"
    and "store_fragment env (buf + length cur) pr frag w = (fault, w')"
  shows "rr_hist R w' = rr_hist R w" "length (rr_umem R w') = rr_count R"
    "\<not> fault \<Longrightarrow> take (length (cur @ data)) (rr_umem R w') = cur @ data"
proof -
  from assms(1) have e: "producer_ok env (rr_hist R)" "user_target env buf (rr_count R) (rr_umem R)"
    by (simp_all add: run_ok_def)
  have "rr_hist R w' = rr_hist R w \<and> length (rr_umem R w') = rr_count R \<and>
    (\<not> fault \<longrightarrow> take (length (cur @ data)) (rr_umem R w') = cur @ data)"
  proof (cases "data = []")
    case True
    then show ?thesis using assms by (auto simp: store_fragment_def)
  next
    case False
    then have c: "k_copy_to_user env (buf + length cur) data w = (fault, w')"
      using assms(5-7) by (simp add: store_fragment_def)
    note copy = target_copy[OF e(2) _ assms(2) c]
    have "take (length cur + length data) (memcpy_at (length cur) data (rr_umem R w)) = cur @ data"
      using assms(2-4) by (subst take_memcpy_at_end) auto
    then show ?thesis using copy assms(4) producer_keeps(2)[OF e(1) c] by simp
  qed
  then show "rr_hist R w' = rr_hist R w" "length (rr_umem R w') = rr_count R"
    "\<not> fault \<Longrightarrow> take (length (cur @ data)) (rr_umem R w') = cur @ data" by simp_all
qed

text \<open>One read of the message layer in the middle of a receive.\<close>

lemma try_read_taken:
  assumes "run_ok env buf R" "taken R ss ring w" "rx_feeds (rr_rx0 R, [], []) ss = Some (rx, [], cur)"
    and "axivc_message_try_read rx ring (replicate AXIVC_FRAGMENT_CAPACITY 0) = (st, rx2, ring2, frag, pr)"
  obtains (ok) k data where "st = OK" "rp_consumed_slots pr = k" "rp_written pr = length data" "take (length data) frag = data"
      "taken R (ss @ take k (ring_contents ring)) ring2 w" "length (cur @ data) \<le> rr_count R"
      "rx_feeds (rr_rx0 R, [], []) (ss @ take k (ring_contents ring)) =
        Some (if rp_complete pr then (rx2, [Delivered (cur @ data)], []) else (rx2, [], cur @ data))"
      "rp_complete pr \<Longrightarrow> rx_state rx2 = AXIVC_RX_IDLE \<and> length (cur @ data) = unat (f_message_len (rr_first R))"
      "k \<noteq> 0 \<Longrightarrow> \<not> rp_complete pr \<Longrightarrow> data \<noteq> []" "k = 0 \<Longrightarrow> \<not> rp_complete pr \<and> rx2 = rx \<and> data = []"
  | (bad) e where "st = Err e" "e = EPROTO \<or> e = EPROTONOSUPPORT" "taken R ss ring2 w"
      "rx2 = axivc_message_receiver_poison rx e"
  | (reset) s where "st = Err ECONNRESET" "taken R (ss @ [s]) ring2 w" "rx_state rx2 = AXIVC_RX_IDLE"
      "rx_feeds (rr_rx0 R, [], []) (ss @ [s]) = Some (rx2, [Reset], [])"
proof -
  have wf: "ring_wf ring" using assms(2) by (simp add: taken_def)
  have nf: "rx_state rx \<noteq> AXIVC_RX_FAILED" using taken_bound(1)[OF assms(1-3)] by simp
  have slots: "slot_wf s" if "s \<in> set (ring_contents ring)" for s using rq.elems_ok[OF wf that] .
  show ?thesis
  proof (cases rule: try_read_cases[OF wf, of rx "replicate AXIVC_FRAGMENT_CAPACITY 0", case_names failed ok bad reset small])
    case failed
    then show ?thesis using nf by simp
  next
    case (ok res)
    then have res: "res = (rx2, ring2, frag, pr)" "st = OK" using assms(4) by simp_all
    from ok(3) obtain k data where k: "rp_consumed_slots pr = k" "ring_wf ring2" "ring_contents ring2 = drop k (ring_contents ring)"
      "length data \<le> AXIVC_FRAGMENT_CAPACITY" "frag = memcpy_at 0 data (replicate AXIVC_FRAGMENT_CAPACITY 0)"
      "rp_written pr = length data" "k \<le> length (ring_contents ring)"
      "\<forall>log cur. rx_feeds (rx, log, cur) (take k (ring_contents ring)) =
        Some (if rp_complete pr then (rx2, log @ [Delivered (cur @ data)], []) else (rx2, log, cur @ data))"
      by (auto simp: read_ok_def res)
    let ?ss = "take k (ring_contents ring)"
    note tk = taken_consume[OF assms(2) k(2,3)]
    have feeds: "rx_feeds (rr_rx0 R, [], []) (ss @ ?ss) =
        Some (if rp_complete pr then (rx2, [Delivered (cur @ data)], []) else (rx2, [], cur @ data))"
      using assms(3) k(8) by (simp add: rx_feeds_append)
    have wfs: "list_all slot_wf ?ss" using slots by (auto simp: list_all_iff dest: in_set_takeD)
    have k0: "\<not> rp_complete pr \<and> rx2 = rx \<and> data = []" if "k = 0"
      using k(8) that by (auto split: if_splits)
    have cmp: "rx_state rx2 = AXIVC_RX_IDLE \<and> length (cur @ data) = unat (f_message_len (rr_first R))" if "rp_complete pr"
    proof -
      have "?ss \<noteq> []" using that k0 k(7) by (auto simp del: length_ring_contents)
      then have "rx_state rx2 = AXIVC_RX_IDLE"
        using rx_feeds_end[OF wfs nf, of "[]" cur rx2 "[Delivered (cur @ data)]"] k(8) that by simp
      then show ?thesis using taken_bound(2)[OF assms(1) tk feeds[simplified that if_True]] by simp
    qed
    have grow: "data \<noteq> []" if "k \<noteq> 0" "\<not> rp_complete pr"
      using rx_feeds_grow[OF wfs nf, of "[]" cur rx2 "cur @ data"] k(7,8) that by auto
    have "length (cur @ data) \<le> unat (f_message_len (rr_first R))"
    proof (cases "rp_complete pr")
      case False
      then show ?thesis using taken_bound(1)[OF assms(1) tk feeds[simplified False if_False]] by simp
    qed (use cmp in simp)
    then have le: "length (cur @ data) \<le> rr_count R" using assms(1) by (simp add: run_ok_def)
    have "take (length data) frag = data" using k(4,5) by (simp add: memcpy_at_def)
    from that(1)[OF res(2) k(1,6) this tk le feeds cmp grow k0] show ?thesis .
  next
    case (bad s sl e)
    then show ?thesis using assms(2,4) rx_slot_error[OF bad(3) nf] by (intro that(2)[of e]) auto
  next
    case (reset s rx' data t)
    then have r2: "rx2 = rx'" "ring2 = axivc_ring_pop_slot ring" "st = Err ECONNRESET" using assms(4) by simp_all
    have "ring_contents ring2 = drop 1 (ring_contents ring)" "take 1 (ring_contents ring) = [s]"
      using reset(2) r2(2) by (metis One_nat_def drop0 drop_Suc_Cons) (metis One_nat_def reset(2) take0 take_Suc_Cons)
    then show ?thesis
      using taken_consume[OF assms(2), of ring2 1] reset(3-5) r2 assms(3) rx_slot_next[OF reset(3) nf]
      by (intro that(3)[of s]) (auto simp: rx_feeds_append)
  next
    case (small s sl rx' data t)
    then show ?thesis using rx_slot_len[OF slots small(3)] by simp
  qed
qed

text \<open>
  An iteration that goes on: it received something and set a new deadline, or it received
  nothing and slept, so that time has passed.
\<close>

definition recv_again :: "'w kenv \<Rightarrow> u64 \<Rightarrow> bytes \<Rightarrow> 'w \<Rightarrow> u64 \<Rightarrow> bytes \<Rightarrow> 'w \<Rightarrow> bool" where
  "recv_again env deadline cur w deadline' cur' w' \<longleftrightarrow>
    length cur < length cur' \<and> (\<exists>w1. deadline' = transfer_deadline env w1 \<and>
      (\<forall>time. clock_ok env time \<longrightarrow> time w1 \<le> time w' \<and> time w' < time w1 + 2 ^ 61)) \<or>
    cur' = cur \<and> deadline' = deadline \<and>
      (\<forall>time t0. clock_ok env time \<and> deadline = of_nat t0 + of_nat (timeout env) \<and>
        t0 \<le> time w \<and> time w < t0 + timeout env + 2 ^ 61 \<longrightarrow>
        time w < t0 + timeout env \<and> time w < time w' \<and> time w' < t0 + timeout env + 2 ^ 61)"

definition recv_outcome ::
  "'w kenv \<Rightarrow> notify_target \<Rightarrow> nat \<Rightarrow> axivc_message_meta \<Rightarrow> 'w recv_run \<Rightarrow> u64 \<Rightarrow> bytes \<Rightarrow>
    axivc_message_receiver \<Rightarrow> axivc_ring \<Rightarrow> 'w \<Rightarrow> bool" where
  "recv_outcome env nt buf meta R deadline cur rx ring w \<longleftrightarrow>
    (\<exists>r. (\<forall>fuel. recv_loop env (Suc fuel) nt buf meta deadline (length cur) rx ring w = Some r) \<and> recv_post R r) \<or>
    (\<exists>ss' cur' rx' ring' w' deadline'. recv_inv R ss' cur' rx' ring' w' \<and>
      (\<forall>fuel. recv_loop env (Suc fuel) nt buf meta deadline (length cur) rx ring w =
        recv_loop env fuel nt buf meta deadline' (length cur') rx' ring' w') \<and>
      recv_again env deadline cur w deadline' cur' w')"

lemma recv_outcome_return:
  "(\<And>fuel. recv_loop env (Suc fuel) nt buf meta deadline (length cur) rx ring w = Some r) \<Longrightarrow> recv_post R r \<Longrightarrow>
    recv_outcome env nt buf meta R deadline cur rx ring w"
  unfolding recv_outcome_def by blast

lemma recv_outcome_again:
  "recv_inv R ss' cur' rx' ring' w' \<Longrightarrow>
    (\<And>fuel. recv_loop env (Suc fuel) nt buf meta deadline (length cur) rx ring w =
      recv_loop env fuel nt buf meta deadline' (length cur') rx' ring' w') \<Longrightarrow>
    recv_again env deadline cur w deadline' cur' w' \<Longrightarrow> recv_outcome env nt buf meta R deadline cur rx ring w"
  unfolding recv_outcome_def by blast

lemma recv_store_time:
  assumes "store_fragment env p pr frag (axivc_notify_publisher env nt w1) = (fault, w3)" "clock_ok env time"
  shows "time w1 \<le> time w3 \<and> time w3 < time w1 + 2 ^ 61"
proof -
  have "ticks time (axivc_notify_publisher env nt w1) w3"
    using assms clock_rules(3)[OF assms(2)] by (auto simp: store_fragment_def split: if_splits)
  then show ?thesis using clock_notify[OF assms(2), of w1 nt] by (simp add: ticks_def)
qed

lemma recv_wait_time:
  assumes "k_peer env ring w = (ring1, w1)" "k_msleep_interruptible env ms w1 = (False, w4)"
    and "\<not> time_after_eq (k_jiffies env w1) deadline"
  shows "recv_again env deadline cur w deadline cur w4"
proof -
  have "time w < t0 + timeout env \<and> time w < time w4 \<and> time w4 < t0 + timeout env + 2 ^ 61"
    if *: "clock_ok env time" "deadline = of_nat t0 + of_nat (timeout env)" "t0 \<le> time w" "time w < t0 + timeout env + 2 ^ 61"
    for time t0
  proof -
    have t: "ticks time w w1" "ticks time w1 w4 \<and> time w1 < time w4"
      using clock_rules(1,7)[OF *(1)] assms(1,2) by auto
    have "\<not> t0 + timeout env \<le> time w1"
      using deadline_check[OF *(1), of t0 w1] assms(3) t(1) * by (auto simp: ticks_def)
    with t show ?thesis by (auto simp: ticks_def)
  qed
  then show ?thesis unfolding recv_again_def by blast
qed

lemma recv_iteration_ok:
  assumes "run_ok env buf R" "m_len meta = f_message_len (rr_first R)" "k_peer env ring w = (ring1, w1)"
    and rd: "axivc_message_try_read rx ring1 (replicate AXIVC_FRAGMENT_CAPACITY 0) = (OK, rx2, ring2, frag, pr)"
    and tk: "taken R ss2 ring2 w1" and cur: "take (length cur) (rr_umem R w1) = cur"
    and data: "length (cur @ data) \<le> rr_count R" "rp_written pr = length data" "take (length data) frag = data"
    and feeds: "rx_feeds (rr_rx0 R, [], []) ss2 =
      Some (if rp_complete pr then (rx2, [Delivered (cur @ data)], []) else (rx2, [], cur @ data))"
    and fin: "rp_complete pr \<Longrightarrow> rx_state rx2 = AXIVC_RX_IDLE \<and> length (cur @ data) = unat (f_message_len (rr_first R))"
    and grow: "rp_consumed_slots pr \<noteq> 0 \<Longrightarrow> \<not> rp_complete pr \<Longrightarrow> data \<noteq> []"
    and none: "rp_consumed_slots pr = 0 \<Longrightarrow> \<not> rp_complete pr \<and> rx2 = rx \<and> data = []"
  shows "recv_outcome env nt buf meta R deadline cur rx ring w"
proof -
  define con where "con = (rp_consumed_slots pr \<noteq> 0)"
  define w2 where "w2 = (if con then axivc_notify_publisher env nt w1 else w1)"
  obtain fault w3 where sf: "store_fragment env (buf + length cur) pr frag w2 = (fault, w3)" by fastforce
  obtain sig w4 where sl: "k_msleep_interruptible env AXIVC_POLL_INTERVAL_MS w3 = (sig, w4)" by fastforce
  note step = recv_loop_step[OF assms(3) rd con_def w2_def sf sl]
  have w2: "rr_hist R w2 = rr_hist R w1" "rr_umem R w2 = rr_umem R w1"
    using run_keeps(1,2)[OF assms(1)] by (simp_all add: w2_def)
  have len2: "length (rr_umem R w2) = rr_count R" "take (length cur) (rr_umem R w2) = cur"
    using tk cur w2(2) by (simp_all add: taken_def)
  note st = store_fragment_ok[OF assms(1) len2 data sf]
  have tk3: "taken R ss2 ring2 w3" using taken_world[OF tk] st(1,2) w2(1) by simp
  have w4: "rr_umem R w4 = rr_umem R w3" "taken R ss2 ring2 w4"
    using taken_world[OF tk3] run_keeps(3)[OF assms(1) sl] st(2) by simp_all
  consider (fault) fault | (complete) "\<not> fault" "rp_complete pr" | (more) "\<not> fault" "\<not> rp_complete pr" con
    | (quiet) "\<not> fault" "\<not> rp_complete pr" "\<not> con" by blast
  then show ?thesis
  proof cases
    case fault
    then have "recv_post R (Inl EFAULT, axivc_message_receiver_poison rx2 EFAULT, ring2, w3)"
      using tk3 by (auto simp: recv_post_def axivc_message_receiver_poison_def)
    then show ?thesis using fault step by (intro recv_outcome_return) auto
  next
    case complete
    let ?res = "if m_len meta = 0 then Inl EOPNOTSUPP else Inr (length cur + rp_written pr)"
    have z: "m_len meta = 0 \<longleftrightarrow> cur @ data = []"
      using fin[OF complete(2)] assms(2) by (metis length_0_conv unat_eq_zero)
    have "recv_post R (?res, rx2, ring2, w3)"
    proof (cases "m_len meta = 0")
      case True
      then show ?thesis
        using tk3 feeds fin[OF complete(2)] complete z by (auto simp: recv_post_def intro!: exI[of _ ss2])
    next
      case False
      then have "0 < length (cur @ data)" using z by blast
      then have "recv_post R (Inr (length (cur @ data)), rx2, ring2, w3)"
        unfolding recv_post_def prod.case sum.case
        using tk3 feeds[simplified complete if_True] conjunct1[OF fin[OF complete(2)]] st(3)[OF complete(1)] data(1) by blast
      then show ?thesis using False data(2) by simp
    qed
    then show ?thesis using complete step by (intro recv_outcome_return) auto
  next
    case more
    have "store_fragment env (buf + length cur) pr frag (axivc_notify_publisher env nt w1) = (fault, w3)"
      using sf more(3) by (simp add: w2_def)
    from recv_store_time[OF this] have "recv_again env deadline cur w (transfer_deadline env w1) (cur @ data) w3"
      using grow more(2,3) unfolding recv_again_def con_def by auto
    moreover have "recv_inv R ss2 (cur @ data) rx2 ring2 w3" using tk3 feeds more st(3) by (simp add: recv_inv_def)
    ultimately show ?thesis using more step data(2) by (intro recv_outcome_again) auto
  next
    case quiet
    then have q: "rx2 = rx" "data = []" "w3 = w1"
      using none sf data(2) by (auto simp: con_def store_fragment_def w2_def)
    have inv: "recv_inv R ss2 cur rx ring2 w4" using w4 feeds quiet q cur by (simp add: recv_inv_def)
    consider (expired) "time_after_eq (k_jiffies env w1) deadline"
      | (signal) "\<not> time_after_eq (k_jiffies env w1) deadline" sig
      | (wait) "\<not> time_after_eq (k_jiffies env w1) deadline" "\<not> sig" by blast
    then show ?thesis
    proof cases
      case expired
      have "recv_post R (Inl ETIMEDOUT, axivc_message_receiver_poison rx2 ETIMEDOUT, ring2, w3)"
        using tk3 by (auto simp: recv_post_def axivc_message_receiver_poison_def)
      then show ?thesis using expired quiet q step by (intro recv_outcome_return) auto
    next
      case signal
      have "recv_post R (Inl ERESTARTSYS, axivc_message_receiver_poison rx2 ERESTARTSYS, ring2, w4)"
        using w4(2) by (auto simp: recv_post_def axivc_message_receiver_poison_def)
      then show ?thesis using signal quiet q step by (intro recv_outcome_return) auto
    next
      case wait
      then show ?thesis
        using recv_wait_time[OF assms(3), of _ w4 deadline cur] sl q step quiet data(2)
        by (intro recv_outcome_again[OF inv]) auto
    qed
  qed
qed

lemma recv_iteration:
  assumes "run_ok env buf R" "recv_inv R ss cur rx ring w" "m_len meta = f_message_len (rr_first R)"
  shows "recv_outcome env nt buf meta R deadline cur rx ring w"
proof -
  from assms(2) have inv: "taken R ss ring w" "rx_feeds (rr_rx0 R, [], []) ss = Some (rx, [], cur)"
    "take (length cur) (rr_umem R w) = cur" by (simp_all add: recv_inv_def)
  obtain ring1 w1 where w1: "k_peer env ring w = (ring1, w1)" by fastforce
  note tk1 = taken_peer[OF assms(1) inv(1) w1]
  obtain st rx2 ring2 frag pr where rd: "axivc_message_try_read rx ring1 (replicate AXIVC_FRAGMENT_CAPACITY 0) =
      (st, rx2, ring2, frag, pr)"
    by (cases "axivc_message_try_read rx ring1 (replicate AXIVC_FRAGMENT_CAPACITY 0)")
  note step = recv_loop_step[OF w1 rd refl refl surjective_pairing surjective_pairing]
  show ?thesis
  proof (cases rule: try_read_taken[OF assms(1) tk1(1) inv(2) rd, case_names ok bad reset])
    case (ok k data)
    show ?thesis
      using ok(2) inv(3) tk1(2) ok(8-10)
      by (intro recv_iteration_ok[OF assms(1,3) w1 rd[unfolded ok(1)] ok(5) _ ok(6,3,4,7)]) auto
  next
    case (bad e)
    then have "recv_post R (Inl e, rx2, ring2, w1)"
      by (auto simp: recv_post_def axivc_message_receiver_poison_def)
    then show ?thesis using bad step by (intro recv_outcome_return) auto
  next
    case (reset s)
    let ?w = "axivc_notify_publisher env nt w1"
    have "taken R (ss @ [s]) ring2 ?w"
      using reset(2) run_keeps(1,2)[OF assms(1)] by (intro taken_world[OF reset(2)]) (simp_all add: taken_def)
    then have "recv_post R (Inl ECONNRESET, rx2, ring2, ?w)" using reset by (auto simp: recv_post_def)
    then show ?thesis using reset step by (intro recv_outcome_return) auto
  qed
qed

lemma recv_outcomeE:
  assumes "recv_outcome env nt buf meta R deadline cur rx ring w"
  obtains (return) r where
      "\<And>fuel. recv_loop env (Suc fuel) nt buf meta deadline (length cur) rx ring w = Some r" "recv_post R r"
  | (again) ss' cur' rx' ring' w' deadline' where "recv_inv R ss' cur' rx' ring' w'"
      "\<And>fuel. recv_loop env (Suc fuel) nt buf meta deadline (length cur) rx ring w =
        recv_loop env fuel nt buf meta deadline' (length cur') rx' ring' w'"
      "recv_again env deadline cur w deadline' cur' w'"
  using assms unfolding recv_outcome_def by blast

lemma recv_loop_post:
  assumes "run_ok env buf R" "m_len meta = f_message_len (rr_first R)"
  shows "recv_inv R ss cur rx ring w \<Longrightarrow> recv_loop env fuel nt buf meta deadline (length cur) rx ring w = Some r \<Longrightarrow>
    recv_post R r"
proof (induction fuel arbitrary: ss cur rx ring w deadline)
  case (Suc fuel)
  show ?case
  proof (cases rule: recv_outcomeE[OF recv_iteration[OF assms(1) Suc.prems(1) assms(2), of nt deadline], case_names return again])
    case (return r')
    then show ?thesis using Suc.prems(2) by simp
  next
    case (again ss' cur' rx' ring' w' deadline')
    then show ?thesis using Suc.prems(2) Suc.IH[OF again(1)] by simp
  qed
qed simp

lemma recv_loop_returns:
  assumes "clock_ok env time" "run_ok env buf R" "m_len meta = f_message_len (rr_first R)"
  shows "recv_inv R ss cur rx ring w \<Longrightarrow> t0 \<le> time w \<Longrightarrow> time w < t0 + timeout env + 2 ^ 61 \<Longrightarrow>
    (rr_count R - length cur) * (timeout env + 2) + (t0 + timeout env + 1 - time w) < fuel \<Longrightarrow>
    \<exists>r. recv_loop env fuel nt buf meta (of_nat t0 + of_nat (timeout env)) (length cur) rx ring w = Some r"
proof (induction fuel arbitrary: ss cur rx ring w t0)
  case (Suc fuel)
  let ?d = "of_nat t0 + of_nat (timeout env)"
  show ?case
  proof (cases rule: recv_outcomeE[OF recv_iteration[OF assms(2) Suc.prems(1) assms(3), of nt ?d], case_names return again])
    case (return r)
    then show ?thesis by blast
  next
    case (again ss' cur' rx' ring' w' d')
    from again(1) have "taken R ss' ring' w'" "rx_feeds (rr_rx0 R, [], []) ss' = Some (rx', [], cur')"
      by (simp_all add: recv_inv_def)
    from taken_bound(1)[OF assms(2) this] have le: "length cur' \<le> rr_count R"
      using assms(2) by (simp add: run_ok_def)
    from again(3) consider (more) w1 where "length cur < length cur'" "d' = transfer_deadline env w1"
        "time w1 \<le> time w'" "time w' < time w1 + 2 ^ 61"
      | (wait) "cur' = cur" "d' = ?d" "time w < t0 + timeout env" "time w < time w'" "time w' < t0 + timeout env + 2 ^ 61"
      unfolding recv_again_def using assms(1) Suc.prems(2,3) by blast
    then show ?thesis
    proof cases
      case more
      have "Suc (rr_count R - length cur') * (timeout env + 2) \<le> (rr_count R - length cur) * (timeout env + 2)"
        using more(1) le by (intro mult_le_mono1) simp
      moreover have "time w1 + timeout env + 1 - time w' \<le> timeout env + 1" using more(3) by linarith
      ultimately have "(rr_count R - length cur') * (timeout env + 2) + (time w1 + timeout env + 1 - time w') < fuel"
        using Suc.prems(4) unfolding mult_Suc by linarith
      from Suc.IH[OF again(1) more(3) _ this] show ?thesis
        using again(2) more clock_deadline[OF assms(1), of w1] by simp
    next
      case wait
      then have "(rr_count R - length cur) * (timeout env + 2) + (t0 + timeout env + 1 - time w') < fuel"
        using Suc.prems(4) by linarith
      with Suc.IH[OF again(1), of t0] wait Suc.prems(2) again(2) show ?thesis by simp
    qed
  qed
qed simp

section \<open>The whole read\<close>

text \<open>What a read sees first: no message, or the frame whose length it checks.\<close>

lemma recv_start:
  assumes "producer_ok env hist" "user_target env buf count umem" "length (umem w) = count"
    and "ring_wf ring" "rx_state (ep_rx ep) = AXIVC_RX_IDLE" "0 < count" "k_mutex_lock_interruptible env w = (OK, w0)"
  obtains (empty) ring1 w1 where "ring_wf ring1" "ring_contents ring1 = []" "ring_contents ring = []" "hist w1 = hist w"
      "axivc_recv_message env fuel nt buf count ep ring w = Some (Inr 0, ep, ring1, w1)"
  | (big) ring1 w1 xs where "ring_wf ring1" "ring_contents ring1 = ring_contents ring @ xs" "hist w1 = hist w @ xs"
      "axivc_recv_message env fuel nt buf count ep ring w = Some (Inl EMSGSIZE, ep, ring1, w1)"
  | (poison) ring1 w1 xs e where "ring_wf ring1" "ring_contents ring1 = ring_contents ring @ xs" "hist w1 = hist w @ xs"
      "axivc_recv_message env fuel nt buf count ep ring w =
        Some (Inl e, ep\<lparr>ep_rx := axivc_message_receiver_poison (ep_rx ep) e\<rparr>, ring1, w1)"
  | (loop) ring1 w1 xs meta R where "ring_contents ring1 = ring_contents ring @ xs" "hist w1 = hist w @ xs"
      "rr_hist R = hist \<and> rr_umem R = umem \<and> rr_count R = count \<and> rr_rx0 R = ep_rx ep \<and>
        rr_hist0 R = hist w1 \<and> rr_ring0 R = ring_contents ring1"
      "run_ok env buf R" "recv_inv R [] [] (ep_rx ep) ring1 w1" "m_len meta = f_message_len (rr_first R)"
      "axivc_recv_message env fuel nt buf count ep ring w =
        (case recv_loop env fuel nt buf meta (transfer_deadline env w1) 0 (ep_rx ep) ring1 w1 of
          None \<Rightarrow> None
        | Some (res, rx, ring, w) \<Rightarrow> Some (res, ep\<lparr>ep_rx := rx\<rparr>, ring, w))"
proof -
  obtain ring1 w1 where w1: "k_peer env ring w0 = (ring1, w1)" by fastforce
  have w0: "hist w0 = hist w" "umem w0 = umem w"
    using keeps_rules(3)[OF producer_keeps(1)[OF assms(1)] assms(7)] keeps_rules(3)[OF target_keeps(1)[OF assms(2)] assms(7)] .
  obtain xs where xs: "ring_wf ring1" "ring_contents ring1 = ring_contents ring @ xs" "hist w1 = hist w @ xs" "umem w1 = umem w"
    using producer_peer[OF assms(1,4) w1] target_keeps(2)[OF assms(2) w1] w0 by auto
  let ?pm = "axivc_message_peek_meta (ep_rx ep) ring1 \<lparr>m_id = 0, m_len = 0\<rparr>"
  note unfold = axivc_recv_message_def assms(7) w1
  show ?thesis
  proof (cases "ring_contents ring1")
    case Nil
    then have "?pm = (OK, ep_rx ep, \<lparr>m_id = 0, m_len = 0\<rparr>, False)"
      by (simp add: axivc_message_peek_meta_def assms(5) peek_contents[OF ring_wf_layout[OF xs(1)]])
    then show ?thesis using assms(6) xs Nil by (intro empty[of ring1 w1]) (simp_all add: unfold)
  next
    case (Cons s rest)
    then have pk: "axivc_ring_try_peek_slot ring1 = Some s"
      by (simp add: peek_contents[OF ring_wf_layout[OF xs(1)]])
    show ?thesis
    proof (cases "\<exists>f. axivc_decode_frame s = Inr f \<and> \<not> f_abort f \<and> f_first f")
      case False
      then obtain e where "?pm = (Err e, axivc_message_receiver_poison (ep_rx ep) e, \<lparr>m_id = 0, m_len = 0\<rparr>, False)"
        by (cases "axivc_decode_frame s")
          (auto simp: axivc_message_peek_meta_def assms(5) pk axivc_receiver_fail_def axivc_message_receiver_poison_def)
      then show ?thesis using assms(6) xs by (intro poison[of ring1 xs w1 e]) (simp_all add: unfold)
    next
      case True
      then obtain f where f: "axivc_decode_frame s = Inr f" "\<not> f_abort f" "f_first f" by blast
      let ?meta = "\<lparr>m_id = f_message_id f, m_len = f_message_len f\<rparr>"
      have pm: "?pm = (OK, ep_rx ep, ?meta, True)"
        by (simp add: axivc_message_peek_meta_def assms(5) pk f)
      show ?thesis
      proof (cases "unat (f_message_len f) > count")
        case True
        then show ?thesis using assms(6) xs pm by (intro big[of ring1 xs w1]) (simp_all add: unfold)
      next
        case fits: False
        define R where "R = \<lparr>rr_hist = hist, rr_umem = umem, rr_count = count, rr_rx0 = ep_rx ep,
          rr_hist0 = hist w1, rr_ring0 = ring_contents ring1, rr_first = f\<rparr>"
        have "run_ok env buf R" "recv_inv R [] [] (ep_rx ep) ring1 w1"
          using assms(1-3,5) fits f Cons xs by (simp_all add: R_def run_ok_def recv_inv_def taken_def)
        then show ?thesis
          using assms(6) xs pm fits by (intro loop[of ring1 xs w1 R ?meta]) (simp_all add: unfold R_def)
      qed
    qed
  qed
qed

lemma recv_message_spec:
  assumes "producer_ok env hist" "user_target env buf count umem" "length (umem w) = count" "0 < count"
    and "ring_wf ring" "rx_state (ep_rx ep) = AXIVC_RX_IDLE"
    and "axivc_recv_message env fuel nt buf count ep ring w = Some (res, ep', ring', w')"
  shows "ring_wf ring' \<and> ep_tx ep' = ep_tx ep \<and> ep_tx_error ep' = ep_tx_error ep \<and>
    (\<exists>new ss. hist w' = hist w @ new \<and> ring_contents ring @ new = ss @ ring_contents ring' \<and>
    (case res of
      Inr n \<Rightarrow> if n = 0 then ss = [] \<and> ring_contents ring' = [] \<and> ep' = ep
        else rx_state (ep_rx ep') = AXIVC_RX_IDLE \<and> n \<le> count \<and> (\<exists>bs. length bs = n \<and> take n (umem w') = bs \<and>
          rx_feeds (ep_rx ep, [], []) ss = Some (ep_rx ep', [Delivered bs], []))
    | Inl e \<Rightarrow>
        ss = [] \<and> ep' = ep \<or>
        e = EOPNOTSUPP \<and> rx_state (ep_rx ep') = AXIVC_RX_IDLE \<and> rx_feeds (ep_rx ep, [], []) ss = Some (ep_rx ep', [Delivered []], []) \<or>
        e = ECONNRESET \<and> rx_state (ep_rx ep') = AXIVC_RX_IDLE \<and> rx_feeds (ep_rx ep, [], []) ss = Some (ep_rx ep', [Reset], []) \<or>
        rx_state (ep_rx ep') = AXIVC_RX_FAILED \<and> rx_failed_errno (ep_rx ep') = Err e))"
proof -
  obtain lk w0 where lk: "k_mutex_lock_interruptible env w = (lk, w0)" by fastforce
  show ?thesis
  proof (cases lk)
    case (Some e)
    then show ?thesis
      using assms(4,5,7) lk keeps_rules(3)[OF producer_keeps(1)[OF assms(1)] lk] by (auto simp: axivc_recv_message_def)
  next
    case None
    show ?thesis
    proof (cases rule: recv_start[OF assms(1-3,5,6,4) lk[unfolded None], where fuel = fuel and nt = nt, case_names empty big poison loop])
      case (empty ring1 w1)
      then show ?thesis using assms(7) by auto
    next
      case (big ring1 w1 xs)
      then show ?thesis using assms(7) by auto
    next
      case (poison ring1 w1 xs e)
      then show ?thesis using assms(7) by (auto simp: axivc_message_receiver_poison_def)
    next
      case (loop ring1 w1 xs meta R)
      then obtain rx where lp: "recv_loop env fuel nt buf meta (transfer_deadline env w1) 0 (ep_rx ep) ring1 w1 = Some (res, rx, ring', w')"
          "ep' = ep\<lparr>ep_rx := rx\<rparr>"
        using assms(7) by (auto split: option.splits)
      have post: "recv_post R (res, rx, ring', w')"
        using recv_loop_post[OF loop(4,6,5), of fuel nt "transfer_deadline env w1"] lp(1) by simp
      have sel: "rr_umem R = umem" "rr_count R = count" "rr_rx0 R = ep_rx ep" using loop(3) by simp_all
      from post[unfolded recv_post_def prod.case sel] obtain ss where tk: "taken R ss ring' w'"
        and out: "case res of
            Inr n \<Rightarrow> \<exists>bs. rx_feeds (ep_rx ep, [], []) ss = Some (rx, [Delivered bs], []) \<and> rx_state rx = AXIVC_RX_IDLE \<and>
              n = length bs \<and> 0 < n \<and> n \<le> count \<and> take n (umem w') = bs
          | Inl e \<Rightarrow>
              if e = EOPNOTSUPP then rx_feeds (ep_rx ep, [], []) ss = Some (rx, [Delivered []], []) \<and> rx_state rx = AXIVC_RX_IDLE
              else if e = ECONNRESET then rx_feeds (ep_rx ep, [], []) ss = Some (rx, [Reset], []) \<and> rx_state rx = AXIVC_RX_IDLE
              else rx_state rx = AXIVC_RX_FAILED \<and> rx_failed_errno rx = Err e"
        by blast
      from tk obtain new where n: "ring_wf ring'" "hist w' = hist w1 @ new" "ring_contents ring1 @ new = ss @ ring_contents ring'"
        using loop(3) by (auto simp: taken_def)
      have "hist w' = hist w @ (xs @ new)" "ring_contents ring @ (xs @ new) = ss @ ring_contents ring'"
        using n loop(1,2) by simp_all
      then show ?thesis
        using n(1) lp(2) out
        by (intro conjI exI[of _ "xs @ new"] exI[of _ ss]) (auto split: sum.splits if_splits)
    qed
  qed
qed

section \<open>Properties\<close>

text \<open>
  C12. One read takes one message. With a peer that only appends slots, a read on an idle
  receiver into a buffer of \<open>count\<close> bytes has one of these outcomes. It returns 0 exactly when
  nothing is available, and leaves the ring alone. It returns a length: it took the slots of
  exactly one message, which is complete in the user buffer and no longer than \<open>count\<close>.
  EOPNOTSUPP: it took exactly one empty message. ECONNRESET: it took exactly one aborted
  message. Any other error left everything in place (interrupted before it began, or a
  message longer than \<open>count\<close>), or broke the receiver, which will return that same error
  from now on. A message is never delivered in part.
\<close>

theorem recv_one_message:
  assumes "producer_ok env hist" "user_target env buf count umem" "length (umem w) = count" "0 < count"
    and "ring_wf ring" "rx_state (ep_rx ep) = AXIVC_RX_IDLE"
    and "axivc_recv_message env fuel nt buf count ep ring w = Some (res, ep', ring', w')"
  shows "ring_wf ring' \<and> ep_tx ep' = ep_tx ep \<and> ep_tx_error ep' = ep_tx_error ep \<and>
    (\<exists>new ss. hist w' = hist w @ new \<and> ring_contents ring @ new = ss @ ring_contents ring' \<and>
    (case res of
      Inr n \<Rightarrow> if n = 0 then ss = [] \<and> ring_contents ring' = [] \<and> ep' = ep
        else rx_state (ep_rx ep') = AXIVC_RX_IDLE \<and> n \<le> count \<and> (\<exists>bs. length bs = n \<and> take n (umem w') = bs \<and>
          rx_feeds (ep_rx ep, [], []) ss = Some (ep_rx ep', [Delivered bs], []))
    | Inl e \<Rightarrow>
        ss = [] \<and> ep' = ep \<or>
        e = EOPNOTSUPP \<and> rx_feeds (ep_rx ep, [], []) ss = Some (ep_rx ep', [Delivered []], []) \<or>
        e = ECONNRESET \<and> rx_feeds (ep_rx ep, [], []) ss = Some (ep_rx ep', [Reset], []) \<or>
        (\<forall>ring out. axivc_message_try_read (ep_rx ep') ring out = (Err e, ep_rx ep', ring, out, rp_zero)) \<and>
        (\<forall>ring meta. axivc_message_peek_meta (ep_rx ep') ring meta = (Err e, ep_rx ep', meta, False))))"
proof -
  have failed: "axivc_message_try_read rx r out = (Err e, rx, r, out, rp_zero)"
      "axivc_message_peek_meta rx r meta = (Err e, rx, meta, False)"
    if "rx_state rx = AXIVC_RX_FAILED \<and> rx_failed_errno rx = Err e" for rx e r out meta
    using that by (simp_all add: axivc_message_try_read_def axivc_process_available_slots_def axivc_message_peek_meta_def)
  show ?thesis using recv_message_spec[OF assms] failed by (cases res) (auto split: if_splits)
qed

text \<open>A world with a clock and the user buffer at address 0; the peer is silent.\<close>

definition quiet_env :: "(nat \<times> bytes) kenv" where
  "quiet_env = \<lparr>
    k_jiffies = (\<lambda>w. of_nat (fst w)),
    k_msecs_to_jiffies = (\<lambda>ms. of_nat (min ms 100000)),
    k_msleep = (\<lambda>ms w. (fst w + 1, snd w)),
    k_msleep_interruptible = (\<lambda>ms w. (False, fst w + 1, snd w)),
    k_mutex_lock_interruptible = (\<lambda>w. (OK, w)),
    k_copy_from_user = (\<lambda>p n w. (None, w)),
    k_copy_to_user = (\<lambda>p bs w. if p + length bs \<le> length (snd w) then (False, fst w, memcpy_at p bs (snd w)) else (True, w)),
    k_hvc = (\<lambda>regs w. (0, w)),
    k_peer = (\<lambda>r w. (r, w))\<rparr>"

lemma quiet_env_ok:
  "producer_ok quiet_env (\<lambda>w. [])" "user_target quiet_env 0 count snd" "clock_ok quiet_env fst" "timeout quiet_env = 30000"
  by (auto simp: producer_ok_def user_target_def keeps_def quiet_env_def clock_ok_def ticks_def timeout_def
      AXIVC_TRANSFER_TIMEOUT_MS_def unat_of_nat_u64 min_def)

lemma one_frame_read_slot:
  "axivc_message_try_read axivc_message_receiver_init one_frame_ring (replicate AXIVC_FRAGMENT_CAPACITY 0) =
    (OK, \<lparr>rx_state = AXIVC_RX_IDLE, rx_active = \<lparr>m_id = 5, m_len = 7\<rparr>, rx_received = 7, rx_failed_errno = OK\<rparr>,
      axivc_ring_pop_slot one_frame_ring, replicate 7 9 @ replicate 225 0,
      \<lparr>rp_written = 7, rp_consumed_slots = 1, rp_complete = True\<rparr>)"
proof -
  have "axivc_ring_try_peek_slot one_frame_ring = Some (frame_slot 5 7 True True False (replicate 7 9))"
    by (simp add: peek_contents ring_wf_layout one_frame_ring)
  then show ?thesis
    by (simp add: one_frame_decode axivc_message_try_read_def axivc_process_available_slots_def process_slots.simps
        axivc_message_receiver_init_def axivc_validate_transition_def apply_transition_def memcpy_at_def wire_consts)
qed

lemma quiet_recv:
  "\<exists>ep' ring'. axivc_recv_message quiet_env 1 no_notify 0 10 axivc_endpoint_init one_frame_ring (0, replicate 10 0) =
    Some (Inr 7, ep', ring', (0, replicate 7 9 @ replicate 3 0))"
proof -
  have "axivc_ring_try_peek_slot one_frame_ring = Some (frame_slot 5 7 True True False (replicate 7 9))"
    by (simp add: peek_contents ring_wf_layout one_frame_ring)
  then have pm: "axivc_message_peek_meta axivc_message_receiver_init one_frame_ring \<lparr>m_id = 0, m_len = 0\<rparr> =
      (OK, axivc_message_receiver_init, \<lparr>m_id = 5, m_len = 7\<rparr>, True)"
    by (simp add: axivc_message_peek_meta_def axivc_message_receiver_init_def one_frame_decode)
  have peer: "k_peer quiet_env one_frame_ring (0, replicate 10 0) = (one_frame_ring, (0, replicate 10 0))"
    by (simp add: quiet_env_def)
  have lock: "k_mutex_lock_interruptible quiet_env (0, replicate 10 0) = (OK, (0, replicate 10 0))"
    by (simp add: quiet_env_def)
  note step = recv_loop_step[OF peer one_frame_read_slot refl refl surjective_pairing surjective_pairing,
      where nt = no_notify and buf = 0 and received = 0 and fuel = 0 and meta = "\<lparr>m_id = 5, m_len = 7\<rparr>"
        and deadline = "transfer_deadline quiet_env (0, replicate 10 0)"]
  show ?thesis
    using step
    by (simp add: axivc_recv_message_def axivc_endpoint_init_def pm peer lock no_notify_def axivc_notify_publisher_def
        store_fragment_def) (simp add: quiet_env_def memcpy_at_def)
qed

theorem recv_one_message_witness:
  "producer_ok quiet_env (\<lambda>w. []) \<and> user_target quiet_env 0 10 snd \<and> ring_wf one_frame_ring \<and>
    (\<exists>ep' ring' w'. axivc_recv_message quiet_env 1 no_notify 0 10 axivc_endpoint_init one_frame_ring (0, replicate 10 0) =
        Some (Inr 7, ep', ring', w') \<and>
      rx_feeds (axivc_message_receiver_init, [], []) (ring_contents one_frame_ring) =
        Some (ep_rx ep', [Delivered (replicate 7 9)], []))"
proof -
  obtain ep' ring' where r: "axivc_recv_message quiet_env 1 no_notify 0 10 axivc_endpoint_init one_frame_ring (0, replicate 10 0) =
      Some (Inr 7, ep', ring', (0, replicate 7 9 @ replicate 3 0))"
    using quiet_recv by blast
  have idle: "rx_state (ep_rx axivc_endpoint_init) = AXIVC_RX_IDLE" "ep_rx axivc_endpoint_init = axivc_message_receiver_init"
    by (simp_all add: axivc_endpoint_init_def axivc_message_receiver_init_def)
  from recv_one_message[OF quiet_env_ok(1,2) _ _ one_frame_ring(1) idle(1) r] obtain ss where
      ss: "ring_contents one_frame_ring = ss @ ring_contents ring'"
        "rx_feeds (axivc_message_receiver_init, [], []) ss = Some (ep_rx ep', [Delivered (replicate 7 9)], [])"
    using idle(2) by auto
  then have "ss \<noteq> []" by auto
  with ss(1) have "ss = ring_contents one_frame_ring" by (cases ss) (auto simp: one_frame_ring(2))
  with ss(2) r quiet_env_ok one_frame_ring(1) show ?thesis by auto
qed

text \<open>
  C25. Every read returns. If the clock runs and the peer only appends, a read into a buffer
  of \<open>count\<close> bytes ends after at most \<open>(count + 1) * (timeout + 2)\<close> iterations, however slowly
  the message arrives.
\<close>

theorem recv_returns:
  assumes "clock_ok env time" "producer_ok env hist" "user_target env buf count umem" "length (umem w) = count"
    and "ring_wf ring" "rx_state (ep_rx ep) \<noteq> AXIVC_RX_RECEIVING" "(count + 1) * (timeout env + 2) \<le> fuel"
  shows "\<exists>res ep' ring' w'. axivc_recv_message env fuel nt buf count ep ring w = Some (res, ep', ring', w')"
proof -
  obtain lk w0 where lk: "k_mutex_lock_interruptible env w = (lk, w0)" by fastforce
  show ?thesis
  proof (cases "count = 0 \<or> lk \<noteq> OK \<or> rx_state (ep_rx ep) = AXIVC_RX_FAILED")
    case True
    then show ?thesis
      using lk by (cases lk; cases "rx_failed_errno (ep_rx ep)")
        (auto simp: axivc_recv_message_def axivc_message_peek_meta_def split_beta)
  next
    case False
    then have idle: "rx_state (ep_rx ep) = AXIVC_RX_IDLE" "0 < count" "lk = OK"
      using assms(6) by (auto intro: axivc_receiver_state.exhaust)
    show ?thesis
    proof (cases rule: recv_start[OF assms(2-5) idle(1,2) lk[unfolded idle(3)], where fuel = fuel and nt = nt,
          case_names empty big poison loop])
      case (loop ring1 w1 xs meta R)
      have "(rr_count R - length []) * (timeout env + 2) + (time w1 + timeout env + 1 - time w1) < fuel"
        using assms(7) loop(3) by (simp add: algebra_simps)
      from recv_loop_returns[OF assms(1) loop(4,6,5) _ _ this, of nt] show ?thesis
        using loop(7) clock_deadline[OF assms(1), of w1] by auto
    qed auto
  qed
qed

theorem recv_returns_witness:
  "clock_ok quiet_env fst \<and> producer_ok quiet_env (\<lambda>w. []) \<and> user_target quiet_env 0 1 snd \<and>
    (\<exists>res ep' ring' w'. axivc_recv_message quiet_env 100000 no_notify 0 1 axivc_endpoint_init empty_ring (0, [0]) =
      Some (res, ep', ring', w'))"
  using recv_returns[OF quiet_env_ok(3,1) quiet_env_ok(2)[of 1], where w = "(0, [0])" and fuel = 100000
      and ring = empty_ring and ep = axivc_endpoint_init and nt = no_notify]
    quiet_env_ok empty_ring(1)
  by (simp add: axivc_endpoint_init_def axivc_message_receiver_init_def)

text \<open>
  A peer that rewrites the published slot at the head of the ring after the first time it
  ran; the world counts its runs and records the writes to user memory.
\<close>

definition long_slot :: slot where
  "long_slot = frame_slot 1 100 True True False (replicate 100 7)"

definition one_byte_ring :: axivc_ring where
  "one_byte_ring = snd (axivc_ring_try_push_slot empty_ring (frame_slot 1 1 True True False [7]))"

definition rewriting_env :: "(nat \<times> (nat \<times> bytes) list) kenv" where
  "rewriting_env = \<lparr>
    k_jiffies = (\<lambda>w. 0), k_msecs_to_jiffies = (\<lambda>ms. of_nat ms), k_msleep = (\<lambda>ms w. w),
    k_msleep_interruptible = (\<lambda>ms w. (False, w)), k_mutex_lock_interruptible = (\<lambda>w. (OK, w)),
    k_copy_from_user = (\<lambda>p n w. (None, w)), k_copy_to_user = (\<lambda>p bs w. (False, fst w, snd w @ [(p, bs)])),
    k_hvc = (\<lambda>regs w. (0, w)),
    k_peer = (\<lambda>r w. (if fst w = 0 then r else r\<lparr>r_slots := (r_slots r)[slot_index (r_head r) := long_slot]\<rparr>,
      fst w + 1, snd w))\<rparr>"

lemma one_byte_ring:
  "axivc_ring_try_peek_slot one_byte_ring = Some (frame_slot 1 1 True True False [7])"
  "axivc_ring_try_peek_slot (one_byte_ring\<lparr>r_slots := (r_slots one_byte_ring)[slot_index (r_head one_byte_ring) := long_slot]\<rparr>)
    = Some long_slot"
  by (simp_all add: one_byte_ring_def axivc_ring_try_push_slot_def axivc_ring_try_peek_slot_def empty_ring_def
      ring_initialize_fields Let_def ring_consts slot_index_eq store_slot_def load_slot_def)

text \<open>
  C26. The length check of a read can be bypassed by a peer that rewrites a slot it has
  already published. \<open>axivc_recv_message\<close> checks the announced length in one copy of the head
  slot and then takes the message from a second copy. Here a read with room for one byte
  passes the check on a one-byte message, copies 100 bytes to user memory and returns 100.
\<close>

theorem recv_length_check_race:
  "\<exists>ep' ring' n. axivc_recv_message rewriting_env 1 no_notify 0 1 axivc_endpoint_init one_byte_ring (0, []) =
    Some (Inr 100, ep', ring', (n, [(0, replicate 100 7)]))"
proof -
  let ?ring = "one_byte_ring\<lparr>r_slots := (r_slots one_byte_ring)[slot_index (r_head one_byte_ring) := long_slot]\<rparr>"
  have "axivc_decode_frame (frame_slot 1 1 True True False [7]) = Inr \<lparr>f_message_id = 1, f_message_len = 1,
      f_fragment = [7] @ replicate 231 0, f_fragment_len = 1, f_first = True, f_last = True, f_abort = False\<rparr>"
    by (subst decode_frame_slot) (simp_all add: wire_consts axivc_validate_frame_shape_def)
  then have pm: "axivc_message_peek_meta axivc_message_receiver_init one_byte_ring \<lparr>m_id = 0, m_len = 0\<rparr> =
      (OK, axivc_message_receiver_init, \<lparr>m_id = 1, m_len = 1\<rparr>, True)"
    by (simp add: axivc_message_peek_meta_def axivc_message_receiver_init_def one_byte_ring)
  have "axivc_decode_frame long_slot = Inr \<lparr>f_message_id = 1, f_message_len = 100,
      f_fragment = replicate 100 7 @ replicate 132 0, f_fragment_len = 100, f_first = True, f_last = True, f_abort = False\<rparr>"
    unfolding long_slot_def by (subst decode_frame_slot) (simp_all add: wire_consts axivc_validate_frame_shape_def)
  then have rd: "axivc_message_try_read axivc_message_receiver_init ?ring (replicate AXIVC_FRAGMENT_CAPACITY 0) =
      (OK, \<lparr>rx_state = AXIVC_RX_IDLE, rx_active = \<lparr>m_id = 1, m_len = 100\<rparr>, rx_received = 100, rx_failed_errno = OK\<rparr>,
        axivc_ring_pop_slot ?ring, replicate 100 7 @ replicate 132 0,
        \<lparr>rp_written = 100, rp_consumed_slots = 1, rp_complete = True\<rparr>)"
    by (simp add: one_byte_ring axivc_message_try_read_def axivc_process_available_slots_def process_slots.simps
        axivc_message_receiver_init_def axivc_validate_transition_def apply_transition_def memcpy_at_def wire_consts)
  have peer: "k_peer rewriting_env one_byte_ring (0, []) = (one_byte_ring, (1, []))"
      "k_peer rewriting_env one_byte_ring (1, []) = (?ring, (2, []))"
    by (simp_all add: rewriting_env_def)
  have lock: "k_mutex_lock_interruptible rewriting_env (0, []) = (OK, (0, []))" by (simp add: rewriting_env_def)
  note step = recv_loop_step[OF peer(2) rd refl refl surjective_pairing surjective_pairing,
      where nt = no_notify and buf = 0 and received = 0 and fuel = 0 and meta = "\<lparr>m_id = 1, m_len = 1\<rparr>"
        and deadline = "transfer_deadline rewriting_env (1, [])"]
  show ?thesis
    using step
    by (simp add: axivc_recv_message_def axivc_endpoint_init_def pm peer(1) lock no_notify_def axivc_notify_publisher_def
        store_fragment_def) (simp add: rewriting_env_def)
qed

end
