(* ===== verification/Axivc_End_To_End.thy ===== *)
theory Axivc_End_To_End
  imports Axivc_Recv
begin

text \<open>
  From the write calls of one virtual machine to the read calls of the other: the messages that
  reads return are the messages of the writes that succeeded, in order and unchanged.
\<close>

section \<open>What a reader makes of one send\<close>

lemma rx_feed_log: "rx_feed (rx, pre @ log, cur) s = map_option (\<lambda>(rx, log, cur). (rx, pre @ log, cur)) (rx_feed (rx, log, cur) s)"
  by (auto split: sum.splits)

lemma rx_feeds_log_shift:
  "rx_feeds (rx, pre @ log, cur) ss = map_option (\<lambda>(rx, log, cur). (rx, pre @ log, cur)) (rx_feeds (rx, log, cur) ss)"
proof (induction ss arbitrary: rx log cur)
  case (Cons s ss)
  show ?case
    by (cases "rx_feed (rx, log, cur) s")
      (auto simp: Cons.IH rx_feed_log simp del: rx_feed.simps split: prod.splits)
qed simp

lemma rx_feeds_extend:
  assumes "rx_feeds v xs = Some (rx, log, [])" "rx_feeds (rx, [], []) ys = Some (rx', log', cur')"
  shows "rx_feeds v (xs @ ys) = Some (rx', log @ log', cur')"
  using rx_feeds_log_shift[of rx log "[]" "[]" ys] assms by (simp add: rx_feeds_append)

text \<open>All frames of a message, some of them, and some followed by the ABORT frame.\<close>

lemma frames_fed:
  assumes "i \<noteq> 0" "data \<noteq> []" "length data < 2 ^ 64" "rx_state rx = AXIVC_RX_IDLE"
  shows "\<exists>rx'. rx_state rx' = AXIVC_RX_IDLE \<and> rx_feeds (rx, [], []) (message_frames i data) = Some (rx', [Delivered data], [])"
    "0 < k \<Longrightarrow> k < length (message_frames i data) \<Longrightarrow>
      \<exists>rx' cur. rx_feeds (rx, [], []) (take k (message_frames i data)) = Some (rx', [], cur)"
    "0 < k \<Longrightarrow> k < length (message_frames i data) \<Longrightarrow>
      \<exists>rx'. rx_state rx' = AXIVC_RX_IDLE \<and>
        rx_feeds (rx, [], []) (take k (message_frames i data) @ [abort_frame i data]) = Some (rx', [Reset], [])"
proof -
  let ?l = "of_nat (length data) :: u64"
  have l: "unat ?l = length data" using assms(3) by (rule unat_of_nat_u64)
  have at: "rx_at i ?l 0 rx" using assms(4) by (simp add: rx_at_def)
  have ok: "list_all fragment_ok (chunks data)" "list_all fragment_ok (take k (chunks data))" for k
    by (auto simp: list_all_iff dest: chunks_ok in_set_takeD)
  have "rx_feeds (rx, [], []) (message_frames i data) = Some (rx_after i ?l (length data) rx, [Delivered data], [])"
    using rx_feeds_frames[OF assms(1) ok(1) _ at, where log = "[]" and cur = "[]"] assms(2) l by (simp add: message_frames_def)
  then show "\<exists>rx'. rx_state rx' = AXIVC_RX_IDLE \<and> rx_feeds (rx, [], []) (message_frames i data) = Some (rx', [Delivered data], [])"
    using l by (auto simp: rx_after_def)
  assume k: "0 < k" "k < length (message_frames i data)"
  let ?off = "length (concat (take k (chunks data)))"
  have pos: "0 < length (concat cs)" if "cs \<noteq> []" "set cs \<subseteq> set (chunks data)" for cs
    using that chunks_ok[of "hd cs" data] by (cases cs) (auto simp: fragment_ok_def)
  have "data = concat (take k (chunks data)) @ concat (drop k (chunks data))"
    by (metis append_take_drop_id concat_append concat_chunks)
  then have sum: "length data = ?off + length (concat (drop k (chunks data)))" by (metis length_append)
  have off: "0 < ?off" using k by (intro pos) (auto simp: message_frames_def dest: in_set_takeD)
  have rest: "?off < length data" using k sum pos[of "drop k (chunks data)"] by (auto simp: message_frames_def dest: in_set_dropD)
  have part: "rx_feeds (rx, [], []) (take k (message_frames i data)) = Some (rx_after i ?l ?off rx, [], concat (take k (chunks data)))"
    using rx_feeds_frames[OF assms(1) ok(2) _ at, where log = "[]" and cur = "[]"] off rest l k assms(2)
    by (simp add: message_frames_def take_frames_from)
  then show "\<exists>rx' cur. rx_feeds (rx, [], []) (take k (message_frames i data)) = Some (rx', [], cur)" by blast
  have "rx_at i ?l ?off (rx_after i ?l ?off rx)" using off rest l by (intro rx_after_at) auto
  from rx_feed_abort[OF assms(1) _ this, where log = "[]"] off part
  show "\<exists>rx'. rx_state rx' = AXIVC_RX_IDLE \<and>
      rx_feeds (rx, [], []) (take k (message_frames i data) @ [abort_frame i data]) = Some (rx', [Reset], [])"
    by (simp add: rx_feeds_append abort_frame_def del: rx_feed.simps)
qed

section \<open>Sequences of calls\<close>

text \<open>
  The calls of a writer with their data and results, and of a reader with what they returned.
  The environment may be another one in every call; \<open>seen\<close> is what the peer of the writer has
  taken, \<open>hist\<close> what the peer of the reader has published. Between calls the peer runs.
\<close>

type_synonym 'w side = "axivc_endpoint \<times> axivc_ring \<times> 'w"

inductive sends :: "('w \<Rightarrow> slot list) \<Rightarrow> 'w side \<Rightarrow> (bytes \<times> (errno + nat)) list \<Rightarrow> 'w side \<Rightarrow> bool" for seen where
  no_send: "sends seen st [] st"
| send: "sends seen st xs (ep, ring, w) \<Longrightarrow> consumer_ok env seen \<Longrightarrow> user_source env buf data \<Longrightarrow>
    0 < length data \<Longrightarrow> length data < 2 ^ 64 \<Longrightarrow>
    axivc_send_message env fuel nt buf (length data) ep ring w = Some (res, st') \<Longrightarrow> sends seen st (xs @ [(data, res)]) st'"
| send_peer: "sends seen st xs (ep, ring, w) \<Longrightarrow> consumer_ok env seen \<Longrightarrow> sends seen st xs (ep, k_peer env ring w)"

inductive reads :: "('w \<Rightarrow> slot list) \<Rightarrow> 'w side \<Rightarrow> (errno + bytes) list \<Rightarrow> 'w side \<Rightarrow> bool" for hist where
  no_read: "reads hist st [] st"
| read: "reads hist st xs (ep, ring, w) \<Longrightarrow> producer_ok env hist \<Longrightarrow> user_target env buf n umem \<Longrightarrow>
    length (umem w) = n \<Longrightarrow> 0 < n \<Longrightarrow> axivc_recv_message env fuel nt buf n ep ring w = Some (res, ep', ring', w') \<Longrightarrow>
    reads hist st (xs @ [map_sum id (\<lambda>m. take m (umem w')) res]) (ep', ring', w')"
| read_peer: "reads hist st xs (ep, ring, w) \<Longrightarrow> producer_ok env hist \<Longrightarrow> reads hist st xs (ep, k_peer env ring w)"

definition sent_ok :: "(bytes \<times> (errno + nat)) list \<Rightarrow> bytes list" where
  "sent_ok xs = concat (map (\<lambda>(data, res). case res of Inr n \<Rightarrow> [data] | Inl e \<Rightarrow> []) xs)"

definition got :: "(errno + bytes) list \<Rightarrow> bytes list" where
  "got xs = concat (map (\<lambda>res. case res of Inr bs \<Rightarrow> if bs = [] then [] else [bs] | Inl e \<Rightarrow> []) xs)"

definition delivered :: "delivery list \<Rightarrow> bytes list" where
  "delivered log = concat (map (\<lambda>d. case d of Delivered bs \<Rightarrow> if bs = [] then [] else [bs] | Reset \<Rightarrow> []) log)"

lemma logs_append [simp]:
  "sent_ok (xs @ ys) = sent_ok xs @ sent_ok ys" "got (as @ bs) = got as @ got bs" "delivered (l @ m) = delivered l @ delivered m"
  by (simp_all add: sent_ok_def got_def delivered_def)

definition sends_inv :: "('w \<Rightarrow> slot list) \<Rightarrow> axivc_message_receiver \<Rightarrow> bytes list \<Rightarrow> 'w side \<Rightarrow> bool" where
  "sends_inv seen rx0 ok = (\<lambda>(ep, ring, w). ring_wf ring \<and> (\<exists>rx log cur.
    rx_feeds (rx0, [], []) (seen w @ ring_contents ring) = Some (rx, log, cur) \<and> delivered log = ok \<and>
    (ep_tx_error ep = OK \<longrightarrow> sender_ok (ep_tx ep) \<and> \<not> tx_sending (ep_tx ep) \<and> rx_state rx = AXIVC_RX_IDLE \<and> cur = [])))"

definition reads_inv :: "('w \<Rightarrow> slot list) \<Rightarrow> axivc_message_receiver \<Rightarrow> bytes list \<Rightarrow> 'w side \<Rightarrow> bool" where
  "reads_inv hist rx0 g = (\<lambda>(ep, ring, w). ring_wf ring \<and> (\<exists>used lost rx log.
    hist w = used @ lost @ ring_contents ring \<and> rx_feeds (rx0, [], []) used = Some (rx, log, []) \<and> delivered log = g \<and>
    (rx_state (ep_rx ep) = AXIVC_RX_IDLE \<and> lost = [] \<and> rx = ep_rx ep \<or> rx_state (ep_rx ep) = AXIVC_RX_FAILED)))"

lemma reads_invI:
  "ring_wf ring \<Longrightarrow> hist w = used @ lost @ ring_contents ring \<Longrightarrow> rx_feeds (rx0, [], []) used = Some (rx, log, []) \<Longrightarrow>
    delivered log = g \<Longrightarrow> rx_state (ep_rx ep) = AXIVC_RX_IDLE \<and> lost = [] \<and> rx = ep_rx ep \<or> rx_state (ep_rx ep) = AXIVC_RX_FAILED \<Longrightarrow>
    reads_inv hist rx0 g (ep, ring, w)"
  unfolding reads_inv_def by blast

lemma send_exhausted:
  assumes "tx_next_message_id (ep_tx ep) = 0" "\<not> tx_sending (ep_tx ep)" "0 < n" "consumer_ok env seen"
    "axivc_send_message env fuel nt buf n ep ring w = Some (res, ep', ring', w')"
  shows "\<exists>e. res = Inl e \<and> ep' = ep \<and> ring' = ring \<and> seen w' = seen w"
proof -
  obtain lk w1 where lk: "k_mutex_lock_interruptible env w = (lk, w1)" by fastforce
  have "seen w1 = seen w" using keeps_rules(3)[OF assms(4)[unfolded consumer_ok_def, THEN conjunct1] lk] .
  with assms lk show ?thesis
    by (cases rule: start_cases[of "ep_tx ep" "of_nat n", case_names busy exhausted started]; cases lk; cases "ep_tx_error ep")
      (auto simp: axivc_send_message_def)
qed

lemma send_broken:
  assumes "ep_tx_error ep = Err e0" "0 < n" "consumer_ok env seen"
    "axivc_send_message env fuel nt buf n ep ring w = Some (res, ep', ring', w')"
  shows "\<exists>e. res = Inl e \<and> ep' = ep \<and> ring' = ring \<and> seen w' = seen w"
proof -
  obtain lk w1 where lk: "k_mutex_lock_interruptible env w = (lk, w1)" by fastforce
  have "seen w1 = seen w" using keeps_rules(3)[OF assms(3)[unfolded consumer_ok_def, THEN conjunct1] lk] .
  with assms lk show ?thesis by (cases lk) (auto simp: axivc_send_message_def)
qed
lemma send_step_inv:
  assumes "sends_inv seen rx0 ok (ep, ring, w)" "consumer_ok env seen" "user_source env buf data" "0 < length data"
    "length data < 2 ^ 64" "axivc_send_message env fuel nt buf (length data) ep ring w = Some (res, ep', ring', w')"
  shows "sends_inv seen rx0 (ok @ sent_ok [(data, res)]) (ep', ring', w')"
proof -
  let ?i = "tx_next_message_id (ep_tx ep)" and ?sent = "seen w @ ring_contents ring"
  let ?F = "message_frames ?i data"
  from assms(1) obtain rx log cur where inv: "ring_wf ring" "rx_feeds (rx0, [], []) ?sent = Some (rx, log, cur)" "delivered log = ok"
    "ep_tx_error ep = OK \<longrightarrow> sender_ok (ep_tx ep) \<and> \<not> tx_sending (ep_tx ep) \<and> rx_state rx = AXIVC_RX_IDLE \<and> cur = []"
    by (auto simp: sends_inv_def)
  show ?thesis
  proof (cases "ep_tx_error ep = OK \<and> ?i \<noteq> 0")
    case False
    then have "\<exists>e. res = Inl e \<and> ep' = ep \<and> ring' = ring \<and> seen w' = seen w"
      using send_exhausted[OF _ _ assms(4,2,6)] send_broken[OF _ assms(4,2,6)] inv(4) by (cases "ep_tx_error ep") auto
    then show ?thesis using assms(1) by (auto simp: sends_inv_def sent_ok_def)
  next
    case True
    then have st: "sender_ok (ep_tx ep)" "\<not> tx_sending (ep_tx ep)" "rx_state rx = AXIVC_RX_IDLE" "cur = []" using inv(4) by auto
    have ne: "data \<noteq> []" using assms(4) by auto
    note fed = frames_fed[OF conjunct2[OF True] ne assms(5) st(3)]
    have feed: "rx_feeds (rx0, [], []) (?sent @ ys) = Some (rx', log @ log', cur')"
      if "rx_feeds (rx, [], []) ys = Some (rx', log', cur')" for ys rx' log' cur'
      using inv(2)[unfolded st(4)] that by (rule rx_feeds_extend)
    from send_message_spec[OF assms(2-5) inv(1) st(1,2) conjunct1[OF True] assms(6) refl refl refl]
    consider (sent) n where "res = Inr n" "seen w' @ ring_contents ring' = ?sent @ ?F" "\<not> tx_sending (ep_tx ep')" "ep_tx_error ep' = OK"
      | (none) e where "res = Inl e" "seen w' @ ring_contents ring' = ?sent" "\<not> tx_sending (ep_tx ep')" "ep_tx_error ep' = OK"
      | (aborted) e k where "res = Inl e" "0 < k" "k < length ?F" "seen w' @ ring_contents ring' = ?sent @ take k ?F @ [abort_frame ?i data]"
          "\<not> tx_sending (ep_tx ep')" "ep_tx_error ep' = OK"
      | (broken) e k where "res = Inl e" "0 < k" "k < length ?F" "seen w' @ ring_contents ring' = ?sent @ take k ?F" "ep_tx_error ep' = Err EPIPE"
      by (auto split: sum.splits)
    moreover have "ring_wf ring'" "sender_ok (ep_tx ep')"
      using send_message_spec[OF assms(2-5) inv(1) st(1,2) conjunct1[OF True] assms(6) refl refl refl] by auto
    ultimately show ?thesis
    proof cases
      case sent
      then show ?thesis using fed(1) feed inv(3) ne \<open>ring_wf ring'\<close> \<open>sender_ok (ep_tx ep')\<close>
        by (fastforce simp: sends_inv_def sent_ok_def delivered_def)
    next
      case none
      then show ?thesis using inv(2,3) st(3,4) \<open>ring_wf ring'\<close> \<open>sender_ok (ep_tx ep')\<close>
        by (auto simp: sends_inv_def sent_ok_def)
    next
      case aborted
      then show ?thesis using fed(3)[OF aborted(2,3)] feed inv(3) \<open>ring_wf ring'\<close> \<open>sender_ok (ep_tx ep')\<close>
        by (fastforce simp: sends_inv_def sent_ok_def delivered_def)
    next
      case broken
      then show ?thesis using fed(2)[OF broken(2,3)] feed inv(3) \<open>ring_wf ring'\<close>
        by (fastforce simp: sends_inv_def sent_ok_def delivered_def)
    qed
  qed
qed

lemma read_failed:
  assumes "rx_state (ep_rx ep) = AXIVC_RX_FAILED" "0 < n" "producer_ok env hist" "ring_wf ring"
    "axivc_recv_message env fuel nt buf n ep ring w = Some (res, ep', ring', w')"
  shows "ep' = ep \<and> ring_wf ring' \<and> res \<in> range Inl \<union> {Inr 0} \<and>
    (\<exists>xs. hist w' = hist w @ xs \<and> ring_contents ring' = ring_contents ring @ xs)"
proof -
  obtain lk w0 where lk: "k_mutex_lock_interruptible env w = (lk, w0)" by fastforce
  have h0: "hist w0 = hist w" using keeps_rules(3)[OF producer_keeps(1)[OF assms(3)] lk] .
  obtain ring1 w1 where peer: "k_peer env ring w0 = (ring1, w1)" by fastforce
  show ?thesis
    using producer_peer[OF assms(3,4) peer] h0 lk peer assms
    by (cases lk; cases "rx_failed_errno (ep_rx ep)") (auto simp: axivc_recv_message_def axivc_message_peek_meta_def)
qed
lemma read_step_inv:
  assumes "reads_inv hist rx0 g (ep, ring, w)" "producer_ok env hist" "user_target env buf n umem" "length (umem w) = n" "0 < n"
    "axivc_recv_message env fuel nt buf n ep ring w = Some (res, ep', ring', w')"
  shows "reads_inv hist rx0 (g @ got [map_sum id (\<lambda>m. take m (umem w')) res]) (ep', ring', w')"
proof -
  from assms(1) obtain used lost rx log where inv: "ring_wf ring" "hist w = used @ lost @ ring_contents ring"
    "rx_feeds (rx0, [], []) used = Some (rx, log, [])" "delivered log = g"
    "rx_state (ep_rx ep) = AXIVC_RX_IDLE \<and> lost = [] \<and> rx = ep_rx ep \<or> rx_state (ep_rx ep) = AXIVC_RX_FAILED"
    by (auto simp: reads_inv_def)
  show ?thesis
  proof (cases "rx_state (ep_rx ep) = AXIVC_RX_FAILED")
    case True
    from read_failed[OF True assms(5,2) inv(1) assms(6)] obtain xs where "ep' = ep" "ring_wf ring'" "res \<in> range Inl \<union> {Inr 0}"
      "hist w' = hist w @ xs" "ring_contents ring' = ring_contents ring @ xs" by auto
    then show ?thesis using inv(2,4) True by (intro reads_invI[OF _ _ inv(3), of _ _ _ "lost"]) (auto simp: got_def)
  next
    case False
    then have st: "rx_state (ep_rx ep) = AXIVC_RX_IDLE" "lost = []" "rx = ep_rx ep" using inv(5) by auto
    note spec = recv_message_spec[OF assms(2-5) inv(1) st(1) assms(6)]
    then obtain new ss where h: "ring_wf ring'" "hist w' = hist w @ new" "ring_contents ring @ new = ss @ ring_contents ring'"
      and out: "case res of
        Inr n \<Rightarrow> if n = 0 then ss = [] \<and> ring_contents ring' = [] \<and> ep' = ep
          else rx_state (ep_rx ep') = AXIVC_RX_IDLE \<and> n \<le> length (umem w) \<and> (\<exists>bs. length bs = n \<and> take n (umem w') = bs \<and>
            rx_feeds (ep_rx ep, [], []) ss = Some (ep_rx ep', [Delivered bs], []))
      | Inl e \<Rightarrow> ss = [] \<and> ep' = ep \<or>
          e = EOPNOTSUPP \<and> rx_state (ep_rx ep') = AXIVC_RX_IDLE \<and> rx_feeds (ep_rx ep, [], []) ss = Some (ep_rx ep', [Delivered []], []) \<or>
          e = ECONNRESET \<and> rx_state (ep_rx ep') = AXIVC_RX_IDLE \<and> rx_feeds (ep_rx ep, [], []) ss = Some (ep_rx ep', [Reset], []) \<or>
          rx_state (ep_rx ep') = AXIVC_RX_FAILED \<and> rx_failed_errno (ep_rx ep') = Err e"
      using assms(4) by blast
    have hist: "hist w' = used @ ss @ ring_contents ring'" using h(2,3) inv(2) st(2) by simp
    have feed: "rx_feeds (rx0, [], []) (used @ ss) = Some (rx', log @ log', [])"
      if "rx_feeds (ep_rx ep, [], []) ss = Some (rx', log', [])" for rx' log'
      using inv(3)[unfolded st(3)] that by (rule rx_feeds_extend)
    consider (same) "ss = []" "ep' = ep" "res = Inr 0 \<or> (\<exists>e. res = Inl e)"
      | (message) m where "res = Inr m" "rx_state (ep_rx ep') = AXIVC_RX_IDLE" "take m (umem w') \<noteq> []"
          "rx_feeds (ep_rx ep, [], []) ss = Some (ep_rx ep', [Delivered (take m (umem w'))], [])"
      | (other) e d where "res = Inl e" "rx_state (ep_rx ep') = AXIVC_RX_IDLE" "d = Delivered [] \<or> d = Reset"
          "rx_feeds (ep_rx ep, [], []) ss = Some (ep_rx ep', [d], [])"
      | (failed) e where "res = Inl e" "rx_state (ep_rx ep') = AXIVC_RX_FAILED"
      using out by (cases res; cases "umem w'") (auto split: if_splits)
    then show ?thesis
    proof cases
      case same
      then show ?thesis using h(1) hist inv(4) st by (intro reads_invI[OF _ _ inv(3), of _ _ _ "[]"]) (auto simp: got_def)
    next
      case message
      then show ?thesis using h(1) hist inv(4)
        by (intro reads_invI[OF _ _ feed[OF message(4)], of _ _ _ "[]"]) (auto simp: got_def delivered_def)
    next
      case other
      then show ?thesis using h(1) hist inv(4)
        by (intro reads_invI[OF _ _ feed[OF other(4)], of _ _ _ "[]"]) (auto simp: got_def delivered_def)
    next
      case failed
      then show ?thesis using h(1) hist inv(4) by (intro reads_invI[OF _ _ inv(3), of _ _ _ "ss"]) (auto simp: got_def)
    qed
  qed
qed
definition fresh_writer :: "('w \<Rightarrow> slot list) \<Rightarrow> 'w side \<Rightarrow> bool" where
  "fresh_writer seen = (\<lambda>(ep, ring, w). ring_wf ring \<and> seen w @ ring_contents ring = [] \<and>
    sender_ok (ep_tx ep) \<and> \<not> tx_sending (ep_tx ep) \<and> ep_tx_error ep = OK)"

definition fresh_reader :: "('w \<Rightarrow> slot list) \<Rightarrow> 'w side \<Rightarrow> bool" where
  "fresh_reader hist = (\<lambda>(ep, ring, w). ring_wf ring \<and> hist w = ring_contents ring \<and> rx_state (ep_rx ep) = AXIVC_RX_IDLE)"

lemma sends_run:
  assumes "sends seen st xs st'" "fresh_writer seen st" "rx_state rx0 = AXIVC_RX_IDLE"
  shows "sends_inv seen rx0 (sent_ok xs) st'"
  using assms
proof (induction rule: sends.induct)
  case (no_send st)
  then show ?case by (auto simp: fresh_writer_def sends_inv_def sent_ok_def delivered_def)
next
  case (send st xs ep ring w env buf data fuel nt res st')
  obtain ep' ring' w' where "st' = (ep', ring', w')" by (cases st')
  with send_step_inv[OF send.IH[OF send.prems] send.hyps(2-5)] send.hyps(6) show ?case by simp
next
  case (send_peer st xs ep ring w env)
  obtain r w' where p: "k_peer env ring w = (r, w')" by fastforce
  have inv: "sends_inv seen rx0 (sent_ok xs) (ep, ring, w)" using send_peer.IH[OF send_peer.prems] .
  then have "ring_wf ring" by (simp add: sends_inv_def)
  from consumer_peer[OF send_peer.hyps(2) this p] inv show ?case by (simp add: sends_inv_def p)
qed

lemma reads_run:
  assumes "reads hist st xs st'" "fresh_reader hist st"
  shows "reads_inv hist (ep_rx (fst st)) (got xs) st'"
  using assms
proof (induction rule: reads.induct)
  case (no_read st)
  then show ?case by (auto simp: fresh_reader_def reads_inv_def got_def delivered_def intro!: exI[of _ "[]"])
next
  case (read st xs ep ring w env buf n umem fuel nt res ep' ring' w')
  from read_step_inv[OF read.IH[OF read.prems] read.hyps(2-6)] show ?case by simp
next
  case (read_peer st xs ep ring w env)
  obtain r w' where p: "k_peer env ring w = (r, w')" by fastforce
  from read_peer.IH[OF read_peer.prems] obtain used lost rx log where inv: "ring_wf ring" "hist w = used @ lost @ ring_contents ring"
    "rx_feeds (ep_rx (fst st), [], []) used = Some (rx, log, [])" "delivered log = got xs"
    "rx_state (ep_rx ep) = AXIVC_RX_IDLE \<and> lost = [] \<and> rx = ep_rx ep \<or> rx_state (ep_rx ep) = AXIVC_RX_FAILED"
    by (auto simp: reads_inv_def)
  from producer_peer[OF read_peer.hyps(2) inv(1) p] obtain ys where "ring_wf r" "ring_contents r = ring_contents ring @ ys"
    "hist w' = hist w @ ys" by blast
  then show ?case unfolding p using inv(2,4,5) by (intro reads_invI[OF _ _ inv(3), of _ _ _ lost]) auto
qed

lemma delivered_prefix: "prefix l m \<Longrightarrow> prefix (delivered l) (delivered m)"
  by (auto simp: prefix_def)

section \<open>Properties\<close>

text \<open>
  C1. From write to read. One machine makes any sequence of write calls on an endpoint, with
  any failures in between (faults, signals, timeouts, a full ring); another makes any sequence
  of read calls on the other end, with any failures of its own; the peers run whenever they
  like. If the slots that reached the reader's ring are, in order, slots that the writer
  published, then the messages the reads returned are, in order and byte for byte, the first
  messages among those whose writes reported success: none is lost, repeated, split, merged,
  altered or made up, and none comes from a write that failed.
\<close>

theorem reads_return_what_was_written:
  assumes "fresh_writer seen (ep, ring, w)" "sends seen (ep, ring, w) calls (ep', ring', w')"
    and "fresh_reader hist st" "reads hist st results (ep2, ring2, w2)"
    and "prefix (hist w2) (seen w' @ ring_contents ring')"
  shows "prefix (got results) (sent_ok calls)"
proof -
  obtain ep0 ring0 w0 where st: "st = (ep0, ring0, w0)" by (cases st)
  have "rx_state (ep_rx (fst st)) = AXIVC_RX_IDLE" using assms(3) by (simp add: st fresh_reader_def)
  from sends_run[OF assms(2,1) this] obtain rxs logs curs where
    s: "rx_feeds (ep_rx (fst st), [], []) (seen w' @ ring_contents ring') = Some (rxs, logs, curs)" "delivered logs = sent_ok calls"
    by (auto simp: sends_inv_def)
  from reads_run[OF assms(4,3)] obtain used lost rx log where
    r: "hist w2 = used @ lost" "rx_feeds (ep_rx (fst st), [], []) used = Some (rx, log, [])" "delivered log = got results"
    by (auto simp: reads_inv_def)
  obtain rest where "seen w' @ ring_contents ring' = used @ rest" using assms(5) r(1) by (auto simp: prefix_def)
  with s(1) r(2) have "rx_feeds (rx, log, []) rest = Some (rxs, logs, curs)" by (simp add: rx_feeds_append)
  then have "prefix log logs" by (rule rx_feeds_log)
  then show ?thesis using delivered_prefix s(2) r(3) by metis
qed
text \<open>A writer about to send its fifth message, seven bytes, and a reader whose ring holds it.\<close>

definition nines :: bytes where "nines = replicate 7 9"

definition fifth :: axivc_endpoint where
  "fifth = axivc_endpoint_init\<lparr>ep_tx := (ep_tx axivc_endpoint_init)\<lparr>tx_next_message_id := 5\<rparr>\<rparr>"

lemma fifth_send:
  "\<exists>ep' ring' w'. axivc_send_message (demo_env nines) 1 no_notify 0 (length nines) fifth empty_ring (0, []) =
    Some (Inr 7, ep', ring', w')"
proof -
  let ?env = "demo_env nines"
  let ?tx = "\<lparr>tx_next_message_id = 6, tx_sending = True, tx_active = \<lparr>m_id = 5, m_len = 7\<rparr>, tx_sent = 0, tx_published_any = False\<rparr>"
  define r1 where "r1 = fst (k_peer ?env empty_ring (0, []))"
  have w: "k_peer ?env empty_ring (0, []) = (r1, 0, [])" using empty_ring(2) by (simp add: r1_def demo_env_def)
  have wf: "ring_wf r1" "ring_contents r1 = []" using consumer_peer[OF demo_consumer empty_ring(1) w] empty_ring(2) by auto
  have start: "axivc_message_start (ep_tx fifth) 7 = (OK, ?tx)"
    by (simp add: fifth_def axivc_endpoint_init_def axivc_message_start_def axivc_message_sender_init_def)
  have len: "length nines = 7" "length nines < 2 ^ 64" by (simp_all add: nines_def)
  have at: "sending_at 5 nines 0 ?tx" using len by (simp add: sending_at_def sender_ok_def)
  have frag: "fragment_at nines 0 = nines" by (simp add: fragment_at_def nines_def wire_consts)
  have fetch: "fetch_fragment ?env 0 7 0 (0, []) = (Some nines, (0, []))"
    using len by (simp add: fetch_fragment_def demo_env_def wire_consts)
  have one: "length (message_frames 5 nines) = 1" by (simp add: message_frames_def chunks_step wire_consts nines_def)
  have "\<exists>tx3 ring3 pr. axivc_message_try_write ?tx r1 nines = (OK, tx3, ring3, pr) \<and> sp_complete pr"
  proof (cases rule: write_fragment[OF wf(1) at len(2), case_names full more last])
    case (full ring' pr)
    then show ?thesis
      using frag wf at len(1)
      by (cases rule: try_write_cases[OF wf(1), of ?tx nines, case_names ok refused stalled empty data])
        (auto simp: write_count_def chunks_step wire_consts sending_at_def simp flip: length_ring_contents)
  qed (use one frag in auto)
  then obtain tx3 ring3 pr where wr: "axivc_message_try_write ?tx r1 nines = (OK, tx3, ring3, pr)" "sp_complete pr" by blast
  note step = send_loop_step[OF fetch w wr(1) refl refl surjective_pairing]
  have "ep_tx_error fifth = OK" by (simp add: fifth_def axivc_endpoint_init_def)
  then show ?thesis
    using start wr(2) step len(1) by (simp add: axivc_send_message_def) (simp add: demo_env_def)
qed

theorem reads_return_what_was_written_witness:
  "\<exists>st' st2. sends snd (fifth, empty_ring, (0 :: nat, [])) [(nines, Inr 7)] st' \<and>
    reads (\<lambda>w. ring_contents one_frame_ring) (axivc_endpoint_init, one_frame_ring, (0 :: nat, replicate 10 (0 :: u8))) [Inr nines] st2 \<and>
    prefix (got [Inr nines]) (sent_ok [(nines, Inr 7)])"
proof -
  obtain ep' ring' w' where s: "axivc_send_message (demo_env nines) 1 no_notify 0 (length nines) fifth empty_ring (0, []) =
    Some (Inr 7, ep', ring', w')" using fifth_send by blast
  have len: "0 < length nines" "length nines < 2 ^ 64" by (simp_all add: nines_def)
  have fw: "fresh_writer snd (fifth, empty_ring, (0 :: nat, []))"
    using empty_ring sender_init_ok
    by (simp add: fresh_writer_def fifth_def axivc_endpoint_init_def axivc_message_sender_init_def sender_ok_def)
  have sends: "sends snd (fifth, empty_ring, (0 :: nat, [])) [(nines, Inr 7)] (ep', ring', w')"
    using sends.send[OF sends.no_send demo_consumer demo_source len s] by simp
  have fr: "fresh_reader (\<lambda>w. ring_contents one_frame_ring) (axivc_endpoint_init, one_frame_ring, (0 :: nat, replicate 10 (0 :: u8)))"
    using one_frame_ring(1) by (simp add: fresh_reader_def axivc_endpoint_init_def axivc_message_receiver_init_def)
  obtain ep2 ring2 where r: "axivc_recv_message quiet_env 1 no_notify 0 10 axivc_endpoint_init one_frame_ring (0, replicate 10 0) =
    Some (Inr 7, ep2, ring2, (0, replicate 7 9 @ replicate 3 0))" using quiet_recv by blast
  have p: "producer_ok quiet_env (\<lambda>w. ring_contents one_frame_ring)"
    by (simp add: producer_ok_def keeps_def quiet_env_def)
  have "reads (\<lambda>w. ring_contents one_frame_ring) (axivc_endpoint_init, one_frame_ring, (0 :: nat, replicate 10 (0 :: u8)))
    [Inr nines] (ep2, ring2, (0, nines @ replicate 3 0))"
    using reads.read[OF reads.no_read p quiet_env_ok(2) _ _ r] by (simp add: nines_def)
  moreover have "prefix (ring_contents one_frame_ring) (snd w' @ ring_contents ring')"
    using send_message_spec[OF demo_consumer demo_source len empty_ring(1) _ _ _ s refl refl refl] fw empty_ring(2)
    by (simp add: fresh_writer_def one_frame_ring(2) message_frames_def chunks_step wire_consts nines_def fifth_def axivc_endpoint_init_def)
  ultimately show ?thesis using sends reads_return_what_was_written[OF fw sends fr] by blast
qed

end
