(* ===== verification/Axivc_Vdev.thy ===== *)
theory Axivc_Vdev
  imports Axivc_Transfer Axivc_Region
begin

text \<open>
  The channel devices of \<^verbatim>\<open>ivc/ivc.c\<close>: publishing and subscribing a channel, with every
  error path and its rollback, removing it again, and the bookkeeping of the device lists.
  The allocator, the memory mapper, the device registry, the hypervisor and the shared
  memory are the fields of a record \<open>denv\<close>.
\<close>

section \<open>The environment\<close>

type_synonym ptr = u64

text \<open>
  \<open>d_load\<close> and \<open>d_store\<close> access a 64-bit word of kernel memory, which the hypervisor also
  writes. \<open>d_region\<close> and \<open>d_set_region\<close> access the shared region through its mapping.
  \<open>d_at\<close> is the address translation instruction, \<open>d_par_el1\<close> its result register.
\<close>

record 'w denv =
  d_kernel :: "'w kenv"
  d_kzalloc :: "'w \<Rightarrow> ptr option \<times> 'w"
  d_kfree :: "ptr \<Rightarrow> 'w \<Rightarrow> 'w"
  d_load :: "ptr \<Rightarrow> 'w \<Rightarrow> u64"
  d_store :: "ptr \<Rightarrow> u64 \<Rightarrow> 'w \<Rightarrow> 'w"
  d_at :: "'w \<Rightarrow> u64 \<Rightarrow> u64"
  d_par_el1 :: "'w \<Rightarrow> u64"
  d_memremap :: "u64 \<Rightarrow> u64 \<Rightarrow> 'w \<Rightarrow> ptr option \<times> 'w"
  d_memunmap :: "ptr \<Rightarrow> 'w \<Rightarrow> 'w"
  d_misc_register :: "string \<Rightarrow> 'w \<Rightarrow> status \<times> 'w"
  d_misc_deregister :: "string \<Rightarrow> 'w \<Rightarrow> 'w"
  d_region :: "ptr \<Rightarrow> 'w \<Rightarrow> axivc_region"
  d_set_region :: "ptr \<Rightarrow> axivc_region \<Rightarrow> 'w \<Rightarrow> 'w"

section \<open>State\<close>

definition MAX_VDEVS :: nat where "MAX_VDEVS = 16"
definition MAX_IVC_DEV_NAME_LENGTH :: nat where "MAX_IVC_DEV_NAME_LENGTH = 64"
definition AXIVC_SUBSCRIBE_WAIT_MS :: nat where "AXIVC_SUBSCRIBE_WAIT_MS = 10000"
definition IVC_PUBLISHER_DEV_NAME_PREFIX :: string where
  "IVC_PUBLISHER_DEV_NAME_PREFIX = ''axivc_publisher_''"
definition IVC_SUBSCRIBER_DEV_NAME_PREFIX :: string where
  "IVC_SUBSCRIBER_DEV_NAME_PREFIX = ''axivc_subscriber_''"

record axivc_publisher_vdev =
  pv_name :: string
  pv_id :: u32
  pv_active :: bool
  pv_removing :: bool
  pv_key :: u64
  pv_shm_base :: u64
  pv_shm_size :: u64
  pv_mapped_shm_base :: ptr
  pv_endpoint :: axivc_endpoint

record axivc_subscriber_vdev =
  sv_name :: string
  sv_id :: u32
  sv_active :: bool
  sv_removing :: bool
  sv_publisher_id :: u64
  sv_key :: u64
  sv_shm_base :: u64
  sv_shm_size :: u64
  sv_mapped_shm_base :: ptr
  sv_endpoint :: axivc_endpoint

text \<open>
  The statics of \<^verbatim>\<open>ivc.c\<close>: the two lists hold addresses of devices, and \<open>pub_vdevs\<close> and
  \<open>sub_vdevs\<close> are the device objects that are allocated at an address.
\<close>

record ivc_state =
  pub_vdev_count :: nat
  pub_vdev_list :: "ptr list"
  next_pub_vdev_id :: u32
  pub_vdevs :: "ptr \<rightharpoonup> axivc_publisher_vdev"
  sub_vdev_count :: nat
  sub_vdev_list :: "ptr list"
  next_sub_vdev_id :: u32
  sub_vdevs :: "ptr \<rightharpoonup> axivc_subscriber_vdev"

definition ivc_state_init :: ivc_state where
  "ivc_state_init = \<lparr>pub_vdev_count = 0, pub_vdev_list = [], next_pub_vdev_id = 0, pub_vdevs = Map.empty,
    sub_vdev_count = 0, sub_vdev_list = [], next_sub_vdev_id = 0, sub_vdevs = Map.empty\<rparr>"

section \<open>Names\<close>

text \<open>The conversions \<open>%d\<close> and \<open>%s\<close> of \<open>snprintf\<close>, which keeps one byte for the terminator.\<close>

fun dec_digits :: "nat \<Rightarrow> string" where
  "dec_digits n = (if n < 10 then [char_of (48 + n)] else dec_digits (n div 10) @ [char_of (48 + n mod 10)])"

declare dec_digits.simps [simp del]

definition format_d :: "int \<Rightarrow> string" where
  "format_d i = (if i < 0 then ''-'' @ dec_digits (nat (- i)) else dec_digits (nat i))"

definition vdev_name :: "string \<Rightarrow> u32 \<Rightarrow> string" where
  "vdev_name pre ident = take 63 (pre @ format_d (sint ident))"

definition dev_path :: "string \<Rightarrow> string" where
  "dev_path name = take (MAX_IVC_DEV_NAME_LENGTH - 1) (''/dev/'' @ name)"

section \<open>Publishing\<close>

text \<open>A hypercall result assigned to an \<open>int\<close> keeps its low 32 bits.\<close>

definition int_of_hvc :: "u64 \<Rightarrow> u32" where
  "int_of_hvc r = ucast r"

definition d_kva2pa :: "'w denv \<Rightarrow> 'w \<Rightarrow> u64 \<Rightarrow> u64" where
  "d_kva2pa env w va = fst (kva2pa (d_at env w) (d_par_el1 env w) va)"

definition axivc_rollback_publish :: "'w denv \<Rightarrow> u64 \<Rightarrow> 'w \<Rightarrow> 'w" where
  "axivc_rollback_publish env key w = snd (hvc_unpublish_channel (k_hvc (d_kernel env)) key w)"

definition axivc_rollback_subscribe :: "'w denv \<Rightarrow> u64 \<Rightarrow> u64 \<Rightarrow> 'w \<Rightarrow> 'w" where
  "axivc_rollback_subscribe env publisher_id key w =
    snd (hvc_unsubscribe_channel (k_hvc (d_kernel env)) publisher_id key w)"

text \<open>
  The first part of \<open>ivc_publish_channel\<close> and \<open>ivc_subscribe_channel\<close>: the hypercall \<open>call\<close>
  writes base and size of the shared memory into a structure allocated for it.
\<close>

definition hvc_with_output ::
  "'w denv \<Rightarrow> u64 option \<Rightarrow> (u64 \<Rightarrow> u64 \<Rightarrow> 'w \<Rightarrow> u64 \<times> 'w) \<Rightarrow> 'w \<Rightarrow> (errno + u64 \<times> u64) \<times> 'w" where
  "hvc_with_output env expected_shm_size call w =
    (case d_kzalloc env w of
      (None, w) \<Rightarrow> (Inl ENOMEM, w)
    | (Some hvc_output, w) \<Rightarrow>
      let w = (case expected_shm_size of Some sz \<Rightarrow> d_store env (hvc_output + 8) sz w | None \<Rightarrow> w);
          shm_base_ptr = d_kva2pa env w hvc_output;
          shm_size_ptr = d_kva2pa env w (hvc_output + 8)
      in if shm_base_ptr = NOT 0 \<or> shm_size_ptr = NOT 0 then (Inl EFAULT, d_kfree env hvc_output w)
         else (case call shm_base_ptr shm_size_ptr w of
           (r, w) \<Rightarrow>
             if int_of_hvc r \<noteq> 0 then (Inl EIO, d_kfree env hvc_output w)
             else (Inr (d_load env hvc_output w, d_load env (hvc_output + 8) w), d_kfree env hvc_output w)))"

text \<open>
  From the allocation of the device on: \<open>unmap_region\<close> and \<open>rollback_channel\<close> are the code
  after the labels of that name.
\<close>

definition publish_rollback_channel :: "'w denv \<Rightarrow> u64 \<Rightarrow> errno \<Rightarrow> ivc_state \<Rightarrow> 'w \<Rightarrow> (errno + string) \<times> ivc_state \<times> 'w" where
  "publish_rollback_channel env channel_key err s w = (Inl err, s, axivc_rollback_publish env channel_key w)"

definition publish_unmap_region ::
  "'w denv \<Rightarrow> u64 \<Rightarrow> ptr \<Rightarrow> errno \<Rightarrow> ivc_state \<Rightarrow> 'w \<Rightarrow> (errno + string) \<times> ivc_state \<times> 'w" where
  "publish_unmap_region env channel_key mapped err s w =
    publish_rollback_channel env channel_key err s (d_memunmap env mapped w)"

text \<open>The section under the lock that reserves a place and a number, its undoing, and the final insertion.\<close>

definition publish_reserve :: "ivc_state \<Rightarrow> (u32 \<times> ivc_state) option" where
  "publish_reserve s =
    (if pub_vdev_count s \<ge> MAX_VDEVS then None
     else Some (next_pub_vdev_id s,
       s\<lparr>next_pub_vdev_id := next_pub_vdev_id s + 1, pub_vdev_count := pub_vdev_count s + 1\<rparr>))"

definition publish_fill :: "ptr \<Rightarrow> axivc_publisher_vdev \<Rightarrow> ivc_state \<Rightarrow> ivc_state" where
  "publish_fill p v s = s\<lparr>pub_vdevs := (pub_vdevs s)(p \<mapsto> v)\<rparr>"

definition publish_cancel :: "ptr \<Rightarrow> ivc_state \<Rightarrow> ivc_state" where
  "publish_cancel p s = s\<lparr>pub_vdev_count := pub_vdev_count s - 1, pub_vdevs := (pub_vdevs s)(p := None)\<rparr>"

definition publish_link :: "ptr \<Rightarrow> ivc_state \<Rightarrow> ivc_state" where
  "publish_link p s = s\<lparr>pub_vdev_list := pub_vdev_list s @ [p]\<rparr>"

definition publish_vdev ::
  "'w denv \<Rightarrow> u64 \<Rightarrow> u64 \<Rightarrow> u64 \<Rightarrow> ptr \<Rightarrow> ivc_state \<Rightarrow> 'w \<Rightarrow> (errno + string) \<times> ivc_state \<times> 'w" where
  "publish_vdev env channel_key shm_base shm_size mapped s w =
    (case d_kzalloc env w of
      (None, w) \<Rightarrow> publish_unmap_region env channel_key mapped ENOMEM s w
    | (Some vdev, w) \<Rightarrow>
      (case publish_reserve s of
        None \<Rightarrow> publish_unmap_region env channel_key mapped ENOSPC s (d_kfree env vdev w)
      | Some (ident, s) \<Rightarrow>
        let name = vdev_name IVC_PUBLISHER_DEV_NAME_PREFIX ident;
            s = publish_fill vdev \<lparr>pv_name = name, pv_id = ident, pv_active = False, pv_removing = False,
              pv_key = channel_key, pv_shm_base = shm_base, pv_shm_size = shm_size,
              pv_mapped_shm_base = mapped, pv_endpoint = axivc_endpoint_init\<rparr> s
        in (case d_misc_register env name w of
          (Some err, w) \<Rightarrow>
            publish_unmap_region env channel_key mapped err (publish_cancel vdev s) (d_kfree env vdev w)
        | (None, w) \<Rightarrow> (Inr (dev_path name), publish_link vdev s, w))))"

definition ivc_publish_channel ::
  "'w denv \<Rightarrow> u64 \<Rightarrow> u64 \<Rightarrow> ivc_state \<Rightarrow> 'w \<Rightarrow> (errno + string) \<times> ivc_state \<times> 'w" where
  "ivc_publish_channel env channel_key expected_shm_size s w =
    (case hvc_with_output env (Some expected_shm_size)
        (hvc_publish_channel (k_hvc (d_kernel env)) channel_key) w of
      (Inl err, w) \<Rightarrow> (Inl err, s, w)
    | (Inr (shm_base, shm_size), w) \<Rightarrow>
      (case d_memremap env shm_base shm_size w of
        (None, w) \<Rightarrow> publish_rollback_channel env channel_key ENOMEM s w
      | (Some mapped, w) \<Rightarrow>
        (case axivc_region_init_publisher (d_region env mapped w) (unat shm_size) channel_key of
          (Some err, region) \<Rightarrow> publish_unmap_region env channel_key mapped err s (d_set_region env mapped region w)
        | (None, region) \<Rightarrow>
            publish_vdev env channel_key shm_base shm_size mapped s (d_set_region env mapped region w))))"

text \<open>
  Removing a publication. The search with the \<open>removing\<close> mark, the withdrawal of the mark and
  the removal from the list each run under the list lock; the hypercall and the
  deregistration between them do not, and the mark keeps the device closed meanwhile. A list
  entry without an object is a dangling pointer, which the invariant excludes.
\<close>

fun find_pub :: "(ptr \<rightharpoonup> axivc_publisher_vdev) \<Rightarrow> u64 \<Rightarrow> ptr list \<Rightarrow> (ptr \<times> axivc_publisher_vdev) option" where
  "find_pub vdevs channel_key [] = None"
| "find_pub vdevs channel_key (p # ps) =
    (case vdevs p of
      None \<Rightarrow> None
    | Some v \<Rightarrow> if pv_key v \<noteq> channel_key then find_pub vdevs channel_key ps else Some (p, v))"

definition update_pub :: "(axivc_publisher_vdev \<Rightarrow> axivc_publisher_vdev) \<Rightarrow> ptr \<Rightarrow> ivc_state \<Rightarrow> ivc_state" where
  "update_pub f p s = s\<lparr>pub_vdevs := (pub_vdevs s)(p := map_option f (pub_vdevs s p))\<rparr>"

definition unpublish_begin :: "u64 \<Rightarrow> ivc_state \<Rightarrow> (errno + ptr \<times> axivc_publisher_vdev) \<times> ivc_state" where
  "unpublish_begin channel_key s =
    (case find_pub (pub_vdevs s) channel_key (pub_vdev_list s) of
      None \<Rightarrow> (Inl ENOENT, s)
    | Some (p, v) \<Rightarrow>
      if pv_active v \<or> pv_removing v then (Inl EBUSY, s)
      else (Inr (p, v), update_pub (\<lambda>v. v\<lparr>pv_removing := True\<rparr>) p s))"

definition unpublish_undo :: "ptr \<Rightarrow> ivc_state \<Rightarrow> ivc_state" where
  "unpublish_undo p s = update_pub (\<lambda>v. v\<lparr>pv_removing := False\<rparr>) p s"

definition unpublish_unlink :: "ptr \<Rightarrow> ivc_state \<Rightarrow> ivc_state" where
  "unpublish_unlink p s = s\<lparr>pub_vdev_list := remove1 p (pub_vdev_list s), pub_vdev_count := pub_vdev_count s - 1\<rparr>"

definition unpublish_free :: "ptr \<Rightarrow> ivc_state \<Rightarrow> ivc_state" where
  "unpublish_free p s = s\<lparr>pub_vdevs := (pub_vdevs s)(p := None)\<rparr>"

definition ivc_unpublish_channel :: "'w denv \<Rightarrow> u64 \<Rightarrow> ivc_state \<Rightarrow> 'w \<Rightarrow> status \<times> ivc_state \<times> 'w" where
  "ivc_unpublish_channel env channel_key s w =
    (case unpublish_begin channel_key s of
      (Inl err, s) \<Rightarrow> (Err err, s, w)
    | (Inr (p, v), s) \<Rightarrow>
      (case hvc_unpublish_channel (k_hvc (d_kernel env)) channel_key w of
        (r, w) \<Rightarrow>
          if int_of_hvc r \<noteq> 0 then (Err EIO, unpublish_undo p s, w)
          else (OK, unpublish_free p (unpublish_unlink p s),
            d_kfree env p (d_memunmap env (pv_mapped_shm_base v)
              (d_misc_deregister env (pv_name v) w)))))"

section \<open>Subscribing\<close>

fun validate_loop ::
  "'w denv \<Rightarrow> nat \<Rightarrow> ptr \<Rightarrow> u64 \<Rightarrow> u64 \<Rightarrow> u64 \<Rightarrow> u64 \<Rightarrow> 'w \<Rightarrow> (status \<times> 'w) option" where
  "validate_loop env 0 mapped shm_size publisher_id key deadline w = None"
| "validate_loop env (Suc fuel) mapped shm_size publisher_id key deadline w =
    (let err = axivc_region_validate (d_region env mapped w) (unat shm_size) publisher_id key in
     if err \<noteq> Err EAGAIN \<or> time_after_eq (k_jiffies (d_kernel env) w) deadline then Some (err, w)
     else (case k_msleep_interruptible (d_kernel env) AXIVC_POLL_INTERVAL_MS w of
       (True, w) \<Rightarrow> Some (Err ERESTARTSYS, w)
     | (False, w) \<Rightarrow> validate_loop env fuel mapped shm_size publisher_id key deadline w))"

declare validate_loop.simps(2) [simp del]

definition subscribe_rollback_subscription ::
  "'w denv \<Rightarrow> u64 \<Rightarrow> u64 \<Rightarrow> errno \<Rightarrow> ivc_state \<Rightarrow> 'w \<Rightarrow> (errno + string) \<times> ivc_state \<times> 'w" where
  "subscribe_rollback_subscription env publisher_id key err s w =
    (Inl err, s, axivc_rollback_subscribe env publisher_id key w)"

definition subscribe_unmap_subscription ::
  "'w denv \<Rightarrow> u64 \<Rightarrow> u64 \<Rightarrow> ptr \<Rightarrow> errno \<Rightarrow> ivc_state \<Rightarrow> 'w \<Rightarrow> (errno + string) \<times> ivc_state \<times> 'w" where
  "subscribe_unmap_subscription env publisher_id key mapped err s w =
    subscribe_rollback_subscription env publisher_id key err s (d_memunmap env mapped w)"

definition subscribe_reserve :: "ivc_state \<Rightarrow> (u32 \<times> ivc_state) option" where
  "subscribe_reserve s =
    (if sub_vdev_count s \<ge> MAX_VDEVS then None
     else Some (next_sub_vdev_id s,
       s\<lparr>next_sub_vdev_id := next_sub_vdev_id s + 1, sub_vdev_count := sub_vdev_count s + 1\<rparr>))"

definition subscribe_fill :: "ptr \<Rightarrow> axivc_subscriber_vdev \<Rightarrow> ivc_state \<Rightarrow> ivc_state" where
  "subscribe_fill p v s = s\<lparr>sub_vdevs := (sub_vdevs s)(p \<mapsto> v)\<rparr>"

definition subscribe_cancel :: "ptr \<Rightarrow> ivc_state \<Rightarrow> ivc_state" where
  "subscribe_cancel p s = s\<lparr>sub_vdev_count := sub_vdev_count s - 1, sub_vdevs := (sub_vdevs s)(p := None)\<rparr>"

definition subscribe_link :: "ptr \<Rightarrow> ivc_state \<Rightarrow> ivc_state" where
  "subscribe_link p s = s\<lparr>sub_vdev_list := sub_vdev_list s @ [p]\<rparr>"

definition subscribe_vdev ::
  "'w denv \<Rightarrow> u64 \<Rightarrow> u64 \<Rightarrow> u64 \<Rightarrow> u64 \<Rightarrow> ptr \<Rightarrow> ivc_state \<Rightarrow> 'w \<Rightarrow> (errno + string) \<times> ivc_state \<times> 'w" where
  "subscribe_vdev env publisher_id key shm_base shm_size mapped s w =
    (case d_kzalloc env w of
      (None, w) \<Rightarrow> subscribe_unmap_subscription env publisher_id key mapped ENOMEM s w
    | (Some vdev, w) \<Rightarrow>
      (case subscribe_reserve s of
        None \<Rightarrow> subscribe_unmap_subscription env publisher_id key mapped ENOSPC s (d_kfree env vdev w)
      | Some (ident, s) \<Rightarrow>
        let name = vdev_name IVC_SUBSCRIBER_DEV_NAME_PREFIX ident;
            s = subscribe_fill vdev \<lparr>sv_name = name, sv_id = ident, sv_active = False, sv_removing = False,
              sv_publisher_id = publisher_id, sv_key = key, sv_shm_base = shm_base, sv_shm_size = shm_size,
              sv_mapped_shm_base = mapped, sv_endpoint = axivc_endpoint_init\<rparr> s
        in (case d_misc_register env name w of
          (Some err, w) \<Rightarrow>
            subscribe_unmap_subscription env publisher_id key mapped err (subscribe_cancel vdev s) (d_kfree env vdev w)
        | (None, w) \<Rightarrow> (Inr (dev_path name), subscribe_link vdev s, w))))"

definition ivc_subscribe_channel ::
  "'w denv \<Rightarrow> nat \<Rightarrow> u64 \<Rightarrow> u64 \<Rightarrow> ivc_state \<Rightarrow> 'w \<Rightarrow> ((errno + string) \<times> ivc_state \<times> 'w) option" where
  "ivc_subscribe_channel env fuel publisher_id key s w =
    (case hvc_with_output env None (hvc_subscribe_channel (k_hvc (d_kernel env)) publisher_id key) w of
      (Inl err, w) \<Rightarrow> Some (Inl err, s, w)
    | (Inr (shm_base, shm_size), w) \<Rightarrow>
      (case d_memremap env shm_base shm_size w of
        (None, w) \<Rightarrow> Some (subscribe_rollback_subscription env publisher_id key ENOMEM s w)
      | (Some mapped, w) \<Rightarrow>
        let deadline = k_jiffies (d_kernel env) w + k_msecs_to_jiffies (d_kernel env) AXIVC_SUBSCRIBE_WAIT_MS in
        (case validate_loop env fuel mapped shm_size publisher_id key deadline w of
          None \<Rightarrow> None
        | Some (Some err, w) \<Rightarrow> Some (subscribe_unmap_subscription env publisher_id key mapped err s w)
        | Some (None, w) \<Rightarrow> Some (subscribe_vdev env publisher_id key shm_base shm_size mapped s w))))"

fun find_sub :: "(ptr \<rightharpoonup> axivc_subscriber_vdev) \<Rightarrow> u64 \<Rightarrow> u64 \<Rightarrow> ptr list \<Rightarrow> (ptr \<times> axivc_subscriber_vdev) option" where
  "find_sub vdevs publisher_id key [] = None"
| "find_sub vdevs publisher_id key (p # ps) =
    (case vdevs p of
      None \<Rightarrow> None
    | Some v \<Rightarrow> if sv_publisher_id v \<noteq> publisher_id \<or> sv_key v \<noteq> key then find_sub vdevs publisher_id key ps else Some (p, v))"

definition update_sub :: "(axivc_subscriber_vdev \<Rightarrow> axivc_subscriber_vdev) \<Rightarrow> ptr \<Rightarrow> ivc_state \<Rightarrow> ivc_state" where
  "update_sub f p s = s\<lparr>sub_vdevs := (sub_vdevs s)(p := map_option f (sub_vdevs s p))\<rparr>"

definition unsubscribe_begin :: "u64 \<Rightarrow> u64 \<Rightarrow> ivc_state \<Rightarrow> (errno + ptr \<times> axivc_subscriber_vdev) \<times> ivc_state" where
  "unsubscribe_begin publisher_id key s =
    (case find_sub (sub_vdevs s) publisher_id key (sub_vdev_list s) of
      None \<Rightarrow> (Inl ENOENT, s)
    | Some (p, v) \<Rightarrow>
      if sv_active v \<or> sv_removing v then (Inl EBUSY, s)
      else (Inr (p, v), update_sub (\<lambda>v. v\<lparr>sv_removing := True\<rparr>) p s))"

definition unsubscribe_undo :: "ptr \<Rightarrow> ivc_state \<Rightarrow> ivc_state" where
  "unsubscribe_undo p s = update_sub (\<lambda>v. v\<lparr>sv_removing := False\<rparr>) p s"

definition unsubscribe_unlink :: "ptr \<Rightarrow> ivc_state \<Rightarrow> ivc_state" where
  "unsubscribe_unlink p s = s\<lparr>sub_vdev_list := remove1 p (sub_vdev_list s), sub_vdev_count := sub_vdev_count s - 1\<rparr>"

definition unsubscribe_free :: "ptr \<Rightarrow> ivc_state \<Rightarrow> ivc_state" where
  "unsubscribe_free p s = s\<lparr>sub_vdevs := (sub_vdevs s)(p := None)\<rparr>"

definition ivc_unsubscribe_channel :: "'w denv \<Rightarrow> u64 \<Rightarrow> u64 \<Rightarrow> ivc_state \<Rightarrow> 'w \<Rightarrow> status \<times> ivc_state \<times> 'w" where
  "ivc_unsubscribe_channel env publisher_id key s w =
    (case unsubscribe_begin publisher_id key s of
      (Inl err, s) \<Rightarrow> (Err err, s, w)
    | (Inr (p, v), s) \<Rightarrow>
      (case hvc_unsubscribe_channel (k_hvc (d_kernel env)) publisher_id key w of
        (r, w) \<Rightarrow>
          if int_of_hvc r \<noteq> 0 then (Err EIO, unsubscribe_undo p s, w)
          else (OK, unsubscribe_free p (unsubscribe_unlink p s),
            d_kfree env p (d_memunmap env (sv_mapped_shm_base v)
              (d_misc_deregister env (sv_name v) w)))))"

section \<open>Searching the lists\<close>

lemma find_pub_Some:
  "find_pub vdevs key ps = Some (p, v) \<Longrightarrow> p \<in> set ps \<and> vdevs p = Some v \<and> pv_key v = key"
  by (induction ps) (auto split: option.splits if_splits)

lemma find_sub_Some:
  "find_sub vdevs pid key ps = Some (p, v) \<Longrightarrow>
    p \<in> set ps \<and> vdevs p = Some v \<and> sv_publisher_id v = pid \<and> sv_key v = key"
  by (induction ps) (auto split: option.splits if_splits)

lemma find_pub_None:
  "find_pub vdevs key ps = None \<Longrightarrow> set ps \<subseteq> dom vdevs \<Longrightarrow> p \<in> set ps \<Longrightarrow> vdevs p = Some v \<Longrightarrow> pv_key v \<noteq> key"
  by (induction ps) (auto split: option.splits if_splits)

lemma find_sub_None:
  "find_sub vdevs pid key ps = None \<Longrightarrow> set ps \<subseteq> dom vdevs \<Longrightarrow> p \<in> set ps \<Longrightarrow> vdevs p = Some v \<Longrightarrow>
    sv_publisher_id v \<noteq> pid \<or> sv_key v \<noteq> key"
  by (induction ps) (auto split: option.splits if_splits)

end
