(* ===== verification/Axivc_Books.thy ===== *)
theory Axivc_Books
  imports Axivc_Vdev "HOL-Library.Multiset"
begin

text \<open>
  What the channel devices hold. Every service that grants or takes back a resource is entered
  in a ledger (\<open>ledger_ok\<close>); the books balance when the resources held are exactly those of the
  devices in the lists. Publishing, subscribing and their opposites keep the books on every
  path. The two device tables share their proofs through the locale \<open>vdev_table\<close>.
\<close>

section \<open>Resources\<close>

datatype resource = Heap ptr | Mapping ptr | Device string | Pci_Driver | Channel u64 | Subscription u64 u64

text \<open>
  \<open>live\<close> is the multiset of resources held. Each service changes it by the resource it
  grants or takes back. Freeing, unmapping or deregistering something that is not held is a
  fault, about which nothing is promised: a path that released a resource twice could not
  balance. A hypercall that returns 0 has done what it was asked, one that returns something
  else has done nothing, and its 64-bit result is 0 exactly when the \<open>int\<close> the driver cuts it to is.
\<close>

fun hvc_effect :: "u64 list \<Rightarrow> resource multiset \<Rightarrow> resource multiset" where
  "hvc_effect (mode # a # b # rest) M =
    (if mode = hvc_code HIVCPublishChannel then add_mset (Channel a) M
     else if mode = hvc_code HIVCUnPublishChannel then M - {#Channel a#}
     else if mode = hvc_code HIVCSubscribChannel then add_mset (Subscription a b) M
     else if mode = hvc_code HIVCUnSubscribChannel then M - {#Subscription a b#}
     else M)"
| "hvc_effect _ M = M"

definition ledger_ok :: "'w denv \<Rightarrow> ('w \<Rightarrow> resource multiset) \<Rightarrow> bool" where
  "ledger_ok env live \<longleftrightarrow>
    (\<forall>w w'. d_kzalloc env w = (None, w') \<longrightarrow> live w' = live w) \<and>
    (\<forall>w p w'. d_kzalloc env w = (Some p, w') \<longrightarrow> Heap p \<notin># live w \<and> live w' = add_mset (Heap p) (live w)) \<and>
    (\<forall>p w. Heap p \<in># live w \<longrightarrow> live (d_kfree env p w) = live w - {#Heap p#}) \<and>
    (\<forall>p v w. live (d_store env p v w) = live w) \<and>
    (\<forall>b n w w'. d_memremap env b n w = (None, w') \<longrightarrow> live w' = live w) \<and>
    (\<forall>b n w p w'. d_memremap env b n w = (Some p, w') \<longrightarrow> live w' = add_mset (Mapping p) (live w)) \<and>
    (\<forall>p w. Mapping p \<in># live w \<longrightarrow> live (d_memunmap env p w) = live w - {#Mapping p#}) \<and>
    (\<forall>n w e w'. d_misc_register env n w = (Err e, w') \<longrightarrow> live w' = live w) \<and>
    (\<forall>n w w'. d_misc_register env n w = (OK, w') \<longrightarrow> live w' = add_mset (Device n) (live w)) \<and>
    (\<forall>n w. Device n \<in># live w \<longrightarrow> live (d_misc_deregister env n w) = live w - {#Device n#}) \<and>
    (\<forall>p g w. live (d_set_region env p g w) = live w) \<and>
    (\<forall>ms w. live (snd (k_msleep_interruptible (d_kernel env) ms w)) = live w) \<and>
    (\<forall>regs w r w'. k_hvc (d_kernel env) regs w = (r, w') \<longrightarrow>
      (int_of_hvc r = 0 \<longleftrightarrow> r = 0) \<and> live w' = (if r = 0 then hvc_effect regs (live w) else live w))"

lemma ledger_grants:
  assumes "ledger_ok env live"
  shows ledger_kzalloc: "d_kzalloc env w = (res, w') \<Longrightarrow>
      live w' = (case res of None \<Rightarrow> live w | Some p \<Rightarrow> add_mset (Heap p) (live w))"
    and ledger_fresh: "d_kzalloc env w = (Some p, w') \<Longrightarrow> Heap p \<notin># live w"
    and ledger_memremap: "d_memremap env b n w = (res, w') \<Longrightarrow>
      live w' = (case res of None \<Rightarrow> live w | Some p \<Rightarrow> add_mset (Mapping p) (live w))"
    and ledger_misc_register: "d_misc_register env name w = (st, w') \<Longrightarrow>
      live w' = (case st of None \<Rightarrow> add_mset (Device name) (live w) | Some e \<Rightarrow> live w)"
    and ledger_hvc: "k_hvc (d_kernel env) regs w = (r, w') \<Longrightarrow>
      live w' = (if int_of_hvc r = 0 then hvc_effect regs (live w) else live w)"
  using assms unfolding ledger_ok_def by (cases res; cases st; simp)+

lemma ledger_simps:
  assumes "ledger_ok env live"
  shows "Heap p \<in># live w \<Longrightarrow> live (d_kfree env p w) = live w - {#Heap p#}"
    and "live (d_store env p v w) = live w"
    and "Mapping p \<in># live w \<Longrightarrow> live (d_memunmap env p w) = live w - {#Mapping p#}"
    and "Device n \<in># live w \<Longrightarrow> live (d_misc_deregister env n w) = live w - {#Device n#}"
    and "live (d_set_region env p g w) = live w"
    and "live (snd (k_msleep_interruptible (d_kernel env) ms w)) = live w"
  using assms unfolding ledger_ok_def by simp_all

lemmas hvc_wrappers = hvc_publish_channel_def hvc_unpublish_channel_def hvc_subscribe_channel_def
  hvc_unsubscribe_channel_def hvc_call_def

lemma ledger_hvc_calls:
  assumes "ledger_ok env live"
  shows "hvc_publish_channel (k_hvc (d_kernel env)) key a b w = (r, w') \<Longrightarrow>
      live w' = (if int_of_hvc r = 0 then add_mset (Channel key) (live w) else live w)"
    and "hvc_unpublish_channel (k_hvc (d_kernel env)) key w = (r, w') \<Longrightarrow>
      live w' = (if int_of_hvc r = 0 then live w - {#Channel key#} else live w)"
    and "hvc_subscribe_channel (k_hvc (d_kernel env)) pid key a b w = (r, w') \<Longrightarrow>
      live w' = (if int_of_hvc r = 0 then add_mset (Subscription pid key) (live w) else live w)"
    and "hvc_unsubscribe_channel (k_hvc (d_kernel env)) pid key w = (r, w') \<Longrightarrow>
      live w' = (if int_of_hvc r = 0 then live w - {#Subscription pid key#} else live w)"
  using ledger_hvc[OF assms] by (fastforce simp: hvc_wrappers)+

text \<open>The hypercall with an output structure keeps nothing but what the hypercall granted.\<close>

lemma hvc_with_output_ledger:
  assumes "ledger_ok env live" "hvc_with_output env sz call w = (res, w')"
    and "\<And>a b w r w'. call a b w = (r, w') \<Longrightarrow> live w' = (if int_of_hvc r = 0 then add_mset X (live w) else live w)"
    and "\<And>p. X \<noteq> Heap p"
  shows "live w' = (case res of Inl e \<Rightarrow> live w | Inr _ \<Rightarrow> add_mset X (live w))"
proof -
  obtain out w1 where al: "d_kzalloc env w = (out, w1)" by fastforce
  note kz = ledger_kzalloc[OF assms(1) al]
  show ?thesis
  proof (cases out)
    case None
    then show ?thesis using assms(2) al kz by (auto simp: hvc_with_output_def)
  next
    case (Some p)
    define w2 where "w2 = (case sz of Some n \<Rightarrow> d_store env (p + 8) n w1 | None \<Rightarrow> w1)"
    have l2: "live w2 = add_mset (Heap p) (live w)"
      using kz Some by (simp add: w2_def ledger_simps[OF assms(1)] split: option.split)
    obtain r w3 where cl: "call (d_kva2pa env w2 p) (d_kva2pa env w2 (p + 8)) w2 = (r, w3)" by fastforce
    have "(res, w') = (if d_kva2pa env w2 p = NOT 0 \<or> d_kva2pa env w2 (p + 8) = NOT 0 then (Inl EFAULT, d_kfree env p w2)
        else if int_of_hvc r \<noteq> 0 then (Inl EIO, d_kfree env p w3)
        else (Inr (d_load env p w3, d_load env (p + 8) w3), d_kfree env p w3))"
      using assms(2)[symmetric] cl
      by (simp only: hvc_with_output_def al Some prod.case option.case Let_def w2_def[symmetric])
    then show ?thesis
      using assms(3)[OF cl] assms(4)[of p] l2
      by (auto simp: ledger_simps[OF assms(1)] add_eq_conv_diff split: if_splits)
  qed
qed

section \<open>The books\<close>

text \<open>
  \<open>held\<close> is what the devices in the lists hold: each its allocation, its mapping, its device
  file and its channel or subscription. \<open>tables_ok\<close> is the invariant of the lists. The books
  balance when what is held is exactly this and the rest that others hold.
\<close>

definition pub_res :: "(ptr \<rightharpoonup> axivc_publisher_vdev) \<Rightarrow> ptr \<Rightarrow> resource multiset" where
  "pub_res vdevs p = (case vdevs p of None \<Rightarrow> {#}
    | Some v \<Rightarrow> {#Heap p, Mapping (pv_mapped_shm_base v), Device (pv_name v), Channel (pv_key v)#})"

definition sub_res :: "(ptr \<rightharpoonup> axivc_subscriber_vdev) \<Rightarrow> ptr \<Rightarrow> resource multiset" where
  "sub_res vdevs p = (case vdevs p of None \<Rightarrow> {#}
    | Some v \<Rightarrow> {#Heap p, Mapping (sv_mapped_shm_base v), Device (sv_name v),
        Subscription (sv_publisher_id v) (sv_key v)#})"

definition held :: "ivc_state \<Rightarrow> resource multiset" where
  "held s = sum_list (map (pub_res (pub_vdevs s)) (pub_vdev_list s)) + sum_list (map (sub_res (sub_vdevs s)) (sub_vdev_list s))"

definition tables_ok :: "ivc_state \<Rightarrow> bool" where
  "tables_ok s \<longleftrightarrow>
    distinct (pub_vdev_list s) \<and> dom (pub_vdevs s) = set (pub_vdev_list s) \<and>
    pub_vdev_count s = length (pub_vdev_list s) \<and> pub_vdev_count s \<le> MAX_VDEVS \<and>
    distinct (sub_vdev_list s) \<and> dom (sub_vdevs s) = set (sub_vdev_list s) \<and>
    sub_vdev_count s = length (sub_vdev_list s) \<and> sub_vdev_count s \<le> MAX_VDEVS"

definition books :: "('w \<Rightarrow> resource multiset) \<Rightarrow> resource multiset \<Rightarrow> ivc_state \<Rightarrow> 'w \<Rightarrow> bool" where
  "books live rest s w \<longleftrightarrow> tables_ok s \<and> live w = held s + rest"

text \<open>The last thing that happened was that the hypervisor refused to take the channel back.\<close>

definition unpublish_refused :: "'w denv \<Rightarrow> u64 \<Rightarrow> 'w \<Rightarrow> bool" where
  "unpublish_refused env key w' \<longleftrightarrow>
    (\<exists>w r. hvc_unpublish_channel (k_hvc (d_kernel env)) key w = (r, w') \<and> int_of_hvc r \<noteq> 0)"

definition unsubscribe_refused :: "'w denv \<Rightarrow> u64 \<Rightarrow> u64 \<Rightarrow> 'w \<Rightarrow> bool" where
  "unsubscribe_refused env pid key w' \<longleftrightarrow>
    (\<exists>w r. hvc_unsubscribe_channel (k_hvc (d_kernel env)) pid key w = (r, w') \<and> int_of_hvc r \<noteq> 0)"

lemma in_sum_list_mset: "y \<in># f x \<Longrightarrow> x \<in> set xs \<Longrightarrow> y \<in># sum_list (map f xs)"
  by (induction xs) auto

lemma res_other [simp]:
  "p \<notin> set ps \<Longrightarrow> map (pub_res (m(p := x))) ps = map (pub_res m) ps"
  "p \<notin> set qs \<Longrightarrow> map (sub_res (n(p := y))) qs = map (sub_res n) qs"
  by (auto simp: pub_res_def sub_res_def)

text \<open>How a failed publication leaves things: at worst the refused channel is left over.\<close>

definition publish_failed ::
  "'w denv \<Rightarrow> ('w \<Rightarrow> resource multiset) \<Rightarrow> u64 \<Rightarrow> resource multiset \<Rightarrow> 'w \<Rightarrow> bool" where
  "publish_failed env live key L w' \<longleftrightarrow>
    live w' = L \<or> live w' = add_mset (Channel key) L \<and> unpublish_refused env key w'"

definition subscribe_failed ::
  "'w denv \<Rightarrow> ('w \<Rightarrow> resource multiset) \<Rightarrow> u64 \<Rightarrow> u64 \<Rightarrow> resource multiset \<Rightarrow> 'w \<Rightarrow> bool" where
  "subscribe_failed env live pid key L w' \<longleftrightarrow>
    live w' = L \<or> live w' = add_mset (Subscription pid key) L \<and> unsubscribe_refused env pid key w'"

lemma publish_rollback_ledger:
  assumes "ledger_ok env live" "live w = add_mset (Channel key) L"
    and "publish_rollback_channel env key err s w = (res, s', w')"
  shows "res = Inl err \<and> s' = s \<and> publish_failed env live key L w'"
proof -
  obtain r w1 where r: "hvc_unpublish_channel (k_hvc (d_kernel env)) key w = (r, w1)" by fastforce
  then have w1: "w' = w1" "res = Inl err" "s' = s"
    using assms(3) by (auto simp: publish_rollback_channel_def axivc_rollback_publish_def)
  show ?thesis
    using ledger_hvc_calls(2)[OF assms(1) r] assms(2) r w1
    by (cases "int_of_hvc r = 0") (auto simp: unpublish_refused_def publish_failed_def)
qed

lemma publish_unmap_ledger:
  assumes "ledger_ok env live" "live w = L + {#Mapping m, Channel key#}"
    and "publish_unmap_region env key m err s w = (res, s', w')"
  shows "res = Inl err \<and> s' = s \<and> publish_failed env live key L w'"
  using assms by (intro publish_rollback_ledger[of env live "d_memunmap env m w"])
    (auto simp: publish_unmap_region_def ledger_simps)

lemma subscribe_rollback_ledger:
  assumes "ledger_ok env live" "live w = add_mset (Subscription pid key) L"
    and "subscribe_rollback_subscription env pid key err s w = (res, s', w')"
  shows "res = Inl err \<and> s' = s \<and> subscribe_failed env live pid key L w'"
proof -
  obtain r w1 where r: "hvc_unsubscribe_channel (k_hvc (d_kernel env)) pid key w = (r, w1)" by fastforce
  then have w1: "w' = w1" "res = Inl err" "s' = s"
    using assms(3) by (auto simp: subscribe_rollback_subscription_def axivc_rollback_subscribe_def)
  show ?thesis
    using ledger_hvc_calls(4)[OF assms(1) r] assms(2) r w1
    by (cases "int_of_hvc r = 0") (auto simp: unsubscribe_refused_def subscribe_failed_def)
qed

lemma subscribe_unmap_ledger:
  assumes "ledger_ok env live" "live w = L + {#Mapping m, Subscription pid key#}"
    and "subscribe_unmap_subscription env pid key m err s w = (res, s', w')"
  shows "res = Inl err \<and> s' = s \<and> subscribe_failed env live pid key L w'"
  using assms by (intro subscribe_rollback_ledger[of env live "d_memunmap env m w"])
    (auto simp: subscribe_unmap_subscription_def ledger_simps)

section \<open>The two device tables\<close>

text \<open>
  The publisher and the subscriber side are the same code over different statics. \<open>create_vdev\<close>
  and \<open>remove_vdev\<close> are its common shape; the locale \<open>vdev_table\<close> states what the steps on the
  statics promise, and its lemmas hold for both sides.
\<close>

definition create_vdev ::
  "'w denv \<Rightarrow> (ivc_state \<Rightarrow> (u32 \<times> ivc_state) option) \<Rightarrow> (ptr \<Rightarrow> 'v \<Rightarrow> ivc_state \<Rightarrow> ivc_state) \<Rightarrow>
    (ptr \<Rightarrow> ivc_state \<Rightarrow> ivc_state) \<Rightarrow> (ptr \<Rightarrow> ivc_state \<Rightarrow> ivc_state) \<Rightarrow> ('v \<Rightarrow> string) \<Rightarrow> (u32 \<Rightarrow> 'v) \<Rightarrow>
    (errno \<Rightarrow> ivc_state \<Rightarrow> 'w \<Rightarrow> (errno + string) \<times> ivc_state \<times> 'w) \<Rightarrow> ivc_state \<Rightarrow> 'w \<Rightarrow>
    (errno + string) \<times> ivc_state \<times> 'w" where
  "create_vdev env reserve fill cancel link name mk unmap s w =
    (case d_kzalloc env w of
      (None, w) \<Rightarrow> unmap ENOMEM s w
    | (Some p, w) \<Rightarrow>
      (case reserve s of
        None \<Rightarrow> unmap ENOSPC s (d_kfree env p w)
      | Some (i, s) \<Rightarrow>
        (case d_misc_register env (name (mk i)) w of
          (Some err, w) \<Rightarrow> unmap err (cancel p (fill p (mk i) s)) (d_kfree env p w)
        | (None, w) \<Rightarrow> (Inr (dev_path (name (mk i))), link p (fill p (mk i) s), w))))"

definition remove_vdev ::
  "'w denv \<Rightarrow> ('k \<Rightarrow> ivc_state \<Rightarrow> (errno + ptr \<times> 'v) \<times> ivc_state) \<Rightarrow> (ptr \<Rightarrow> ivc_state \<Rightarrow> ivc_state) \<Rightarrow>
    (ptr \<Rightarrow> ivc_state \<Rightarrow> ivc_state) \<Rightarrow> (ptr \<Rightarrow> ivc_state \<Rightarrow> ivc_state) \<Rightarrow> ('v \<Rightarrow> string) \<Rightarrow> ('v \<Rightarrow> ptr) \<Rightarrow>
    ('w \<Rightarrow> u64 \<times> 'w) \<Rightarrow> 'k \<Rightarrow> ivc_state \<Rightarrow> 'w \<Rightarrow> status \<times> ivc_state \<times> 'w" where
  "remove_vdev env begin_removal undo unlink free name mapped call k s w =
    (case begin_removal k s of
      (Inl err, s) \<Rightarrow> (Err err, s, w)
    | (Inr (p, v), s) \<Rightarrow>
      (case call w of (r, w) \<Rightarrow>
        if int_of_hvc r \<noteq> 0 then (Err EIO, undo p s, w)
        else (OK, free p (unlink p s),
          d_kfree env p (d_memunmap env (mapped v) (d_misc_deregister env (name v) w)))))"

locale vdev_table =
  fixes vdevs :: "ivc_state \<Rightarrow> ptr \<rightharpoonup> 'v"
    and reserve :: "ivc_state \<Rightarrow> (u32 \<times> ivc_state) option"
    and bump :: "ivc_state \<Rightarrow> ivc_state"
    and fill :: "ptr \<Rightarrow> 'v \<Rightarrow> ivc_state \<Rightarrow> ivc_state"
    and cancel link undo unlink free :: "ptr \<Rightarrow> ivc_state \<Rightarrow> ivc_state"
    and begin_removal :: "'k \<Rightarrow> ivc_state \<Rightarrow> (errno + ptr \<times> 'v) \<times> ivc_state"
    and name :: "'v \<Rightarrow> string"
    and mapped :: "'v \<Rightarrow> ptr"
    and granted :: "'v \<Rightarrow> resource"
    and key_of :: "'v \<Rightarrow> 'k"
  assumes allocated: "tables_ok s \<Longrightarrow> vdevs s p = Some v \<Longrightarrow> Heap p \<in># held s"
    and cancelled: "reserve s = Some (i, s1) \<Longrightarrow> vdevs s p = None \<Longrightarrow> cancel p (fill p v s1) = bump s"
    and linked: "reserve s = Some (i, s1) \<Longrightarrow> tables_ok s \<Longrightarrow> vdevs s p = None \<Longrightarrow>
      tables_ok (link p (fill p v s1)) \<and>
      held (link p (fill p v s1)) = held s + {#Heap p, Mapping (mapped v), Device (name v), granted v#}"
    and refused: "begin_removal k s = (Inl e, s1) \<Longrightarrow> s1 = s"
    and removal: "begin_removal k s = (Inr (p, v), s1) \<Longrightarrow> tables_ok s \<Longrightarrow>
      vdevs s p = Some v \<and> key_of v = k \<and> undo p s1 = s \<and> tables_ok (free p (unlink p s1)) \<and>
      held s = held (free p (unlink p s1)) + {#Heap p, Mapping (mapped v), Device (name v), granted v#}"
begin

text \<open>Creating a device keeps the books, whichever step fails.\<close>

lemma create_books:
  assumes led: "ledger_ok env live" and tab: "tables_ok s"
    and L: "live w = (held s + rest) + {#Mapping m, X#}"
    and um: "\<forall>e s1 w res s' w'. live w = (held s + rest) + {#Mapping m, X#} \<longrightarrow> unmap e s1 w = (res, s', w') \<longrightarrow>
      res = Inl e \<and> s' = s1 \<and> failed w'"
    and mk: "\<And>i. mapped (mk i) = m \<and> granted (mk i) = X"
    and run: "create_vdev env reserve fill cancel link name mk unmap s w = (res, s', w')"
  shows "case res of Inl e \<Rightarrow> failed w' \<and> (s' = s \<or> s' = bump s)
    | Inr path \<Rightarrow> books live rest s' w' \<and> (\<exists>p i s1. vdevs s p = None \<and> reserve s = Some (i, s1) \<and>
        s' = link p (fill p (mk i) s1) \<and> path = dev_path (name (mk i)))"
proof -
  obtain out w1 where al: "d_kzalloc env w = (out, w1)" by fastforce
  note kz = ledger_kzalloc[OF led al] ledger_fresh[OF led]
  note led_simps = ledger_simps[OF led]
  note unmap = um[rule_format]
  show ?thesis
  proof (cases out)
    case None
    with al run have "unmap ENOMEM s w1 = (res, s', w')" by (simp add: create_vdev_def)
    from unmap[OF _ this] show ?thesis using kz None L by simp
  next
    case out: (Some p)
    have p: "vdevs s p = None"
      using kz(2)[of w p w1] al out L allocated[OF tab, of p] by (cases "vdevs s p") auto
    show ?thesis
    proof (cases "reserve s")
      case None
      with al out run have "unmap ENOSPC s (d_kfree env p w1) = (res, s', w')" by (simp add: create_vdev_def)
      from unmap[OF _ this] show ?thesis using kz(1) out L by (simp add: led_simps)
    next
      case (Some is1)
      then obtain i s1 where i: "reserve s = Some (i, s1)" by (cases is1) simp
      obtain st w2 where reg: "d_misc_register env (name (mk i)) w1 = (st, w2)" by fastforce
      note lw2 = ledger_misc_register[OF led reg]
      show ?thesis
      proof (cases st)
        case (Some err)
        have "unmap err (cancel p (fill p (mk i) s1)) (d_kfree env p w2) = (res, s', w')"
          using run by (simp add: create_vdev_def al out i reg Some)
        from unmap[OF _ this] show ?thesis using kz(1) lw2 out L Some cancelled[OF i p] by (simp add: led_simps)
      next
        case None
        then have eq: "res = Inr (dev_path (name (mk i)))" "s' = link p (fill p (mk i) s1)" "w' = w2"
          using run by (simp_all add: create_vdev_def al out i reg)
        have "live w' = held s' + rest"
          using lw2 kz(1) out None L linked[OF i tab p, of "mk i"] mk by (simp add: eq)
        then show ?thesis using eq linked[OF i tab p] p i by (auto simp: books_def)
      qed
    qed
  qed
qed

text \<open>Removing a device takes exactly its resources off the books, or changes nothing.\<close>

lemma remove_books:
  assumes led: "ledger_ok env live" and bal: "books live rest s w"
    and call: "\<And>w r w'. call w = (r, w') \<Longrightarrow>
      live w' = (if int_of_hvc r = 0 then live w - {#X#} else live w)"
    and X: "\<And>v. key_of v = k \<Longrightarrow> granted v = X"
    and run: "remove_vdev env begin_removal undo unlink free name mapped call k s w = (st, s', w')"
  shows "books live rest s' w' \<and> (case st of Some e \<Rightarrow> s' = s \<and> live w' = live w
    | None \<Rightarrow> \<exists>p v. vdevs s p = Some v \<and> key_of v = k \<and>
        live w = live w' + {#Heap p, Mapping (mapped v), Device (name v), X#})"
proof -
  obtain b s1 where b: "begin_removal k s = (b, s1)" by fastforce
  show ?thesis
  proof (cases b)
    case (Inl e)
    then show ?thesis using run b refused[of k s e s1] bal by (auto simp: remove_vdev_def)
  next
    case (Inr pv)
    then obtain p v where pv: "begin_removal k s = (Inr (p, v), s1)" using b by (cases pv) simp
    obtain r w1 where r: "call w = (r, w1)" by fastforce
    note rm = removal[OF pv] and lw1 = call[OF r]
    show ?thesis
    proof (cases "int_of_hvc r = 0")
      case True
      then have eq: "st = OK" "s' = free p (unlink p s1)"
        "w' = d_kfree env p (d_memunmap env (mapped v) (d_misc_deregister env (name v) w1))"
        using run by (simp_all add: remove_vdev_def pv r)
      have "live w = held s' + rest + {#Heap p, Mapping (mapped v), Device (name v), X#}"
        using bal rm X by (auto simp: books_def eq)
      moreover from this have "live w' = held s' + rest"
        using lw1 True by (simp add: eq ledger_simps[OF led])
      ultimately show ?thesis using eq rm bal by (auto simp: books_def)
    next
      case False
      then show ?thesis using run rm bal lw1 by (auto simp: remove_vdev_def pv r books_def)
    qed
  qed
qed

end

lemma sum_list_remove1:
  fixes f :: "'a \<Rightarrow> 'b multiset"
  shows "p \<in> set ps \<Longrightarrow> sum_list (map f ps) = sum_list (map f (remove1 p ps)) + f p"
  using sum_list_map_remove1[of p ps f] by (simp add: add.commute)

lemmas pub_ops = publish_reserve_def publish_fill_def publish_cancel_def publish_link_def
  unpublish_begin_def unpublish_undo_def unpublish_unlink_def unpublish_free_def update_pub_def
lemmas sub_ops = subscribe_reserve_def subscribe_fill_def subscribe_cancel_def subscribe_link_def
  unsubscribe_begin_def unsubscribe_undo_def unsubscribe_unlink_def unsubscribe_free_def update_sub_def

lemma held_pub_member:
  assumes "tables_ok s" "pub_vdevs s p = Some v"
  shows "Heap p \<in># held s"
proof -
  have "p \<in> set (pub_vdev_list s)" using assms by (auto simp: tables_ok_def)
  moreover have "Heap p \<in># pub_res (pub_vdevs s) p" using assms(2) by (simp add: pub_res_def)
  ultimately show ?thesis by (auto simp: held_def intro: in_sum_list_mset)
qed

lemma held_sub_member:
  assumes "tables_ok s" "sub_vdevs s p = Some v"
  shows "Heap p \<in># held s"
proof -
  have "p \<in> set (sub_vdev_list s)" using assms by (auto simp: tables_ok_def)
  moreover have "Heap p \<in># sub_res (sub_vdevs s) p" using assms(2) by (simp add: sub_res_def)
  ultimately show ?thesis by (auto simp: held_def intro: in_sum_list_mset)
qed

interpretation pubs: vdev_table pub_vdevs publish_reserve "\<lambda>s. s\<lparr>next_pub_vdev_id := next_pub_vdev_id s + 1\<rparr>"
  publish_fill publish_cancel publish_link unpublish_undo unpublish_unlink unpublish_free unpublish_begin
  pv_name pv_mapped_shm_base "\<lambda>v. Channel (pv_key v)" pv_key
proof
  fix s p v
  assume "tables_ok s" "pub_vdevs s p = Some v"
  then show "Heap p \<in># held s" by (rule held_pub_member)
next
  fix s i s1 p v
  assume "publish_reserve s = Some (i, s1)" "pub_vdevs s p = None"
  then show "publish_cancel p (publish_fill p v s1) = s\<lparr>next_pub_vdev_id := next_pub_vdev_id s + 1\<rparr>"
    by (auto simp: pub_ops fun_upd_idem split: if_splits)
next
  fix s i s1 p v
  assume *: "publish_reserve s = Some (i, s1)" "tables_ok s" "pub_vdevs s p = None"
  then have "p \<notin> set (pub_vdev_list s)" by (auto simp: tables_ok_def)
  moreover from *(1) have "s1 = s\<lparr>next_pub_vdev_id := next_pub_vdev_id s + 1, pub_vdev_count := pub_vdev_count s + 1\<rparr>"
    "pub_vdev_count s < MAX_VDEVS" by (auto simp: publish_reserve_def split: if_splits)
  ultimately show "tables_ok (publish_link p (publish_fill p v s1)) \<and>
    held (publish_link p (publish_fill p v s1)) =
      held s + {#Heap p, Mapping (pv_mapped_shm_base v), Device (pv_name v), Channel (pv_key v)#}"
    using *(2) by (simp add: tables_ok_def held_def publish_link_def publish_fill_def pub_res_def)
next
  fix k s e s1
  assume "unpublish_begin k s = (Inl e, s1)"
  then show "s1 = s" by (auto simp: pub_ops split: option.splits if_splits)
next
  fix k s p v s1
  assume *: "unpublish_begin k s = (Inr (p, v), s1)" "tables_ok s"
  then have v: "p \<in> set (pub_vdev_list s)" "pub_vdevs s p = Some v" "pv_key v = k" "\<not> pv_removing v"
    "s1 = update_pub (\<lambda>v. v\<lparr>pv_removing := True\<rparr>) p s"
    by (auto simp: unpublish_begin_def split: option.splits if_splits dest: find_pub_Some)
  have "unpublish_undo p s1 = s"
    using v by (simp add: update_pub_def unpublish_undo_def fun_upd_idem)
  moreover have "tables_ok (unpublish_free p (unpublish_unlink p s1))"
    using *(2) v by (auto simp: tables_ok_def pub_ops length_remove1)
  moreover have "held s = held (unpublish_free p (unpublish_unlink p s1)) +
      {#Heap p, Mapping (pv_mapped_shm_base v), Device (pv_name v), Channel (pv_key v)#}"
    using *(2) v sum_list_remove1[of p "pub_vdev_list s" "pub_res (pub_vdevs s)"]
    by (simp add: held_def pub_ops tables_ok_def) (simp add: pub_res_def)
  ultimately show "pub_vdevs s p = Some v \<and> pv_key v = k \<and> unpublish_undo p s1 = s \<and>
    tables_ok (unpublish_free p (unpublish_unlink p s1)) \<and>
    held s = held (unpublish_free p (unpublish_unlink p s1)) +
      {#Heap p, Mapping (pv_mapped_shm_base v), Device (pv_name v), Channel (pv_key v)#}"
    using v by simp
qed

interpretation subs: vdev_table sub_vdevs subscribe_reserve "\<lambda>s. s\<lparr>next_sub_vdev_id := next_sub_vdev_id s + 1\<rparr>"
  subscribe_fill subscribe_cancel subscribe_link unsubscribe_undo unsubscribe_unlink unsubscribe_free "\<lambda>(pid, key). unsubscribe_begin pid key"
  sv_name sv_mapped_shm_base "\<lambda>v. Subscription (sv_publisher_id v) (sv_key v)" "\<lambda>v. (sv_publisher_id v, sv_key v)"
proof
  fix s p v
  assume "tables_ok s" "sub_vdevs s p = Some v"
  then show "Heap p \<in># held s" by (rule held_sub_member)
next
  fix s i s1 p v
  assume "subscribe_reserve s = Some (i, s1)" "sub_vdevs s p = None"
  then show "subscribe_cancel p (subscribe_fill p v s1) = s\<lparr>next_sub_vdev_id := next_sub_vdev_id s + 1\<rparr>"
    by (auto simp: sub_ops fun_upd_idem split: if_splits)
next
  fix s i s1 p v
  assume *: "subscribe_reserve s = Some (i, s1)" "tables_ok s" "sub_vdevs s p = None"
  then have "p \<notin> set (sub_vdev_list s)" by (auto simp: tables_ok_def)
  moreover from *(1) have "s1 = s\<lparr>next_sub_vdev_id := next_sub_vdev_id s + 1, sub_vdev_count := sub_vdev_count s + 1\<rparr>"
    "sub_vdev_count s < MAX_VDEVS" by (auto simp: subscribe_reserve_def split: if_splits)
  ultimately show "tables_ok (subscribe_link p (subscribe_fill p v s1)) \<and>
    held (subscribe_link p (subscribe_fill p v s1)) =
      held s + {#Heap p, Mapping (sv_mapped_shm_base v), Device (sv_name v), Subscription (sv_publisher_id v) (sv_key v)#}"
    using *(2) by (simp add: tables_ok_def held_def subscribe_link_def subscribe_fill_def sub_res_def)
next
  fix k s e s1
  assume "(\<lambda>(pid, key). unsubscribe_begin pid key) k s = (Inl e, s1)"
  then show "s1 = s" by (cases k) (auto simp: sub_ops split: option.splits if_splits)
next
  fix k s p v s1
  assume *: "(\<lambda>(pid, key). unsubscribe_begin pid key) k s = (Inr (p, v), s1)" "tables_ok s"
  then have v: "p \<in> set (sub_vdev_list s)" "sub_vdevs s p = Some v" "(sv_publisher_id v, sv_key v) = k" "\<not> sv_removing v"
    "s1 = update_sub (\<lambda>v. v\<lparr>sv_removing := True\<rparr>) p s"
    by (cases k; auto simp: unsubscribe_begin_def split: option.splits if_splits dest: find_sub_Some)+
  have "unsubscribe_undo p s1 = s"
    using v by (simp add: update_sub_def unsubscribe_undo_def fun_upd_idem)
  moreover have "tables_ok (unsubscribe_free p (unsubscribe_unlink p s1))"
    using *(2) v by (auto simp: tables_ok_def sub_ops length_remove1)
  moreover have "held s = held (unsubscribe_free p (unsubscribe_unlink p s1)) +
      {#Heap p, Mapping (sv_mapped_shm_base v), Device (sv_name v), Subscription (sv_publisher_id v) (sv_key v)#}"
    using *(2) v sum_list_remove1[of p "sub_vdev_list s" "sub_res (sub_vdevs s)"]
    by (simp add: held_def sub_ops tables_ok_def) (simp add: sub_res_def)
  ultimately show "sub_vdevs s p = Some v \<and> (sv_publisher_id v, sv_key v) = k \<and> unsubscribe_undo p s1 = s \<and>
    tables_ok (unsubscribe_free p (unsubscribe_unlink p s1)) \<and>
    held s = held (unsubscribe_free p (unsubscribe_unlink p s1)) +
      {#Heap p, Mapping (sv_mapped_shm_base v), Device (sv_name v), Subscription (sv_publisher_id v) (sv_key v)#}"
    using v by simp
qed

section \<open>Publishing keeps the books\<close>

lemma publish_vdev_create:
  "publish_vdev env key shm_base shm_size m = create_vdev env publish_reserve publish_fill publish_cancel
    publish_link pv_name (\<lambda>i. \<lparr>pv_name = vdev_name IVC_PUBLISHER_DEV_NAME_PREFIX i, pv_id = i, pv_active = False,
      pv_removing = False, pv_key = key, pv_shm_base = shm_base, pv_shm_size = shm_size,
      pv_mapped_shm_base = m, pv_endpoint = axivc_endpoint_init\<rparr>) (publish_unmap_region env key m)"
  unfolding publish_vdev_def create_vdev_def Let_def axivc_publisher_vdev.select_convs by (intro ext) (rule refl)

lemma subscribe_vdev_create:
  "subscribe_vdev env pid key shm_base shm_size m = create_vdev env subscribe_reserve subscribe_fill subscribe_cancel
    subscribe_link sv_name (\<lambda>i. \<lparr>sv_name = vdev_name IVC_SUBSCRIBER_DEV_NAME_PREFIX i, sv_id = i, sv_active = False,
      sv_removing = False, sv_publisher_id = pid, sv_key = key, sv_shm_base = shm_base, sv_shm_size = shm_size,
      sv_mapped_shm_base = m, sv_endpoint = axivc_endpoint_init\<rparr>) (subscribe_unmap_subscription env pid key m)"
  unfolding subscribe_vdev_def create_vdev_def Let_def axivc_subscriber_vdev.select_convs by (intro ext) (rule refl)

text \<open>The device that a successful publication or subscription adds.\<close>

definition pub_added :: "u64 \<Rightarrow> string \<Rightarrow> ivc_state \<Rightarrow> ivc_state \<Rightarrow> bool" where
  "pub_added key path s s' \<longleftrightarrow> (\<exists>p v. pub_vdevs s p = None \<and> pv_key v = key \<and> \<not> pv_active v \<and> \<not> pv_removing v \<and>
    pv_name v = vdev_name IVC_PUBLISHER_DEV_NAME_PREFIX (next_pub_vdev_id s) \<and> path = dev_path (pv_name v) \<and>
    s' = s\<lparr>pub_vdev_list := pub_vdev_list s @ [p], pub_vdevs := (pub_vdevs s)(p \<mapsto> v),
      pub_vdev_count := pub_vdev_count s + 1, next_pub_vdev_id := next_pub_vdev_id s + 1\<rparr>)"

definition sub_added :: "u64 \<Rightarrow> u64 \<Rightarrow> string \<Rightarrow> ivc_state \<Rightarrow> ivc_state \<Rightarrow> bool" where
  "sub_added pid key path s s' \<longleftrightarrow> (\<exists>p v. sub_vdevs s p = None \<and> sv_publisher_id v = pid \<and> sv_key v = key \<and>
    \<not> sv_active v \<and> \<not> sv_removing v \<and>
    sv_name v = vdev_name IVC_SUBSCRIBER_DEV_NAME_PREFIX (next_sub_vdev_id s) \<and> path = dev_path (sv_name v) \<and>
    s' = s\<lparr>sub_vdev_list := sub_vdev_list s @ [p], sub_vdevs := (sub_vdevs s)(p \<mapsto> v),
      sub_vdev_count := sub_vdev_count s + 1, next_sub_vdev_id := next_sub_vdev_id s + 1\<rparr>)"

lemma publish_vdev_books:
  assumes led: "ledger_ok env live" and tab: "tables_ok s"
    and L: "live w = (held s + rest) + {#Mapping m, Channel key#}"
    and run: "publish_vdev env key shm_base shm_size m s w = (res, s', w')"
  shows "case res of
      Inl e \<Rightarrow> publish_failed env live key (held s + rest) w' \<and> s' = s\<lparr>next_pub_vdev_id := next_pub_vdev_id s'\<rparr>
    | Inr path \<Rightarrow> books live rest s' w' \<and> pub_added key path s s'"
proof -
  have unmap: "\<forall>e s1 w res s' w'. live w = held s + rest + {#Mapping m, Channel key#} \<longrightarrow>
      publish_unmap_region env key m e s1 w = (res, s', w') \<longrightarrow>
      res = Inl e \<and> s' = s1 \<and> publish_failed env live key (held s + rest) w'"
    using publish_unmap_ledger[OF led] by blast
  note c = pubs.create_books[where failed = "publish_failed env live key (held s + rest)",
    OF led tab L unmap _ run[unfolded publish_vdev_create]]
  show ?thesis
  proof (cases res)
    case (Inl e)
    then show ?thesis using c by auto
  next
    case (Inr path)
    with c obtain p i s1 where *: "books live rest s' w'" "pub_vdevs s p = None" "publish_reserve s = Some (i, s1)"
        "s' = publish_link p (publish_fill p \<lparr>pv_name = vdev_name IVC_PUBLISHER_DEV_NAME_PREFIX i, pv_id = i, pv_active = False,
      pv_removing = False, pv_key = key, pv_shm_base = shm_base, pv_shm_size = shm_size,
      pv_mapped_shm_base = m, pv_endpoint = axivc_endpoint_init\<rparr> s1)"
        "path = dev_path (vdev_name IVC_PUBLISHER_DEV_NAME_PREFIX i)"
      by auto
    then have "pub_added key path s s'"
      unfolding pub_added_def
      by (intro exI[of _ p] exI[of _ "\<lparr>pv_name = vdev_name IVC_PUBLISHER_DEV_NAME_PREFIX i, pv_id = i, pv_active = False,
      pv_removing = False, pv_key = key, pv_shm_base = shm_base, pv_shm_size = shm_size,
      pv_mapped_shm_base = m, pv_endpoint = axivc_endpoint_init\<rparr>"])
        (auto simp: publish_reserve_def publish_fill_def publish_link_def split: if_splits)
    then show ?thesis using * Inr by simp
  qed
qed

lemma subscribe_vdev_books:
  assumes led: "ledger_ok env live" and tab: "tables_ok s"
    and L: "live w = (held s + rest) + {#Mapping m, Subscription pid key#}"
    and run: "subscribe_vdev env pid key shm_base shm_size m s w = (res, s', w')"
  shows "case res of
      Inl e \<Rightarrow> subscribe_failed env live pid key (held s + rest) w' \<and> s' = s\<lparr>next_sub_vdev_id := next_sub_vdev_id s'\<rparr>
    | Inr path \<Rightarrow> books live rest s' w' \<and> sub_added pid key path s s'"
proof -
  have unmap: "\<forall>e s1 w res s' w'. live w = held s + rest + {#Mapping m, Subscription pid key#} \<longrightarrow>
      subscribe_unmap_subscription env pid key m e s1 w = (res, s', w') \<longrightarrow>
      res = Inl e \<and> s' = s1 \<and> subscribe_failed env live pid key (held s + rest) w'"
    using subscribe_unmap_ledger[OF led] by blast
  note c = subs.create_books[where failed = "subscribe_failed env live pid key (held s + rest)",
    OF led tab L unmap _ run[unfolded subscribe_vdev_create]]
  show ?thesis
  proof (cases res)
    case (Inl e)
    then show ?thesis using c by auto
  next
    case (Inr path)
    with c obtain p i s1 where *: "books live rest s' w'" "sub_vdevs s p = None" "subscribe_reserve s = Some (i, s1)"
        "s' = subscribe_link p (subscribe_fill p \<lparr>sv_name = vdev_name IVC_SUBSCRIBER_DEV_NAME_PREFIX i, sv_id = i, sv_active = False,
      sv_removing = False, sv_publisher_id = pid, sv_key = key, sv_shm_base = shm_base, sv_shm_size = shm_size,
      sv_mapped_shm_base = m, sv_endpoint = axivc_endpoint_init\<rparr> s1)"
        "path = dev_path (vdev_name IVC_SUBSCRIBER_DEV_NAME_PREFIX i)"
      by auto
    then have "sub_added pid key path s s'"
      unfolding sub_added_def
      by (intro exI[of _ p] exI[of _ "\<lparr>sv_name = vdev_name IVC_SUBSCRIBER_DEV_NAME_PREFIX i, sv_id = i, sv_active = False,
      sv_removing = False, sv_publisher_id = pid, sv_key = key, sv_shm_base = shm_base, sv_shm_size = shm_size,
      sv_mapped_shm_base = m, sv_endpoint = axivc_endpoint_init\<rparr>"])
        (auto simp: subscribe_reserve_def subscribe_fill_def subscribe_link_def split: if_splits)
    then show ?thesis using * Inr by simp
  qed
qed

lemma publish_books:
  assumes led: "ledger_ok env live" and bal: "books live rest s w"
    and run: "ivc_publish_channel env key shm_size s w = (res, s', w')"
  shows "case res of
      Inl e \<Rightarrow> publish_failed env live key (live w) w' \<and> s' = s\<lparr>next_pub_vdev_id := next_pub_vdev_id s'\<rparr>
    | Inr path \<Rightarrow> books live rest s' w' \<and> pub_added key path s s'"
proof -
  have tab: "tables_ok s" and lw: "live w = held s + rest" using bal by (simp_all add: books_def)
  obtain out w1 where out: "hvc_with_output env (Some shm_size) (hvc_publish_channel (k_hvc (d_kernel env)) key) w = (out, w1)"
    by fastforce
  have lw1: "live w1 = (case out of Inl e \<Rightarrow> live w | Inr _ \<Rightarrow> add_mset (Channel key) (live w))"
    by (rule hvc_with_output_ledger[OF led out ledger_hvc_calls(1)[OF led]]) simp_all
  show ?thesis
  proof (cases out)
    case (Inl e)
    then show ?thesis using run out lw1 by (auto simp: ivc_publish_channel_def publish_failed_def)
  next
    case (Inr bs)
    obtain b n where bn: "bs = (b, n)" by fastforce
    obtain mo w2 where m: "d_memremap env b n w1 = (mo, w2)" by fastforce
    note lw2 = ledger_memremap[OF led m]
    show ?thesis
    proof (cases mo)
      case None
      then have "publish_rollback_channel env key ENOMEM s w2 = (res, s', w')"
        using run out Inr bn m by (simp add: ivc_publish_channel_def)
      from publish_rollback_ledger[OF led _ this, of "live w"] show ?thesis using lw1 lw2 None Inr by simp
    next
      case (Some mp)
      obtain st g where g: "axivc_region_init_publisher (d_region env mp w2) (unat n) key = (st, g)" by fastforce
      let ?w3 = "d_set_region env mp g w2"
      have lw3: "live ?w3 = held s + rest + {#Mapping mp, Channel key#}"
        using lw1 lw2 Some Inr lw by (simp add: ledger_simps[OF led])
      show ?thesis
      proof (cases st)
        case None
        then have "publish_vdev env key b n mp s ?w3 = (res, s', w')"
          using run out Inr bn m Some g by (simp add: ivc_publish_channel_def)
        from publish_vdev_books[OF led tab lw3 this] show ?thesis unfolding lw .
      next
        case (Some e)
        then have "publish_unmap_region env key mp e s ?w3 = (res, s', w')"
          using run out Inr bn m \<open>mo = Some mp\<close> g by (simp add: ivc_publish_channel_def)
        from publish_unmap_ledger[OF led lw3 this] show ?thesis by (auto simp: lw)
      qed
    qed
  qed
qed

lemma validate_loop_result:
  assumes "validate_loop env fuel m n pid key d w = Some (st, w')"
  shows "(ledger_ok env live \<longrightarrow> live w' = live w) \<and>
    (st = OK \<longrightarrow> axivc_region_validate (d_region env m w') (unat n) pid key = OK)"
  using assms
proof (induction fuel arbitrary: w)
  case (Suc fuel)
  obtain sig w1 where sl: "k_msleep_interruptible (d_kernel env) AXIVC_POLL_INTERVAL_MS w = (sig, w1)" by fastforce
  have "ledger_ok env live \<longrightarrow> live w1 = live w"
    using ledger_simps(6)[of env live AXIVC_POLL_INTERVAL_MS w] sl by simp
  then show ?case
    using Suc.prems Suc.IH[of w1] sl
    by (auto simp: validate_loop.simps(2) Let_def split: if_splits bool.splits)
qed simp

lemma subscribe_books:
  assumes led: "ledger_ok env live" and bal: "books live rest s w"
    and run: "ivc_subscribe_channel env fuel pid key s w = Some (res, s', w')"
  shows "case res of
      Inl e \<Rightarrow> subscribe_failed env live pid key (live w) w' \<and> s' = s\<lparr>next_sub_vdev_id := next_sub_vdev_id s'\<rparr>
    | Inr path \<Rightarrow> books live rest s' w' \<and> sub_added pid key path s s' \<and>
        (\<exists>m b n wv. axivc_region_validate (d_region env m wv) (unat n) pid key = OK \<and>
          subscribe_vdev env pid key b n m s wv = (res, s', w'))"
proof -
  have tab: "tables_ok s" and lw: "live w = held s + rest" using bal by (simp_all add: books_def)
  obtain out w1 where out: "hvc_with_output env None (hvc_subscribe_channel (k_hvc (d_kernel env)) pid key) w = (out, w1)"
    by fastforce
  have lw1: "live w1 = (case out of Inl e \<Rightarrow> live w | Inr _ \<Rightarrow> add_mset (Subscription pid key) (live w))"
    by (rule hvc_with_output_ledger[OF led out ledger_hvc_calls(3)[OF led]]) simp_all
  show ?thesis
  proof (cases out)
    case (Inl e)
    then show ?thesis using run out lw1 by (auto simp: ivc_subscribe_channel_def subscribe_failed_def)
  next
    case (Inr bs)
    obtain b n where bn: "bs = (b, n)" by fastforce
    obtain mo w2 where m: "d_memremap env b n w1 = (mo, w2)" by fastforce
    note lw2 = ledger_memremap[OF led m]
    show ?thesis
    proof (cases mo)
      case None
      then have "subscribe_rollback_subscription env pid key ENOMEM s w2 = (res, s', w')"
        using run out Inr bn m by (simp add: ivc_subscribe_channel_def)
      from subscribe_rollback_ledger[OF led _ this, of "live w"] show ?thesis using lw1 lw2 None Inr by simp
    next
      case (Some mp)
      obtain st w3 where v: "validate_loop env fuel mp n pid key (k_jiffies (d_kernel env) w2 +
          k_msecs_to_jiffies (d_kernel env) AXIVC_SUBSCRIBE_WAIT_MS) w2 = Some (st, w3)"
        using run out Inr bn m Some by (auto simp: ivc_subscribe_channel_def Let_def split: option.splits)
      note vr = validate_loop_result[OF v, of live]
      have lw3: "live w3 = held s + rest + {#Mapping mp, Subscription pid key#}"
        using lw1 lw2 Some Inr lw vr led by simp
      show ?thesis
      proof (cases st)
        case None
        then have "subscribe_vdev env pid key b n mp s w3 = (res, s', w')"
          using run out Inr bn m Some v by (simp add: ivc_subscribe_channel_def Let_def)
        from subscribe_vdev_books[OF led tab lw3 this] this vr None show ?thesis
          unfolding lw by (cases res) auto
      next
        case (Some e)
        then have "subscribe_unmap_subscription env pid key mp e s w3 = (res, s', w')"
          using run out Inr bn m \<open>mo = Some mp\<close> v by (simp add: ivc_subscribe_channel_def Let_def)
        from subscribe_unmap_ledger[OF led lw3 this] show ?thesis by (auto simp: lw)
      qed
    qed
  qed
qed

lemma unpublish_remove:
  "ivc_unpublish_channel env key = remove_vdev env unpublish_begin unpublish_undo unpublish_unlink unpublish_free
    pv_name pv_mapped_shm_base (hvc_unpublish_channel (k_hvc (d_kernel env)) key) key"
  by (intro ext) (simp add: ivc_unpublish_channel_def remove_vdev_def)

lemma unsubscribe_remove:
  "ivc_unsubscribe_channel env pid key = remove_vdev env (\<lambda>(pid, key). unsubscribe_begin pid key) unsubscribe_undo
    unsubscribe_unlink unsubscribe_free sv_name sv_mapped_shm_base
    (hvc_unsubscribe_channel (k_hvc (d_kernel env)) pid key) (pid, key)"
  by (intro ext) (simp add: ivc_unsubscribe_channel_def remove_vdev_def)

lemma unpublish_books:
  assumes "ledger_ok env live" "books live rest s w" "ivc_unpublish_channel env key s w = (st, s', w')"
  shows "books live rest s' w' \<and> (case st of Some e \<Rightarrow> s' = s \<and> live w' = live w
    | None \<Rightarrow> \<exists>p v. pub_vdevs s p = Some v \<and> pv_key v = key \<and>
        live w = live w' + {#Heap p, Mapping (pv_mapped_shm_base v), Device (pv_name v), Channel key#})"
  by (rule pubs.remove_books[OF assms(1,2) _ _ assms(3)[unfolded unpublish_remove]])
    (erule ledger_hvc_calls(2)[OF assms(1)], simp)

lemma unsubscribe_books:
  assumes "ledger_ok env live" "books live rest s w" "ivc_unsubscribe_channel env pid key s w = (st, s', w')"
  shows "books live rest s' w' \<and> (case st of Some e \<Rightarrow> s' = s \<and> live w' = live w
    | None \<Rightarrow> \<exists>p v. sub_vdevs s p = Some v \<and> (sv_publisher_id v, sv_key v) = (pid, key) \<and>
        live w = live w' + {#Heap p, Mapping (sv_mapped_shm_base v), Device (sv_name v), Subscription pid key#})"
  by (rule subs.remove_books[OF assms(1,2) _ _ assms(3)[unfolded unsubscribe_remove]])
    (erule ledger_hvc_calls(4)[OF assms(1)], simp)

text \<open>Which error a removal reports: an absent channel, a device in use, or the hypervisor's refusal.\<close>

lemma unpublish_status:
  assumes "tables_ok s" "ivc_unpublish_channel env key s w = (st, s', w')"
  shows "case st of
      None \<Rightarrow> \<exists>p v. pub_vdevs s p = Some v \<and> pv_key v = key \<and> \<not> pv_active v \<and> \<not> pv_removing v \<and>
        pub_vdevs s' = (pub_vdevs s)(p := None) \<and> pub_vdev_list s' = remove1 p (pub_vdev_list s)
    | Some e \<Rightarrow>
        e = ENOENT \<and> (\<forall>p v. pub_vdevs s p = Some v \<longrightarrow> pv_key v \<noteq> key) \<or>
        e = EBUSY \<and> (\<exists>p v. pub_vdevs s p = Some v \<and> pv_key v = key \<and> (pv_active v \<or> pv_removing v)) \<or>
        e = EIO \<and> unpublish_refused env key w'"
proof -
  have dom: "dom (pub_vdevs s) = set (pub_vdev_list s)" using assms(1) by (simp add: tables_ok_def)
  show ?thesis
  proof (cases "find_pub (pub_vdevs s) key (pub_vdev_list s)")
    case None
    have "\<forall>p v. pub_vdevs s p = Some v \<longrightarrow> pv_key v \<noteq> key"
      using find_pub_None[OF None] dom by blast
    then show ?thesis using assms(2) None by (auto simp: ivc_unpublish_channel_def unpublish_begin_def)
  next
    case (Some pv)
    then obtain p v where f: "find_pub (pub_vdevs s) key (pub_vdev_list s) = Some (p, v)" by (cases pv) simp
    note v = find_pub_Some[OF f]
    obtain r w1 where r: "hvc_unpublish_channel (k_hvc (d_kernel env)) key w = (r, w1)" by fastforce
    note run = assms(2)[unfolded ivc_unpublish_channel_def unpublish_begin_def f option.case prod.case]
    consider "pv_active v \<or> pv_removing v" | "\<not> pv_active v" "\<not> pv_removing v" "int_of_hvc r \<noteq> 0"
      | "\<not> pv_active v" "\<not> pv_removing v" "int_of_hvc r = 0" by blast
    then show ?thesis
    proof cases
      case 1
      then have "st = Err EBUSY" using run by auto
      then show ?thesis using 1 v by auto
    next
      case 2
      then have "st = Err EIO" "w' = w1" using run r by auto
      then show ?thesis using 2 r by (auto simp: unpublish_refused_def)
    next
      case 3
      then have "st = OK" "pub_vdevs s' = (pub_vdevs s)(p := None)" "pub_vdev_list s' = remove1 p (pub_vdev_list s)"
        using run r by (auto simp: unpublish_free_def unpublish_unlink_def update_pub_def)
      then show ?thesis using 3 v by auto
    qed
  qed
qed

lemma unsubscribe_status:
  assumes "tables_ok s" "ivc_unsubscribe_channel env pid key s w = (st, s', w')"
  shows "case st of
      None \<Rightarrow> \<exists>p v. sub_vdevs s p = Some v \<and> sv_publisher_id v = pid \<and> sv_key v = key \<and>
        \<not> sv_active v \<and> \<not> sv_removing v \<and>
        sub_vdevs s' = (sub_vdevs s)(p := None) \<and> sub_vdev_list s' = remove1 p (sub_vdev_list s)
    | Some e \<Rightarrow>
        e = ENOENT \<and> (\<forall>p v. sub_vdevs s p = Some v \<longrightarrow> sv_publisher_id v \<noteq> pid \<or> sv_key v \<noteq> key) \<or>
        e = EBUSY \<and> (\<exists>p v. sub_vdevs s p = Some v \<and> sv_publisher_id v = pid \<and> sv_key v = key \<and>
          (sv_active v \<or> sv_removing v)) \<or>
        e = EIO \<and> unsubscribe_refused env pid key w'"
proof -
  have dom: "dom (sub_vdevs s) = set (sub_vdev_list s)" using assms(1) by (simp add: tables_ok_def)
  show ?thesis
  proof (cases "find_sub (sub_vdevs s) pid key (sub_vdev_list s)")
    case None
    have "\<forall>p v. sub_vdevs s p = Some v \<longrightarrow> sv_publisher_id v \<noteq> pid \<or> sv_key v \<noteq> key"
      using find_sub_None[OF None] dom by blast
    then show ?thesis using assms(2) None by (auto simp: ivc_unsubscribe_channel_def unsubscribe_begin_def)
  next
    case (Some pv)
    then obtain p v where f: "find_sub (sub_vdevs s) pid key (sub_vdev_list s) = Some (p, v)" by (cases pv) simp
    note v = find_sub_Some[OF f]
    obtain r w1 where r: "hvc_unsubscribe_channel (k_hvc (d_kernel env)) pid key w = (r, w1)" by fastforce
    note run = assms(2)[unfolded ivc_unsubscribe_channel_def unsubscribe_begin_def f option.case prod.case]
    consider "sv_active v \<or> sv_removing v" | "\<not> sv_active v" "\<not> sv_removing v" "int_of_hvc r \<noteq> 0"
      | "\<not> sv_active v" "\<not> sv_removing v" "int_of_hvc r = 0" by blast
    then show ?thesis
    proof cases
      case 1
      then have "st = Err EBUSY" using run by auto
      then show ?thesis using 1 v by auto
    next
      case 2
      then have "st = Err EIO" "w' = w1" using run r by auto
      then show ?thesis using 2 r by (auto simp: unsubscribe_refused_def)
    next
      case 3
      then have "st = OK" "sub_vdevs s' = (sub_vdevs s)(p := None)" "sub_vdev_list s' = remove1 p (sub_vdev_list s)"
        using run r by (auto simp: unsubscribe_free_def unsubscribe_unlink_def update_sub_def)
      then show ?thesis using 3 v by auto
    qed
  qed
qed

section \<open>Subscribing returns\<close>

definition subscribe_wait :: "'w denv \<Rightarrow> nat" where
  "subscribe_wait env = unat (k_msecs_to_jiffies (d_kernel env) AXIVC_SUBSCRIBE_WAIT_MS)"

lemma validate_loop_returns:
  assumes clock: "clock_ok (d_kernel env) time"
  shows "t0 \<le> time w \<Longrightarrow> time w < t0 + subscribe_wait env + 2 ^ 61 \<Longrightarrow>
    t0 + subscribe_wait env - time w < fuel \<Longrightarrow>
    \<exists>r. validate_loop env fuel m n pid key (of_nat t0 + of_nat (subscribe_wait env)) w = Some r"
proof (induction fuel arbitrary: w)
  case (Suc fuel)
  have T: "subscribe_wait env < 2 ^ 62" using clock by (simp add: clock_ok_def subscribe_wait_def)
  obtain sig w1 where sl: "k_msleep_interruptible (d_kernel env) AXIVC_POLL_INTERVAL_MS w = (sig, w1)" by fastforce
  have t: "\<not> sig \<Longrightarrow> ticks time w w1 \<and> time w < time w1" using clock_rules(7)[OF clock, of AXIVC_POLL_INTERVAL_MS w w1] sl by simp
  have chk: "time_after_eq (k_jiffies (d_kernel env) w) (of_nat t0 + of_nat (subscribe_wait env)) \<longleftrightarrow>
      t0 + subscribe_wait env \<le> time w"
    using clock Suc.prems T by (simp add: clock_ok_def time_after_eq_iff)
  show ?case
  proof (cases "sig \<or> t0 + subscribe_wait env \<le> time w")
    case True
    then show ?thesis using chk sl by (auto simp: validate_loop.simps(2) Let_def)
  next
    case False
    have "\<exists>r. validate_loop env fuel m n pid key (of_nat t0 + of_nat (subscribe_wait env)) w1 = Some r"
      using t False Suc.prems by (intro Suc.IH) (auto simp: ticks_def)
    then show ?thesis using chk sl False by (auto simp: validate_loop.simps(2) Let_def)
  qed
qed simp

lemma subscribe_returns:
  assumes "clock_ok (d_kernel env) time" "subscribe_wait env < fuel"
  obtains res s' w' where "ivc_subscribe_channel env fuel pid key s w = Some (res, s', w')"
proof -
  have "validate_loop env fuel m n pid key (k_jiffies (d_kernel env) w +
      k_msecs_to_jiffies (d_kernel env) AXIVC_SUBSCRIBE_WAIT_MS) w \<noteq> None" for m n w
    using validate_loop_returns[OF assms(1), of "time w" w fuel m n pid key] assms
    by (simp add: clock_ok_def subscribe_wait_def)
  then have "ivc_subscribe_channel env fuel pid key s w \<noteq> None"
    by (simp add: ivc_subscribe_channel_def Let_def split: prod.split sum.split option.split del: not_None_eq)
  then show thesis using that by (cases "ivc_subscribe_channel env fuel pid key s w") auto
qed

section \<open>A concrete environment\<close>

text \<open>
  The world is the time, the next free address and the resources held. Every mapping shows the
  same region, the hypervisor grants everything and reports 20480 bytes of shared memory.
\<close>

definition demo_kenv :: "(nat \<times> ptr \<times> resource multiset) kenv" where
  "demo_kenv = \<lparr>
    k_jiffies = (\<lambda>w. of_nat (fst w)),
    k_msecs_to_jiffies = (\<lambda>ms. of_nat (min ms 100000)),
    k_msleep = (\<lambda>ms w. (fst w + 1, snd w)),
    k_msleep_interruptible = (\<lambda>ms w. (False, fst w + 1, snd w)),
    k_mutex_lock_interruptible = (\<lambda>w. (OK, w)),
    k_copy_from_user = (\<lambda>p n w. (None, w)),
    k_copy_to_user = (\<lambda>p bs w. (False, w)),
    k_hvc = (\<lambda>regs w. (0, fst w, fst (snd w), hvc_effect regs (snd (snd w)))),
    k_peer = (\<lambda>r w. (r, w))\<rparr>"

definition demo_denv :: "axivc_region \<Rightarrow> (nat \<times> ptr \<times> resource multiset) denv" where
  "demo_denv g = \<lparr>
    d_kernel = demo_kenv,
    d_kzalloc = (\<lambda>(t, p, M). if Heap p \<in># M then (None, t, p, M) else (Some p, t, p + 16, add_mset (Heap p) M)),
    d_kfree = (\<lambda>p (t, q, M). (t, q, M - {#Heap p#})),
    d_load = (\<lambda>p w. 20480),
    d_store = (\<lambda>p v w. w),
    d_at = (\<lambda>w va. 0x40000000),
    d_par_el1 = (\<lambda>w. 0),
    d_memremap = (\<lambda>b n (t, p, M). (Some b, t, p, add_mset (Mapping b) M)),
    d_memunmap = (\<lambda>p (t, q, M). (t, q, M - {#Mapping p#})),
    d_misc_register = (\<lambda>n (t, p, M). (OK, t, p, add_mset (Device n) M)),
    d_misc_deregister = (\<lambda>n (t, p, M). (t, p, M - {#Device n#})),
    d_region = (\<lambda>p w. g),
    d_set_region = (\<lambda>p g w. w)\<rparr>"

lemma demo_ledger: "ledger_ok (demo_denv g) (\<lambda>w. snd (snd w))"
  by (simp add: ledger_ok_def demo_denv_def demo_kenv_def int_of_hvc_def split: prod.splits if_splits)

lemma demo_denv_clock: "clock_ok (d_kernel (demo_denv g)) fst" "subscribe_wait (demo_denv g) = 10000"
  by (auto simp: clock_ok_def demo_denv_def demo_kenv_def ticks_def subscribe_wait_def AXIVC_SUBSCRIBE_WAIT_MS_def
      unat_of_nat_u64 min_def)

lemma demo_kva2pa: "d_kva2pa (demo_denv g) w va \<noteq> NOT 0"
proof
  have "d_kva2pa (demo_denv g) w va = 0x40000000 OR va AND mask 12"
    by (simp add: d_kva2pa_def demo_denv_def kva2pa_def PAR_F_def PAR_MASK_def mask_numeral)
  moreover assume "d_kva2pa (demo_denv g) w va = NOT 0"
  ultimately have "0x40000000 OR va AND mask 12 = (NOT 0 :: u64)" by simp
  then have "bit (0x40000000 OR va AND mask 12 :: u64) 63 \<longleftrightarrow> bit (NOT 0 :: u64) 63" by (rule arg_cong)
  then show False by (simp add: bit_simps)
qed

lemma init_books: "books live (live w) ivc_state_init w"
  by (simp add: books_def tables_ok_def held_def ivc_state_init_def MAX_VDEVS_def)

lemma zero_names:
  "vdev_name IVC_PUBLISHER_DEV_NAME_PREFIX 0 = ''axivc_publisher_0''" "dev_path ''axivc_publisher_0'' = ''/dev/axivc_publisher_0''"
  "vdev_name IVC_SUBSCRIBER_DEV_NAME_PREFIX 0 = ''axivc_subscriber_0''" "dev_path ''axivc_subscriber_0'' = ''/dev/axivc_subscriber_0''"
  by (simp_all add: vdev_name_def dev_path_def IVC_PUBLISHER_DEV_NAME_PREFIX_def IVC_SUBSCRIBER_DEV_NAME_PREFIX_def
      format_d_def dec_digits.simps MAX_IVC_DEV_NAME_LENGTH_def char_of_def bit_0)

lemmas demo_env_fields = demo_denv_def demo_kenv_def

definition demo_pub_vdev :: axivc_publisher_vdev where
  "demo_pub_vdev = \<lparr>pv_name = ''axivc_publisher_0'', pv_id = 0, pv_active = False, pv_removing = False, pv_key = 7,
    pv_shm_base = 20480, pv_shm_size = 20480, pv_mapped_shm_base = 20480, pv_endpoint = axivc_endpoint_init\<rparr>"

definition demo_pub_state :: ivc_state where
  "demo_pub_state = ivc_state_init\<lparr>next_pub_vdev_id := 1, pub_vdev_count := 1, pub_vdevs := [0x1010 \<mapsto> demo_pub_vdev],
    pub_vdev_list := [0x1010]\<rparr>"

lemma demo_hvc_publish:
  "hvc_with_output (demo_denv g) (Some 20480) (hvc_publish_channel (k_hvc (d_kernel (demo_denv g))) 7) (0, 0x1000, {#}) =
    (Inr (20480, 20480), 0, 0x1010, {#Channel 7#})"
proof -
  show ?thesis using demo_kva2pa[of g "(0, 0x1010, {#Heap 0x1000#})"]
    by (simp add: hvc_with_output_def demo_env_fields hvc_publish_channel_def hvc_call_def int_of_hvc_def Let_def)
qed

lemma demo_publish:
  "ivc_publish_channel (demo_denv (fresh_region 1 7)) 7 20480 ivc_state_init (0, 0x1000, {#}) =
    (Inr ''/dev/axivc_publisher_0'', demo_pub_state,
      0, 0x1020, {#Heap 0x1010, Mapping 20480, Device ''axivc_publisher_0'', Channel 7#})"
proof -
  show ?thesis
    unfolding ivc_publish_channel_def demo_hvc_publish
    by (simp add: demo_env_fields publish_vdev_def publish_reserve_def publish_fill_def publish_link_def
        ivc_state_init_def MAX_VDEVS_def demo_pub_state_def demo_pub_vdev_def zero_names fresh_init Let_def)
qed

definition demo_sub_vdev :: axivc_subscriber_vdev where
  "demo_sub_vdev = \<lparr>sv_name = ''axivc_subscriber_0'', sv_id = 0, sv_active = False, sv_removing = False,
    sv_publisher_id = 1, sv_key = 7, sv_shm_base = 20480, sv_shm_size = 20480, sv_mapped_shm_base = 20480,
    sv_endpoint = axivc_endpoint_init\<rparr>"

definition demo_sub_state :: ivc_state where
  "demo_sub_state = ivc_state_init\<lparr>next_sub_vdev_id := 1, sub_vdev_count := 1, sub_vdevs := [0x1010 \<mapsto> demo_sub_vdev],
    sub_vdev_list := [0x1010]\<rparr>"

definition ready_region :: axivc_region where
  "ready_region = fold snd (axivc_region_init_stores 1 7) (fresh_region 1 7)"

lemma ready_region: "axivc_region_validate ready_region 20480 1 7 = OK"
  using init_compatible[of 1 7 "fresh_region 1 7"]
  by (simp add: validate_eq ready_region_def) (simp add: init_fields)

lemma demo_hvc_subscribe:
  "hvc_with_output (demo_denv g) None (hvc_subscribe_channel (k_hvc (d_kernel (demo_denv g))) 1 7) (0, 0x1000, {#}) =
    (Inr (20480, 20480), 0, 0x1010, {#Subscription 1 7#})"
proof -
  show ?thesis using demo_kva2pa[of g "(0, 0x1010, {#Heap 0x1000#})"]
    by (simp add: hvc_with_output_def demo_env_fields hvc_subscribe_channel_def hvc_call_def int_of_hvc_def Let_def)
qed

lemma demo_subscribe:
  "ivc_subscribe_channel (demo_denv ready_region) 20000 1 7 ivc_state_init (0, 0x1000, {#}) =
    Some (Inr ''/dev/axivc_subscriber_0'', demo_sub_state,
      0, 0x1020, {#Heap 0x1010, Mapping 20480, Device ''axivc_subscriber_0'', Subscription 1 7#})"
proof -
  have f: "20000 = Suc 19999" by simp
  have "validate_loop (demo_denv ready_region) 20000 20480 20480 1 7 d w = Some (OK, w)" for d w
    unfolding f validate_loop.simps(2) by (simp add: demo_env_fields ready_region)
  then show ?thesis
    unfolding ivc_subscribe_channel_def demo_hvc_subscribe
    by (simp add: demo_env_fields subscribe_vdev_def subscribe_reserve_def subscribe_fill_def subscribe_link_def
        ivc_state_init_def MAX_VDEVS_def demo_sub_state_def demo_sub_vdev_def zero_names Let_def)
qed

section \<open>Properties\<close>

text \<open>
  C6. Publishing leaks nothing. Whatever fails on the way (allocation, address translation,
  hypercall, mapping, region, table space, registration), a failed publication holds no
  allocation, mapping or device more than before and leaves the device tables as they were;
  the channel is back with the hypervisor unless the hypervisor itself refused to take it. A
  successful one holds exactly one new allocation, mapping, device file and channel, recorded
  in one new closed device that carries the next number, and the tables stay well-formed with
  at most 16 devices.
\<close>

theorem publish_no_leak:
  assumes "ledger_ok env live" "books live rest s w"
    and "ivc_publish_channel env channel_key expected_shm_size s w = (res, s', w')"
  shows "case res of
      Inl e \<Rightarrow> publish_failed env live channel_key (live w) w' \<and> s' = s\<lparr>next_pub_vdev_id := next_pub_vdev_id s'\<rparr>
    | Inr path \<Rightarrow> books live rest s' w' \<and> pub_added channel_key path s s'"
  by (rule publish_books[OF assms])

theorem publish_no_leak_witness:
  "books (\<lambda>w. snd (snd w)) {#} demo_pub_state (0 :: nat, 0x1020 :: ptr,
      {#Heap 0x1010, Mapping 20480, Device ''axivc_publisher_0'', Channel 7#}) \<and>
    pub_added 7 ''/dev/axivc_publisher_0'' ivc_state_init demo_pub_state"
  using publish_no_leak[OF demo_ledger _ demo_publish, of "{#}"] init_books[of "\<lambda>w. snd (snd w)" "(0 :: nat, 0x1000 :: ptr, {#})"]
  by simp

text \<open>
  C28. Unpublishing returns exactly what the device held. It succeeds only on a device that is
  neither open nor being removed; then the device's allocation, mapping, device file and
  channel are gone, and so is the device. Otherwise nothing changes at all, and the error
  tells why: ENOENT, no such channel; EBUSY, the device is open or being removed; EIO, the
  hypervisor refused.
\<close>

theorem unpublish_exact:
  assumes "ledger_ok env live" "books live rest s w" "ivc_unpublish_channel env channel_key s w = (st, s', w')"
  shows "books live rest s' w' \<and> (case st of
      None \<Rightarrow> \<exists>p v. pub_vdevs s p = Some v \<and> pv_key v = channel_key \<and> \<not> pv_active v \<and> \<not> pv_removing v \<and>
        pub_vdevs s' = (pub_vdevs s)(p := None) \<and> pub_vdev_list s' = remove1 p (pub_vdev_list s)
    | Some e \<Rightarrow> s' = s \<and> live w' = live w \<and>
        (e = ENOENT \<and> (\<forall>p v. pub_vdevs s p = Some v \<longrightarrow> pv_key v \<noteq> channel_key) \<or>
         e = EBUSY \<and> (\<exists>p v. pub_vdevs s p = Some v \<and> pv_key v = channel_key \<and> (pv_active v \<or> pv_removing v)) \<or>
         e = EIO \<and> unpublish_refused env channel_key w'))"
  using unpublish_books[OF assms] unpublish_status[OF _ assms(3)] assms(2)
  by (cases st) (auto simp: books_def)

theorem unpublish_exact_witness:
  "books (\<lambda>w. snd (snd w)) {#} demo_pub_state (0 :: nat, 0x1020 :: ptr, held demo_pub_state) \<and>
    fst (ivc_unpublish_channel (demo_denv (fresh_region 1 7)) 8 demo_pub_state (0, 0x1020, held demo_pub_state)) = Err ENOENT"
proof -
  let ?w = "(0 :: nat, 0x1020 :: ptr, held demo_pub_state)"
  have b: "books (\<lambda>w. snd (snd w)) {#} demo_pub_state ?w"
    by (simp add: books_def tables_ok_def demo_pub_state_def ivc_state_init_def MAX_VDEVS_def)
  obtain st s' w' where run: "ivc_unpublish_channel (demo_denv (fresh_region 1 7)) 8 demo_pub_state ?w = (st, s', w')"
    by (cases "ivc_unpublish_channel (demo_denv (fresh_region 1 7)) 8 demo_pub_state ?w")
  have "pub_vdevs demo_pub_state p = Some v \<Longrightarrow> pv_key v = 7" for p v
    by (auto simp: demo_pub_state_def demo_pub_vdev_def split: if_splits)
  moreover have "\<not> unpublish_refused (demo_denv (fresh_region 1 7)) 8 w'"
    by (simp add: unpublish_refused_def hvc_unpublish_channel_def hvc_call_def demo_env_fields int_of_hvc_def)
  ultimately show ?thesis
    using unpublish_exact[OF demo_ledger b run] b run by (cases st) fastforce+
qed

text \<open>
  C16. Subscribing always returns, and leaks nothing. It waits at most ten seconds for the
  publisher to initialise the region, so with the clock running the wait ends. A failed
  subscription holds nothing more than before and leaves the device tables as they were,
  except for a subscription that the hypervisor refused to take back. A successful one holds
  exactly one new allocation, mapping, device file and subscription in one new closed device,
  and the region it maps passed the validation for this publisher and key.
\<close>

theorem subscribe_no_leak:
  assumes "ledger_ok env live" "books live rest s w"
    and "clock_ok (d_kernel env) time" "subscribe_wait env < fuel"
  shows "\<exists>res s' w'. ivc_subscribe_channel env fuel publisher_id key s w = Some (res, s', w') \<and> (case res of
      Inl e \<Rightarrow> subscribe_failed env live publisher_id key (live w) w' \<and> s' = s\<lparr>next_sub_vdev_id := next_sub_vdev_id s'\<rparr>
    | Inr path \<Rightarrow> books live rest s' w' \<and> sub_added publisher_id key path s s' \<and>
        (\<exists>m b n wv. axivc_region_validate (d_region env m wv) (unat n) publisher_id key = OK \<and>
          subscribe_vdev env publisher_id key b n m s wv = (res, s', w')))"
proof -
  obtain res s' w' where run: "ivc_subscribe_channel env fuel publisher_id key s w = Some (res, s', w')"
    by (rule subscribe_returns[OF assms(3,4)])
  show ?thesis using run subscribe_books[OF assms(1,2) run] by blast
qed

theorem subscribe_no_leak_witness:
  "books (\<lambda>w. snd (snd w)) {#} demo_sub_state (0 :: nat, 0x1020 :: ptr,
      {#Heap 0x1010, Mapping 20480, Device ''axivc_subscriber_0'', Subscription 1 7#}) \<and>
    sub_added 1 7 ''/dev/axivc_subscriber_0'' ivc_state_init demo_sub_state"
  using subscribe_no_leak[OF demo_ledger _ demo_denv_clock(1), of "{#}" ivc_state_init "(0, 0x1000, {#})" ready_region 20000 1 7]
    init_books[of "\<lambda>w. snd (snd w)" "(0 :: nat, 0x1000 :: ptr, {#})"] demo_denv_clock(2)[of ready_region]
  by (simp add: demo_subscribe)

text \<open>
  Unsubscribing returns exactly what the device held, or changes nothing and tells why, as
  for unpublishing; the device is found by publisher and key together.
\<close>

theorem unsubscribe_exact:
  assumes "ledger_ok env live" "books live rest s w" "ivc_unsubscribe_channel env publisher_id key s w = (st, s', w')"
  shows "books live rest s' w' \<and> (case st of
      None \<Rightarrow> \<exists>p v. sub_vdevs s p = Some v \<and> sv_publisher_id v = publisher_id \<and> sv_key v = key \<and>
        \<not> sv_active v \<and> \<not> sv_removing v \<and>
        sub_vdevs s' = (sub_vdevs s)(p := None) \<and> sub_vdev_list s' = remove1 p (sub_vdev_list s)
    | Some e \<Rightarrow> s' = s \<and> live w' = live w \<and>
        (e = ENOENT \<and> (\<forall>p v. sub_vdevs s p = Some v \<longrightarrow> sv_publisher_id v \<noteq> publisher_id \<or> sv_key v \<noteq> key) \<or>
         e = EBUSY \<and> (\<exists>p v. sub_vdevs s p = Some v \<and> sv_publisher_id v = publisher_id \<and> sv_key v = key \<and>
           (sv_active v \<or> sv_removing v)) \<or>
         e = EIO \<and> unsubscribe_refused env publisher_id key w'))"
  using unsubscribe_books[OF assms] unsubscribe_status[OF _ assms(3)] assms(2)
  by (cases st) (auto simp: books_def)

theorem unsubscribe_exact_witness:
  "\<exists>s' w'. ivc_unsubscribe_channel (demo_denv ready_region) 1 7 demo_sub_state (0, 0x1020, held demo_sub_state) = (OK, s', w') \<and>
    books (\<lambda>w. snd (snd w)) {#} s' w' \<and> sub_vdev_list s' = []"
proof -
  let ?w = "(0 :: nat, 0x1020 :: ptr, held demo_sub_state)"
  have b: "books (\<lambda>w. snd (snd w)) {#} demo_sub_state ?w"
    by (simp add: books_def tables_ok_def demo_sub_state_def ivc_state_init_def MAX_VDEVS_def)
  obtain st s' w' where run: "ivc_unsubscribe_channel (demo_denv ready_region) 1 7 demo_sub_state ?w = (st, s', w')"
    by (cases "ivc_unsubscribe_channel (demo_denv ready_region) 1 7 demo_sub_state ?w")
  then have "st = OK" "sub_vdev_list s' = []"
    by (auto simp: ivc_unsubscribe_channel_def unsubscribe_begin_def demo_sub_state_def demo_sub_vdev_def ivc_state_init_def
        hvc_unsubscribe_channel_def hvc_call_def demo_env_fields int_of_hvc_def sub_ops split: if_splits)
  then show ?thesis using unsubscribe_exact[OF demo_ledger b run] run by auto
qed

end
