(* ===== verification/Axivc_Driver.thy ===== *)
theory Axivc_Driver
  imports Axivc_Vdev
begin

text \<open>
  The entry points of the module: the file operations of the channel devices, the management
  device with its ioctl handler, and loading and unloading the module
  (\<^verbatim>\<open>ivc/ivc.c\<close>, \<^verbatim>\<open>ivc/uapi/ioctl_args.h\<close>, \<^verbatim>\<open>ivc/main.c\<close>).
\<close>

section \<open>File operations\<close>

text \<open>
  An operation gets the address of its device from \<open>file->private_data\<close>. \<open>Freed\<close> is an access
  to a device that is not allocated, \<open>Diverged\<close> a transfer that ran out of fuel.
\<close>

datatype 'a outcome = Returned 'a | Diverged | Freed

definition axivc_publisher_open :: "ptr \<Rightarrow> ivc_state \<Rightarrow> (status \<times> ivc_state) outcome" where
  "axivc_publisher_open p s =
    (case pub_vdevs s p of
      None \<Rightarrow> Freed
    | Some vdev \<Rightarrow>
      if pv_active vdev \<or> pv_removing vdev then Returned (Err (if pv_removing vdev then ENODEV else EBUSY), s)
      else Returned (OK, update_pub (\<lambda>v. v\<lparr>pv_active := True\<rparr>) p s))"

definition axivc_publisher_release :: "ptr \<Rightarrow> ivc_state \<Rightarrow> (status \<times> ivc_state) outcome" where
  "axivc_publisher_release p s =
    (case pub_vdevs s p of
      None \<Rightarrow> Freed
    | Some vdev \<Rightarrow> Returned (OK, update_pub (\<lambda>v. v\<lparr>pv_active := False\<rparr>) p s))"

definition axivc_subscriber_open :: "ptr \<Rightarrow> ivc_state \<Rightarrow> (status \<times> ivc_state) outcome" where
  "axivc_subscriber_open p s =
    (case sub_vdevs s p of
      None \<Rightarrow> Freed
    | Some vdev \<Rightarrow>
      if sv_active vdev \<or> sv_removing vdev then Returned (Err (if sv_removing vdev then ENODEV else EBUSY), s)
      else Returned (OK, update_sub (\<lambda>v. v\<lparr>sv_active := True\<rparr>) p s))"

definition axivc_subscriber_release :: "ptr \<Rightarrow> ivc_state \<Rightarrow> (status \<times> ivc_state) outcome" where
  "axivc_subscriber_release p s =
    (case sub_vdevs s p of
      None \<Rightarrow> Freed
    | Some vdev \<Rightarrow> Returned (OK, update_sub (\<lambda>v. v\<lparr>sv_active := False\<rparr>) p s))"

text \<open>
  The endpoint of a publisher sends on the ring to the subscriber and receives on the other
  one; a subscriber the other way round, and it notifies the publisher.
\<close>

definition axivc_publisher_write ::
  "'w denv \<Rightarrow> nat \<Rightarrow> ptr \<Rightarrow> nat \<Rightarrow> nat \<Rightarrow> ivc_state \<Rightarrow> 'w \<Rightarrow> ((errno + nat) \<times> ivc_state \<times> 'w) outcome" where
  "axivc_publisher_write env fuel p buf count s w =
    (case pub_vdevs s p of
      None \<Rightarrow> Freed
    | Some vdev \<Rightarrow>
      if \<not> pv_active vdev then Returned (Inl ENODEV, s, w)
      else let base = pv_mapped_shm_base vdev in
        (case axivc_send_message (d_kernel env) fuel \<lparr>n_enabled = False, n_publisher_id = 0, n_key = pv_key vdev\<rparr>
            buf count (pv_endpoint vdev) (g_publisher_to_subscriber (d_region env base w)) w of
          None \<Rightarrow> Diverged
        | Some (res, endpoint, ring, w) \<Rightarrow>
          Returned (res, update_pub (\<lambda>v. v\<lparr>pv_endpoint := endpoint\<rparr>) p s,
            d_set_region env base ((d_region env base w)\<lparr>g_publisher_to_subscriber := ring\<rparr>) w)))"

definition axivc_publisher_read ::
  "'w denv \<Rightarrow> nat \<Rightarrow> ptr \<Rightarrow> nat \<Rightarrow> nat \<Rightarrow> ivc_state \<Rightarrow> 'w \<Rightarrow> ((errno + nat) \<times> ivc_state \<times> 'w) outcome" where
  "axivc_publisher_read env fuel p buf count s w =
    (case pub_vdevs s p of
      None \<Rightarrow> Freed
    | Some vdev \<Rightarrow>
      if \<not> pv_active vdev then Returned (Inl ENODEV, s, w)
      else let base = pv_mapped_shm_base vdev in
        (case axivc_recv_message (d_kernel env) fuel \<lparr>n_enabled = False, n_publisher_id = 0, n_key = pv_key vdev\<rparr>
            buf count (pv_endpoint vdev) (g_subscriber_to_publisher (d_region env base w)) w of
          None \<Rightarrow> Diverged
        | Some (res, endpoint, ring, w) \<Rightarrow>
          Returned (res, update_pub (\<lambda>v. v\<lparr>pv_endpoint := endpoint\<rparr>) p s,
            d_set_region env base ((d_region env base w)\<lparr>g_subscriber_to_publisher := ring\<rparr>) w)))"

definition axivc_subscriber_write ::
  "'w denv \<Rightarrow> nat \<Rightarrow> ptr \<Rightarrow> nat \<Rightarrow> nat \<Rightarrow> ivc_state \<Rightarrow> 'w \<Rightarrow> ((errno + nat) \<times> ivc_state \<times> 'w) outcome" where
  "axivc_subscriber_write env fuel p buf count s w =
    (case sub_vdevs s p of
      None \<Rightarrow> Freed
    | Some vdev \<Rightarrow>
      if \<not> sv_active vdev then Returned (Inl ENODEV, s, w)
      else let base = sv_mapped_shm_base vdev in
        (case axivc_send_message (d_kernel env) fuel
            \<lparr>n_enabled = True, n_publisher_id = sv_publisher_id vdev, n_key = sv_key vdev\<rparr>
            buf count (sv_endpoint vdev) (g_subscriber_to_publisher (d_region env base w)) w of
          None \<Rightarrow> Diverged
        | Some (res, endpoint, ring, w) \<Rightarrow>
          Returned (res, update_sub (\<lambda>v. v\<lparr>sv_endpoint := endpoint\<rparr>) p s,
            d_set_region env base ((d_region env base w)\<lparr>g_subscriber_to_publisher := ring\<rparr>) w)))"

definition axivc_subscriber_read ::
  "'w denv \<Rightarrow> nat \<Rightarrow> ptr \<Rightarrow> nat \<Rightarrow> nat \<Rightarrow> ivc_state \<Rightarrow> 'w \<Rightarrow> ((errno + nat) \<times> ivc_state \<times> 'w) outcome" where
  "axivc_subscriber_read env fuel p buf count s w =
    (case sub_vdevs s p of
      None \<Rightarrow> Freed
    | Some vdev \<Rightarrow>
      if \<not> sv_active vdev then Returned (Inl ENODEV, s, w)
      else let base = sv_mapped_shm_base vdev in
        (case axivc_recv_message (d_kernel env) fuel
            \<lparr>n_enabled = True, n_publisher_id = sv_publisher_id vdev, n_key = sv_key vdev\<rparr>
            buf count (sv_endpoint vdev) (g_publisher_to_subscriber (d_region env base w)) w of
          None \<Rightarrow> Diverged
        | Some (res, endpoint, ring, w) \<Rightarrow>
          Returned (res, update_sub (\<lambda>v. v\<lparr>sv_endpoint := endpoint\<rparr>) p s,
            d_set_region env base ((d_region env base w)\<lparr>g_publisher_to_subscriber := ring\<rparr>) w)))"

section \<open>The management device\<close>

record ivc_publish_arg =
  pa_channel_key :: u64
  pa_channel_size :: u64
  pa_device_name :: string

record ivc_subscribe_arg =
  sa_target_publisher_id :: u64
  sa_channel_key :: u64
  sa_device_name :: string

text \<open>The kernel's \<open>_IOW\<close>: direction 1, then the size, the type and the number of the command.\<close>

definition iow :: "u32 \<Rightarrow> u32 \<Rightarrow> u32 \<Rightarrow> u32" where
  "iow ty nr sz = push_bit 30 1 OR push_bit 16 sz OR push_bit 8 ty OR nr"

definition sizeof_ivc_publish_arg :: u32 where
  "sizeof_ivc_publish_arg = of_nat (fst (c_struct 1 [u64_field, u64_field, (MAX_IVC_DEV_NAME_LENGTH, 1)]))"
definition sizeof_ivc_subscribe_arg :: u32 where
  "sizeof_ivc_subscribe_arg = of_nat (fst (c_struct 1 [u64_field, u64_field, (MAX_IVC_DEV_NAME_LENGTH, 1)]))"

definition IVC_PUBLISH_CHANNEL :: u32 where "IVC_PUBLISH_CHANNEL = iow 0 0 sizeof_ivc_publish_arg"
definition IVC_UNPUBLISH_CHANNEL :: u32 where "IVC_UNPUBLISH_CHANNEL = iow 0 1 sizeof_ivc_publish_arg"
definition IVC_SUBSCRIBE_CHANNEL :: u32 where "IVC_SUBSCRIBE_CHANNEL = iow 0 2 sizeof_ivc_subscribe_arg"
definition IVC_UNSUBSCRIBE_CHANNEL :: u32 where "IVC_UNSUBSCRIBE_CHANNEL = iow 0 3 sizeof_ivc_subscribe_arg"

definition IVC_DEV_NAME :: string where "IVC_DEV_NAME = ''axivc''"

text \<open>
  Copying the argument structures from and to user space, None or True being a fault, and the
  registration of the PCI driver, come with the environment.
\<close>

record 'w menv =
  m_drv :: "'w denv"
  m_get_publish :: "u64 \<Rightarrow> 'w \<Rightarrow> ivc_publish_arg option \<times> 'w"
  m_put_publish :: "u64 \<Rightarrow> ivc_publish_arg \<Rightarrow> 'w \<Rightarrow> bool \<times> 'w"
  m_get_subscribe :: "u64 \<Rightarrow> 'w \<Rightarrow> ivc_subscribe_arg option \<times> 'w"
  m_put_subscribe :: "u64 \<Rightarrow> ivc_subscribe_arg \<Rightarrow> 'w \<Rightarrow> bool \<times> 'w"
  m_pci_register_driver :: "'w \<Rightarrow> status \<times> 'w"
  m_pci_unregister_driver :: "'w \<Rightarrow> 'w"

definition axivc_manager_ioctl ::
  "'w menv \<Rightarrow> nat \<Rightarrow> u32 \<Rightarrow> u64 \<Rightarrow> ivc_state \<Rightarrow> 'w \<Rightarrow> (status \<times> ivc_state \<times> 'w) option" where
  "axivc_manager_ioctl env fuel cmd arg s w =
    (if cmd = IVC_PUBLISH_CHANNEL then
       (case m_get_publish env arg w of
         (None, w) \<Rightarrow> Some (Err EFAULT, s, w)
       | (Some a, w) \<Rightarrow>
         (case ivc_publish_channel (m_drv env) (pa_channel_key a) (pa_channel_size a) s w of
           (Inl err, s, w) \<Rightarrow> Some (Err err, s, w)
         | (Inr name, s, w) \<Rightarrow>
           (case m_put_publish env arg (a\<lparr>pa_device_name := name\<rparr>) w of
             (False, w) \<Rightarrow> Some (OK, s, w)
           | (True, w) \<Rightarrow>
             (case ivc_unpublish_channel (m_drv env) (pa_channel_key a) s w of
               (ignored, s, w) \<Rightarrow> Some (Err EFAULT, s, w)))))
     else if cmd = IVC_UNPUBLISH_CHANNEL then
       (case m_get_publish env arg w of
         (None, w) \<Rightarrow> Some (Err EFAULT, s, w)
       | (Some a, w) \<Rightarrow> Some (ivc_unpublish_channel (m_drv env) (pa_channel_key a) s w))
     else if cmd = IVC_SUBSCRIBE_CHANNEL then
       (case m_get_subscribe env arg w of
         (None, w) \<Rightarrow> Some (Err EFAULT, s, w)
       | (Some a, w) \<Rightarrow>
         (case ivc_subscribe_channel (m_drv env) fuel (sa_target_publisher_id a) (sa_channel_key a) s w of
           None \<Rightarrow> None
         | Some (Inl err, s, w) \<Rightarrow> Some (Err err, s, w)
         | Some (Inr name, s, w) \<Rightarrow>
           (case m_put_subscribe env arg (a\<lparr>sa_device_name := name\<rparr>) w of
             (False, w) \<Rightarrow> Some (OK, s, w)
           | (True, w) \<Rightarrow>
             (case ivc_unsubscribe_channel (m_drv env) (sa_target_publisher_id a) (sa_channel_key a) s w of
               (ignored, s, w) \<Rightarrow> Some (Err EFAULT, s, w)))))
     else if cmd = IVC_UNSUBSCRIBE_CHANNEL then
       (case m_get_subscribe env arg w of
         (None, w) \<Rightarrow> Some (Err EFAULT, s, w)
       | (Some a, w) \<Rightarrow>
         Some (ivc_unsubscribe_channel (m_drv env) (sa_target_publisher_id a) (sa_channel_key a) s w))
     else Some (Err EINVAL, s, w))"

definition axivc_manager_open :: "ivc_state \<Rightarrow> status \<times> ivc_state" where
  "axivc_manager_open s = (OK, s)"

definition axivc_manager_release :: "ivc_state \<Rightarrow> status \<times> ivc_state" where
  "axivc_manager_release s = (OK, s)"

section \<open>Loading and unloading\<close>

definition init_ivc_devices :: "'w denv \<Rightarrow> 'w \<Rightarrow> status \<times> 'w" where
  "init_ivc_devices env w = d_misc_register env IVC_DEV_NAME w"

text \<open>The two loops of \<open>uninit_ivc_devices\<close>; the results of the hypercalls are ignored.\<close>

fun uninit_pubs :: "'w denv \<Rightarrow> ptr list \<Rightarrow> ivc_state \<Rightarrow> 'w \<Rightarrow> ivc_state \<times> 'w" where
  "uninit_pubs env [] s w = (s, w)"
| "uninit_pubs env (p # ps) s w =
    (case pub_vdevs s p of
      None \<Rightarrow> (s, w)
    | Some v \<Rightarrow>
      let w = snd (hvc_unpublish_channel (k_hvc (d_kernel env)) (pv_key v) w);
          w = d_misc_deregister env (pv_name v) w;
          s = s\<lparr>pub_vdev_list := remove1 p (pub_vdev_list s)\<rparr>;
          w = d_memunmap env (pv_mapped_shm_base v) w;
          w = d_kfree env p w
      in uninit_pubs env ps (unpublish_free p s) w)"

fun uninit_subs :: "'w denv \<Rightarrow> ptr list \<Rightarrow> ivc_state \<Rightarrow> 'w \<Rightarrow> ivc_state \<times> 'w" where
  "uninit_subs env [] s w = (s, w)"
| "uninit_subs env (p # ps) s w =
    (case sub_vdevs s p of
      None \<Rightarrow> (s, w)
    | Some v \<Rightarrow>
      let w = snd (hvc_unsubscribe_channel (k_hvc (d_kernel env)) (sv_publisher_id v) (sv_key v) w);
          w = d_misc_deregister env (sv_name v) w;
          s = s\<lparr>sub_vdev_list := remove1 p (sub_vdev_list s)\<rparr>;
          w = d_memunmap env (sv_mapped_shm_base v) w;
          w = d_kfree env p w
      in uninit_subs env ps (unsubscribe_free p s) w)"

definition uninit_ivc_devices :: "'w denv \<Rightarrow> ivc_state \<Rightarrow> 'w \<Rightarrow> ivc_state \<times> 'w" where
  "uninit_ivc_devices env s w =
    (let (s, w) = uninit_pubs env (pub_vdev_list s) s w;
         (s, w) = uninit_subs env (sub_vdev_list s) s w
     in (s, d_misc_deregister env IVC_DEV_NAME w))"

definition axvisor_ivshmem_register :: "'w menv \<Rightarrow> 'w \<Rightarrow> status \<times> 'w" where
  "axvisor_ivshmem_register env w = m_pci_register_driver env w"

definition axvisor_ivshmem_unregister :: "'w menv \<Rightarrow> 'w \<Rightarrow> 'w" where
  "axvisor_ivshmem_unregister env w = m_pci_unregister_driver env w"

definition axvisor_init :: "'w menv \<Rightarrow> ivc_state \<Rightarrow> 'w \<Rightarrow> status \<times> ivc_state \<times> 'w" where
  "axvisor_init env s w =
    (case init_ivc_devices (m_drv env) w of
      (Some ret, w) \<Rightarrow> (Err ret, s, w)
    | (None, w) \<Rightarrow>
      (case axvisor_ivshmem_register env w of
        (Some ret, w) \<Rightarrow> (case uninit_ivc_devices (m_drv env) s w of (s, w) \<Rightarrow> (Err ret, s, w))
      | (None, w) \<Rightarrow> (OK, s, w)))"

definition axvisor_exit :: "'w menv \<Rightarrow> ivc_state \<Rightarrow> 'w \<Rightarrow> ivc_state \<times> 'w" where
  "axvisor_exit env s w = uninit_ivc_devices (m_drv env) s (axvisor_ivshmem_unregister env w)"

end
