(* ===== verification/Axivc_Module.thy ===== *)
theory Axivc_Module
  imports Axivc_Driver Axivc_Books
begin

text \<open>
  The module as a whole against the ledger of resources: an ioctl either does its work or
  leaves the devices as they were, unloading gives back everything, and loading is undone
  when a part of it fails.
\<close>

section \<open>The environment of the module\<close>

definition module_ledger :: "'w menv \<Rightarrow> ('w \<Rightarrow> resource multiset) \<Rightarrow> bool" where
  "module_ledger env live \<longleftrightarrow> ledger_ok (m_drv env) live \<and>
    (\<forall>a w. live (snd (m_get_publish env a w)) = live w) \<and>
    (\<forall>a x w. live (snd (m_put_publish env a x w)) = live w) \<and>
    (\<forall>a w. live (snd (m_get_subscribe env a w)) = live w) \<and>
    (\<forall>a x w. live (snd (m_put_subscribe env a x w)) = live w) \<and>
    (\<forall>w e w'. m_pci_register_driver env w = (Err e, w') \<longrightarrow> live w' = live w) \<and>
    (\<forall>w w'. m_pci_register_driver env w = (OK, w') \<longrightarrow> live w' = add_mset Pci_Driver (live w)) \<and>
    (\<forall>w. Pci_Driver \<in># live w \<longrightarrow> live (m_pci_unregister_driver env w) = live w - {#Pci_Driver#})"


lemma module_rules:
  assumes "module_ledger env live"
  shows "ledger_ok (m_drv env) live"
    "m_get_publish env a w = (x, w') \<Longrightarrow> live w' = live w"
    "m_put_publish env a y w = (f, w') \<Longrightarrow> live w' = live w"
    "m_get_subscribe env a w = (z, w') \<Longrightarrow> live w' = live w"
    "m_put_subscribe env a u w = (f, w') \<Longrightarrow> live w' = live w"
    "m_pci_register_driver env w = (st, w') \<Longrightarrow>
      live w' = (case st of None \<Rightarrow> add_mset Pci_Driver (live w) | Some e \<Rightarrow> live w)"
    "Pci_Driver \<in># live w \<Longrightarrow> live (m_pci_unregister_driver env w) = live w - {#Pci_Driver#}"
  using assms unfolding module_ledger_def
  by (blast, metis snd_conv, metis snd_conv, metis snd_conv, metis snd_conv, cases st, simp, simp, blast)





section \<open>Undoing a publication that cannot be reported\<close>









section \<open>The ioctl handler\<close>



















section \<open>Unloading\<close>

fun hypervisor_resource :: "resource \<Rightarrow> bool" where
  "hypervisor_resource (Channel k) = True"
| "hypervisor_resource (Subscription p k) = True"
| "hypervisor_resource _ = False"

text \<open>What the hypervisor refused to take back: nothing if it honours every request.\<close>

definition honours :: "'w denv \<Rightarrow> bool" where
  "honours env \<longleftrightarrow>
    (\<forall>key w. int_of_hvc (fst (hvc_unpublish_channel (k_hvc (d_kernel env)) key w)) = 0) \<and>
    (\<forall>pid key w. int_of_hvc (fst (hvc_unsubscribe_channel (k_hvc (d_kernel env)) pid key w)) = 0)"

definition left_over :: "'w denv \<Rightarrow> resource multiset \<Rightarrow> bool" where
  "left_over env K \<longleftrightarrow> (\<forall>x \<in># K. hypervisor_resource x) \<and> (honours env \<longrightarrow> K = {#})"

lemma left_over_add: "left_over env K \<Longrightarrow> left_over env K' \<Longrightarrow> left_over env (K + K')"
  by (auto simp: left_over_def)

lemma unpublish_left_over:
  assumes "ledger_ok env live" "live w = add_mset (Channel key) M"
    and "w' = snd (hvc_unpublish_channel (k_hvc (d_kernel env)) key w)"
  obtains K where "live w' = M + K" "left_over env K"
proof -
  obtain r where r: "hvc_unpublish_channel (k_hvc (d_kernel env)) key w = (r, w')"
    using assms(3) by (cases "hvc_unpublish_channel (k_hvc (d_kernel env)) key w") simp
  show thesis
  proof (cases "int_of_hvc r = 0")
    case True
    then show thesis using that[of "{#}"] ledger_hvc_calls(2)[OF assms(1) r] assms(2) by (simp add: left_over_def)
  next
    case False
    then have "\<not> honours env" using r unfolding honours_def by (metis fst_conv)
    then show thesis using that[of "{#Channel key#}"] ledger_hvc_calls(2)[OF assms(1) r] assms(2) False
      by (simp add: left_over_def)
  qed
qed

lemma unsubscribe_left_over:
  assumes "ledger_ok env live" "live w = add_mset (Subscription pid key) M"
    and "w' = snd (hvc_unsubscribe_channel (k_hvc (d_kernel env)) pid key w)"
  obtains K where "live w' = M + K" "left_over env K"
proof -
  obtain r where r: "hvc_unsubscribe_channel (k_hvc (d_kernel env)) pid key w = (r, w')"
    using assms(3) by (cases "hvc_unsubscribe_channel (k_hvc (d_kernel env)) pid key w") simp
  show thesis
  proof (cases "int_of_hvc r = 0")
    case True
    then show thesis using that[of "{#}"] ledger_hvc_calls(4)[OF assms(1) r] assms(2) by (simp add: left_over_def)
  next
    case False
    then have "\<not> honours env" using r unfolding honours_def by (metis fst_conv)
    then show thesis using that[of "{#Subscription pid key#}"] ledger_hvc_calls(4)[OF assms(1) r] assms(2) False
      by (simp add: left_over_def)
  qed
qed

lemma uninit_pubs_ledger:
  assumes "ledger_ok env live"
  shows "distinct ps \<Longrightarrow> pub_vdev_list s = ps \<Longrightarrow> dom (pub_vdevs s) = set ps \<Longrightarrow>
    live w = sum_list (map (pub_res (pub_vdevs s)) ps) + M \<Longrightarrow> uninit_pubs env ps s w = (s', w') \<Longrightarrow>
    (\<exists>K. live w' = M + K \<and> left_over env K) \<and> pub_vdev_list s' = [] \<and> pub_vdevs s' = Map.empty \<and>
    sub_vdev_list s' = sub_vdev_list s \<and> sub_vdevs s' = sub_vdevs s"
proof (induction ps arbitrary: s w M)
  case Nil
  then show ?case by (auto simp: left_over_def)
next
  case (Cons p ps)
  from Cons.prems(3) obtain v where v: "pub_vdevs s p = Some v" by auto
  let ?S = "sum_list (map (pub_res (pub_vdevs s)) ps)"
  have r: "pub_res (pub_vdevs s) p = {#Heap p, Mapping (pv_mapped_shm_base v), Device (pv_name v), Channel (pv_key v)#}"
    using v by (simp add: pub_res_def)
  define w1 where "w1 = snd (hvc_unpublish_channel (k_hvc (d_kernel env)) (pv_key v) w)"
  define w2 where "w2 = d_kfree env p (d_memunmap env (pv_mapped_shm_base v) (d_misc_deregister env (pv_name v) w1))"
  define s1 where "s1 = unpublish_free p (s\<lparr>pub_vdev_list := remove1 p (pub_vdev_list s)\<rparr>)"
  have "live w = add_mset (Channel (pv_key v)) ({#Heap p, Mapping (pv_mapped_shm_base v), Device (pv_name v)#} + ?S + M)"
    using Cons.prems(4) r by simp
  then obtain K where K: "live w1 = {#Heap p, Mapping (pv_mapped_shm_base v), Device (pv_name v)#} + ?S + M + K" "left_over env K"
    using unpublish_left_over[OF assms _ w1_def] by metis
  have p: "p \<notin> set ps" using Cons.prems(1) by simp
  have lw2: "live w2 = sum_list (map (pub_res (pub_vdevs s1)) ps) + (M + K)"
    using K(1) p by (simp add: w2_def s1_def unpublish_free_def ledger_simps[OF assms])
  have s1: "pub_vdev_list s1 = ps" "dom (pub_vdevs s1) = set ps"
    using Cons.prems(2,3) p by (auto simp: s1_def unpublish_free_def)
  have run: "uninit_pubs env ps s1 w2 = (s', w')"
    using Cons.prems(5) by (simp add: v w1_def[symmetric] w2_def[symmetric] s1_def Let_def)
  have sub: "sub_vdev_list s1 = sub_vdev_list s" "sub_vdevs s1 = sub_vdevs s" by (simp_all add: s1_def unpublish_free_def)
  show ?case
    using Cons.IH[OF _ s1 lw2 run] Cons.prems(1) K(2) sub by (auto simp: add.assoc intro: left_over_add)
qed

lemma uninit_subs_ledger:
  assumes "ledger_ok env live"
  shows "distinct ps \<Longrightarrow> sub_vdev_list s = ps \<Longrightarrow> dom (sub_vdevs s) = set ps \<Longrightarrow>
    live w = sum_list (map (sub_res (sub_vdevs s)) ps) + M \<Longrightarrow> uninit_subs env ps s w = (s', w') \<Longrightarrow>
    (\<exists>K. live w' = M + K \<and> left_over env K) \<and> sub_vdev_list s' = [] \<and> sub_vdevs s' = Map.empty \<and>
    pub_vdev_list s' = pub_vdev_list s \<and> pub_vdevs s' = pub_vdevs s"
proof (induction ps arbitrary: s w M)
  case Nil
  then show ?case by (auto simp: left_over_def)
next
  case (Cons p ps)
  from Cons.prems(3) obtain v where v: "sub_vdevs s p = Some v" by auto
  let ?S = "sum_list (map (sub_res (sub_vdevs s)) ps)"
  have r: "sub_res (sub_vdevs s) p = {#Heap p, Mapping (sv_mapped_shm_base v), Device (sv_name v), Subscription (sv_publisher_id v) (sv_key v)#}"
    using v by (simp add: sub_res_def)
  define w1 where "w1 = snd (hvc_unsubscribe_channel (k_hvc (d_kernel env)) (sv_publisher_id v) (sv_key v) w)"
  define w2 where "w2 = d_kfree env p (d_memunmap env (sv_mapped_shm_base v) (d_misc_deregister env (sv_name v) w1))"
  define s1 where "s1 = unsubscribe_free p (s\<lparr>sub_vdev_list := remove1 p (sub_vdev_list s)\<rparr>)"
  have "live w = add_mset (Subscription (sv_publisher_id v) (sv_key v))
      ({#Heap p, Mapping (sv_mapped_shm_base v), Device (sv_name v)#} + ?S + M)"
    using Cons.prems(4) r by simp
  then obtain K where K: "live w1 = {#Heap p, Mapping (sv_mapped_shm_base v), Device (sv_name v)#} + ?S + M + K" "left_over env K"
    using unsubscribe_left_over[OF assms _ w1_def] by metis
  have p: "p \<notin> set ps" using Cons.prems(1) by simp
  have lw2: "live w2 = sum_list (map (sub_res (sub_vdevs s1)) ps) + (M + K)"
    using K(1) p by (simp add: w2_def s1_def unsubscribe_free_def ledger_simps[OF assms])
  have s1: "sub_vdev_list s1 = ps" "dom (sub_vdevs s1) = set ps"
    using Cons.prems(2,3) p by (auto simp: s1_def unsubscribe_free_def)
  have run: "uninit_subs env ps s1 w2 = (s', w')"
    using Cons.prems(5) by (simp add: v w1_def[symmetric] w2_def[symmetric] s1_def Let_def)
  have pub: "pub_vdev_list s1 = pub_vdev_list s" "pub_vdevs s1 = pub_vdevs s" by (simp_all add: s1_def unsubscribe_free_def)
  show ?case
    using Cons.IH[OF _ s1 lw2 run] Cons.prems(1) K(2) pub by (auto simp: add.assoc intro: left_over_add)
qed

lemma uninit_ledger:
  assumes led: "ledger_ok env live" and bal: "books live (add_mset (Device IVC_DEV_NAME) rest) s w"
    and run: "uninit_ivc_devices env s w = (s', w')"
  shows "(\<exists>K. live w' = rest + K \<and> left_over env K) \<and> pub_vdev_list s' = [] \<and> pub_vdevs s' = Map.empty \<and>
    sub_vdev_list s' = [] \<and> sub_vdevs s' = Map.empty"
proof -
  have tab: "tables_ok s" using bal by (simp add: books_def)
  obtain s1 w1 where p: "uninit_pubs env (pub_vdev_list s) s w = (s1, w1)" by fastforce
  obtain s2 w2 where q: "uninit_subs env (sub_vdev_list s1) s1 w1 = (s2, w2)" by fastforce
  have out: "s' = s2" "w' = d_misc_deregister env IVC_DEV_NAME w2" using run p q by (simp_all add: uninit_ivc_devices_def)
  let ?S = "sum_list (map (sub_res (sub_vdevs s)) (sub_vdev_list s)) + add_mset (Device IVC_DEV_NAME) rest"
  have "live w = sum_list (map (pub_res (pub_vdevs s)) (pub_vdev_list s)) + ?S"
    using bal by (simp add: books_def held_def)
  from uninit_pubs_ledger[OF led _ refl _ this p] tab obtain K1 where
    K1: "live w1 = ?S + K1" "left_over env K1" "pub_vdev_list s1 = []" "pub_vdevs s1 = Map.empty"
      "sub_vdev_list s1 = sub_vdev_list s" "sub_vdevs s1 = sub_vdevs s"
    by (auto simp: tables_ok_def)
  have "live w1 = sum_list (map (sub_res (sub_vdevs s1)) (sub_vdev_list s1)) + (add_mset (Device IVC_DEV_NAME) rest + K1)"
    using K1(1,5,6) by simp
  from uninit_subs_ledger[OF led _ refl _ this q] tab K1(3-6) obtain K2 where
    K2: "live w2 = add_mset (Device IVC_DEV_NAME) rest + K1 + K2" "left_over env K2" "sub_vdev_list s2 = []"
      "sub_vdevs s2 = Map.empty" "pub_vdev_list s2 = []" "pub_vdevs s2 = Map.empty"
    by (auto simp: tables_ok_def)
  have "live w' = rest + (K1 + K2)" using K2(1) by (simp add: out ledger_simps[OF led])
  then show ?thesis using K2 left_over_add[OF K1(2) K2(2)] out(1) by auto
qed

section \<open>A concrete environment\<close>

text \<open>
  The devices' environment of \<open>demo_denv\<close> with a hypervisor that grants each key once. The
  argument of every publication is key 7; copying a result to the user faults at address 0.
\<close>

definition strict_hvc :: "(nat \<times> ptr \<times> resource multiset) hvc_trap" where
  "strict_hvc regs = (\<lambda>(t, p, M).
    if regs \<noteq> [] \<and> hd regs = 3 \<and> Channel (regs ! 1) \<in># M \<or>
      regs \<noteq> [] \<and> hd regs = 4 \<and> Subscription (regs ! 1) (regs ! 2) \<in># M
    then (1, t, p, M) else (0, t, p, hvc_effect regs M))"

definition demo_menv :: "(nat \<times> ptr \<times> resource multiset) menv" where
  "demo_menv = \<lparr>
    m_drv = (demo_denv (fresh_region 1 7))\<lparr>d_kernel := demo_kenv\<lparr>k_hvc := strict_hvc\<rparr>\<rparr>,
    m_get_publish = (\<lambda>a w. (Some \<lparr>pa_channel_key = 7, pa_channel_size = 20480, pa_device_name = []\<rparr>, w)),
    m_put_publish = (\<lambda>a x w. (a = 0, w)),
    m_get_subscribe = (\<lambda>a w. (None, w)),
    m_put_subscribe = (\<lambda>a x w. (True, w)),
    m_pci_register_driver = (\<lambda>(t, p, M). (OK, t, p, add_mset Pci_Driver M)),
    m_pci_unregister_driver = (\<lambda>(t, p, M). (t, p, M - {#Pci_Driver#}))\<rparr>"

lemma demo_module_ledger: "module_ledger demo_menv (\<lambda>w. snd (snd w))"
  by (simp add: module_ledger_def demo_menv_def ledger_ok_def demo_denv_def demo_kenv_def strict_hvc_def int_of_hvc_def
      split: prod.splits if_splits)



section \<open>Properties\<close>




text \<open>
  C17. Unloading the module gives back everything. Whatever channels are published and
  subscribed, after \<open>axvisor_exit\<close> no device is left in the tables, and of all that the module
  held (allocations, mappings, device files, the management device, the PCI driver, channels
  and subscriptions) nothing is left but what the hypervisor refused to take back; if it
  honours the requests, nothing at all.
\<close>

theorem unload_releases_everything:
  assumes "module_ledger env live" "books live ({#Device IVC_DEV_NAME, Pci_Driver#} + rest) s w"
    and "axvisor_exit env s w = (s', w')"
  shows "(\<exists>K. live w' = rest + K \<and> (\<forall>x \<in># K. hypervisor_resource x) \<and> (honours (m_drv env) \<longrightarrow> K = {#})) \<and>
    pub_vdev_list s' = [] \<and> pub_vdevs s' = Map.empty \<and> sub_vdev_list s' = [] \<and> sub_vdevs s' = Map.empty"
proof -
  note mr = module_rules[OF assms(1)]
  have "books live (add_mset (Device IVC_DEV_NAME) rest) s (m_pci_unregister_driver env w)"
    using assms(2) by (simp add: books_def mr(7))
  from uninit_ledger[OF mr(1) this] assms(3) show ?thesis
    by (simp add: axvisor_exit_def axvisor_ivshmem_unregister_def left_over_def)
qed

theorem unload_releases_everything_witness:
  "honours (m_drv demo_menv) \<and>
    snd (snd (snd (axvisor_exit demo_menv demo_pub_state (0, 0x1020, held demo_pub_state + {#Device IVC_DEV_NAME, Pci_Driver#})))) = {#}"
proof -
  let ?w = "(0 :: nat, 0x1020 :: ptr, held demo_pub_state + {#Device IVC_DEV_NAME, Pci_Driver#})"
  have h: "honours (m_drv demo_menv)"
    by (simp add: honours_def hvc_unpublish_channel_def hvc_unsubscribe_channel_def hvc_call_def demo_menv_def strict_hvc_def
        int_of_hvc_def split: prod.splits)
  have b: "books (\<lambda>w. snd (snd w)) ({#Device IVC_DEV_NAME, Pci_Driver#} + {#}) demo_pub_state ?w"
    by (simp add: books_def tables_ok_def demo_pub_state_def ivc_state_init_def MAX_VDEVS_def)
  obtain s' w' where run: "axvisor_exit demo_menv demo_pub_state ?w = (s', w')"
    by (cases "axvisor_exit demo_menv demo_pub_state ?w") simp
  show ?thesis using unload_releases_everything[OF demo_module_ledger b run] h run by simp
qed

text \<open>
  Loading the module is all or nothing. If it fails, whichever part failed, nothing is held
  that was not held before; if it succeeds the module holds exactly the management device and
  the PCI driver, with empty device tables.
\<close>

theorem load_all_or_nothing:
  assumes "module_ledger env live" "axvisor_init env ivc_state_init w = (st, s', w')"
  shows "s' = ivc_state_init \<and> live w' = (case st of None \<Rightarrow> {#Device IVC_DEV_NAME, Pci_Driver#} + live w | Some e \<Rightarrow> live w)"
proof -
  note mr = module_rules[OF assms(1)]
  obtain a w1 where a: "d_misc_register (m_drv env) IVC_DEV_NAME w = (a, w1)" by fastforce
  obtain b w2 where b: "m_pci_register_driver env w1 = (b, w2)" by fastforce
  have un: "uninit_ivc_devices (m_drv env) ivc_state_init w2 = (ivc_state_init, d_misc_deregister (m_drv env) IVC_DEV_NAME w2)"
    by (simp add: uninit_ivc_devices_def ivc_state_init_def)
  show ?thesis
    using assms(2) a b un ledger_misc_register[OF mr(1) a] mr(6)[OF b]
    by (cases a; cases b) (auto simp: axvisor_init_def init_ivc_devices_def axvisor_ivshmem_register_def ledger_simps[OF mr(1)])
qed

theorem load_all_or_nothing_witness:
  "snd (snd (axvisor_init demo_menv ivc_state_init (0, 0x1000, {#}))) = (0, 0x1000, {#Device ''axivc'', Pci_Driver#}) \<and>
    fst (axvisor_init demo_menv ivc_state_init (0, 0x1000, {#})) = OK"
proof -
  have "axvisor_init demo_menv ivc_state_init (0, 0x1000, {#}) = (OK, ivc_state_init, 0, 0x1000, {#Device ''axivc'', Pci_Driver#})"
    by (simp add: axvisor_init_def init_ivc_devices_def axvisor_ivshmem_register_def demo_menv_def demo_denv_def IVC_DEV_NAME_def)
  then show ?thesis using load_all_or_nothing[OF demo_module_ledger, of "(0, 0x1000, {#})"] by simp
qed

end
