(* ===== verification/Axivc_Lifecycle.thy ===== *)
theory Axivc_Lifecycle
  imports Axivc_Driver
begin

text \<open>
  The lifetime of the channel devices when threads publish, open, use, close and unpublish
  them concurrently. Every section of \<^verbatim>\<open>ivc/ivc.c\<close> that runs under a list lock is one step;
  between two sections of one thread any other thread may run. The one access to a device
  outside the locks by a thread that does not own it, the read of its name at the end of a
  publication or subscription, is a step of its own. An abstract life cycle of devices states
  the invariant; the publisher and the subscriber sides refine it.
\<close>

section \<open>The abstract life cycle\<close>

text \<open>
  A device object is its flags \<open>active\<close> and \<open>removing\<close>. \<open>l_new\<close> are the devices that a thread
  has allocated and not yet put on the list, \<open>l_reg\<close> those with a device file, \<open>l_open\<close> those
  a process has open, \<open>l_del\<close> those a thread is removing, \<open>l_dead\<close> those taken off the list
  and not yet freed.
\<close>

record life =
  l_objs :: "ptr \<rightharpoonup> bool \<times> bool"
  l_list :: "ptr list"
  l_count :: nat
  l_new :: "ptr list"
  l_reg :: "ptr set"
  l_open :: "ptr set"
  l_del :: "ptr set"
  l_dead :: "ptr set"

inductive life_step :: "life \<Rightarrow> life \<Rightarrow> bool" where
  l_reserve: "l_count a < MAX_VDEVS \<Longrightarrow> l_objs a p = None \<Longrightarrow>
    life_step a (a\<lparr>l_count := l_count a + 1, l_objs := (l_objs a)(p \<mapsto> (False, False)), l_new := p # l_new a\<rparr>)"
| l_register: "p \<in> set (l_new a) \<Longrightarrow> life_step a (a\<lparr>l_reg := insert p (l_reg a)\<rparr>)"
| l_cancel: "p \<in> set (l_new a) \<Longrightarrow> p \<notin> l_reg a \<Longrightarrow>
    life_step a (a\<lparr>l_count := l_count a - 1, l_objs := (l_objs a)(p := None), l_new := remove1 p (l_new a)\<rparr>)"
| l_link: "p \<in> set (l_new a) \<Longrightarrow> p \<in> l_reg a \<Longrightarrow>
    life_step a (a\<lparr>l_list := l_list a @ [p], l_new := remove1 p (l_new a)\<rparr>)"
| l_same: "life_step a a"
| l_open: "p \<in> l_reg a \<Longrightarrow> l_objs a p = Some (False, False) \<Longrightarrow>
    life_step a (a\<lparr>l_objs := (l_objs a)(p \<mapsto> (True, False)), l_open := insert p (l_open a)\<rparr>)"
| l_release: "p \<in> l_open a \<Longrightarrow> l_objs a p = Some (x, r) \<Longrightarrow>
    life_step a (a\<lparr>l_objs := (l_objs a)(p \<mapsto> (False, r)), l_open := l_open a - {p}\<rparr>)"
| l_begin: "p \<in> set (l_list a) \<Longrightarrow> l_objs a p = Some (False, False) \<Longrightarrow>
    life_step a (a\<lparr>l_objs := (l_objs a)(p \<mapsto> (False, True)), l_del := insert p (l_del a)\<rparr>)"
| l_undo: "p \<in> l_del a \<Longrightarrow> p \<in> l_reg a \<Longrightarrow> l_objs a p = Some (x, r) \<Longrightarrow>
    life_step a (a\<lparr>l_objs := (l_objs a)(p \<mapsto> (x, False)), l_del := l_del a - {p}\<rparr>)"
| l_deregister: "p \<in> l_del a \<Longrightarrow> life_step a (a\<lparr>l_reg := l_reg a - {p}\<rparr>)"
| l_unlink: "p \<in> l_del a \<Longrightarrow> p \<notin> l_reg a \<Longrightarrow>
    life_step a (a\<lparr>l_list := remove1 p (l_list a), l_count := l_count a - 1, l_del := l_del a - {p},
      l_dead := insert p (l_dead a)\<rparr>)"
| l_free: "p \<in> l_dead a \<Longrightarrow> life_step a (a\<lparr>l_objs := (l_objs a)(p := None), l_dead := l_dead a - {p}\<rparr>)"

definition life_inv :: "life \<Rightarrow> bool" where
  "life_inv a \<longleftrightarrow>
    distinct (l_list a) \<and> distinct (l_new a) \<and> set (l_list a) \<inter> set (l_new a) = {} \<and>
    l_dead a \<inter> (set (l_list a) \<union> set (l_new a)) = {} \<and>
    dom (l_objs a) = set (l_list a) \<union> set (l_new a) \<union> l_dead a \<and>
    l_count a = length (l_list a) + length (l_new a) \<and> l_count a \<le> MAX_VDEVS \<and>
    l_reg a \<subseteq> set (l_list a) \<union> set (l_new a) \<and> l_open a \<subseteq> l_reg a \<and> l_del a \<subseteq> set (l_list a) \<and>
    set (l_list a) \<subseteq> l_reg a \<union> l_del a \<and> l_open a \<inter> l_del a = {} \<and>
    (\<forall>p x r. l_objs a p = Some (x, r) \<longrightarrow> (x \<longleftrightarrow> p \<in> l_open a) \<and> (r \<longleftrightarrow> p \<in> l_del a \<union> l_dead a))"

lemma life_inv_flags:
  "life_inv a \<Longrightarrow> l_objs a p = Some (x, r) \<Longrightarrow> (x \<longleftrightarrow> p \<in> l_open a) \<and> (r \<longleftrightarrow> p \<in> l_del a \<union> l_dead a)"
  unfolding life_inv_def by blast

lemma life_inv_unlink:
  assumes "life_inv a" "b = a\<lparr>l_list := remove1 p (l_list a), l_count := l_count a - 1, l_del := l_del a - {p},
      l_dead := insert p (l_dead a)\<rparr>" "p \<in> l_del a" "p \<notin> l_reg a"
  shows "life_inv b"
proof -
  have inv: "distinct (l_list a)" "distinct (l_new a)" "set (l_list a) \<inter> set (l_new a) = {}"
    "l_dead a \<inter> (set (l_list a) \<union> set (l_new a)) = {}" "dom (l_objs a) = set (l_list a) \<union> set (l_new a) \<union> l_dead a"
    "l_count a = length (l_list a) + length (l_new a)" "l_count a \<le> MAX_VDEVS"
    "l_reg a \<subseteq> set (l_list a) \<union> set (l_new a)" "l_open a \<subseteq> l_reg a" "l_del a \<subseteq> set (l_list a)"
    "set (l_list a) \<subseteq> l_reg a \<union> l_del a" "l_open a \<inter> l_del a = {}"
    using assms(1) unfolding life_inv_def by blast+
  have p: "p \<in> set (l_list a)" using assms(3) inv(10) by blast
  have r: "set (remove1 p (l_list a)) = set (l_list a) - {p}" "length (remove1 p (l_list a)) = length (l_list a) - 1"
    "0 < length (l_list a)"
    using inv(1) p by (auto simp: set_remove1_eq length_remove1)
  have "l_del a - {p} \<union> insert p (l_dead a) = l_del a \<union> l_dead a" using assms(3) by blast
  then have flags: "\<forall>q x r. l_objs a q = Some (x, r) \<longrightarrow>
      (x \<longleftrightarrow> q \<in> l_open a) \<and> (r \<longleftrightarrow> q \<in> l_del a - {p} \<union> insert p (l_dead a))"
    using life_inv_flags[OF assms(1)] by metis
  have b: "l_list b = remove1 p (l_list a)" "l_new b = l_new a" "l_dead b = insert p (l_dead a)" "l_del b = l_del a - {p}"
    "l_objs b = l_objs a" "l_count b = l_count a - 1" "l_reg b = l_reg a" "l_open b = l_open a"
    using assms(2) by simp_all
  have c: "distinct (remove1 p (l_list a))" "(set (l_list a) - {p}) \<inter> set (l_new a) = {}"
    "l_count a - 1 = length (l_list a) - 1 + length (l_new a)" "l_count a - 1 \<le> MAX_VDEVS"
    using inv(1,3,6,7) r(3) by (simp, blast, linarith, linarith)
  have d: "insert p (l_dead a) \<inter> (set (l_list a) - {p} \<union> set (l_new a)) = {}" using inv(3,4) p by blast
  have e: "dom (l_objs a) = set (l_list a) - {p} \<union> set (l_new a) \<union> insert p (l_dead a)" using inv(5) p by blast
  have f: "l_reg a \<subseteq> set (l_list a) - {p} \<union> set (l_new a)" using inv(8) assms(4) by blast
  have g: "l_del a - {p} \<subseteq> set (l_list a) - {p}" "set (l_list a) - {p} \<subseteq> l_reg a \<union> (l_del a - {p})"
    "l_open a \<inter> (l_del a - {p}) = {}"
    using inv(10-12) by blast+
  show ?thesis unfolding life_inv_def b r(1,2) by (intro conjI) (fact c inv(2) d e f g inv(9) flags)+
qed

lemma life_inv_step:
  assumes "life_step a b" "life_inv a"
  shows "life_inv b"
  using assms
proof (cases rule: life_step.cases)
  case (l_reserve p)
  then have "p \<notin> dom (l_objs a)" by (simp add: domIff)
  then have "p \<notin> set (l_list a) \<union> set (l_new a) \<union> l_dead a" using assms(2) by (simp add: life_inv_def)
  with l_reserve show ?thesis using assms(2) unfolding life_inv_def by (auto split: if_splits)
next
  case (l_register p)
  then show ?thesis using assms(2) unfolding life_inv_def by auto
next
  case (l_cancel p)
  then have "length (l_list a) + length (l_new a) - 1 = length (l_list a) + (length (l_new a) - 1)"
    by (cases "l_new a") auto
  with l_cancel show ?thesis using assms(2) unfolding life_inv_def by (auto simp: length_remove1 split: if_splits)
next
  case (l_link p)
  then have "0 < length (l_new a)" by (cases "l_new a") auto
  with l_link show ?thesis using assms(2) unfolding life_inv_def by (auto simp: length_remove1 split: if_splits)
next
  case l_same
  then show ?thesis using assms(2) by simp
next
  case (l_open p)
  then have "p \<notin> l_del a" using life_inv_flags[OF assms(2)] by auto
  with l_open show ?thesis using assms(2) unfolding life_inv_def by (auto split: if_splits)
next
  case (l_release p x r)
  then show ?thesis using assms(2) unfolding life_inv_def by (auto split: if_splits)
next
  case (l_begin p)
  then show ?thesis using assms(2) unfolding life_inv_def by (auto split: if_splits)
next
  case (l_undo p x r)
  then show ?thesis using assms(2) unfolding life_inv_def by (auto split: if_splits)
next
  case (l_deregister p)
  then show ?thesis using assms(2) unfolding life_inv_def by (auto split: if_splits)
next
  case (l_unlink p)
  then show ?thesis using assms(2) by (blast intro: life_inv_unlink)
next
  case (l_free p)
  then show ?thesis using assms(2) unfolding life_inv_def by (auto split: if_splits)
qed

definition life_init :: life where
  "life_init = \<lparr>l_objs = Map.empty, l_list = [], l_count = 0, l_new = [], l_reg = {}, l_open = {}, l_del = {}, l_dead = {}\<rparr>"

lemma life_inv_reach: "life_step\<^sup>*\<^sup>* life_init a \<Longrightarrow> life_inv a"
proof (induction rule: rtranclp_induct)
  case base
  show ?case by (simp add: life_init_def life_inv_def)
next
  case (step a b)
  then show ?case by (blast intro: life_inv_step)
qed

section \<open>Refinement\<close>

text \<open>
  A configuration is the driver's state and what the threads are doing. \<open>cf_name\<close> are the
  devices of the threads that have put a device on the list, released the lock and not yet
  read its name to return its path; a device that is freed meanwhile moves to \<open>cf_stale\<close>, and
  \<open>cf_fault\<close> records that a thread has read such a device. A side of the driver
  refines the life cycle when each of its steps is a step of the life cycle, seen through its
  device objects, its list and its counter.
\<close>

record cfg =
  cf_state :: ivc_state
  cf_new :: "ptr list"
  cf_reg :: "ptr set"
  cf_open :: "ptr set"
  cf_del :: "ptr set"
  cf_dead :: "ptr set"
  cf_name :: "ptr list"
  cf_stale :: "ptr list"
  cf_fault :: bool

definition cfg_init :: cfg where
  "cfg_init = \<lparr>cf_state = ivc_state_init, cf_new = [], cf_reg = {}, cf_open = {}, cf_del = {}, cf_dead = {},
    cf_name = [], cf_stale = [], cf_fault = False\<rparr>"

locale device_life =
  fixes objs :: "ivc_state \<Rightarrow> ptr \<rightharpoonup> bool \<times> bool"
    and dev_list :: "ivc_state \<Rightarrow> ptr list"
    and dev_count :: "ivc_state \<Rightarrow> nat"
    and step :: "cfg \<Rightarrow> cfg \<Rightarrow> bool"
    and view :: "cfg \<Rightarrow> life"
  assumes view_def: "view c = \<lparr>l_objs = objs (cf_state c), l_list = dev_list (cf_state c), l_count = dev_count (cf_state c),
      l_new = cf_new c, l_reg = cf_reg c, l_open = cf_open c, l_del = cf_del c, l_dead = cf_dead c\<rparr>"
    and init: "view cfg_init = life_init"
    and refines: "step c c' \<Longrightarrow> life_inv (view c) \<Longrightarrow> life_step (view c) (view c')"
    and pending: "step c c' \<Longrightarrow> set (cf_name c) \<subseteq> set (dev_list (cf_state c)) \<union> cf_dead c \<Longrightarrow>
      set (cf_name c') \<subseteq> set (dev_list (cf_state c')) \<union> cf_dead c'"
begin

lemma reach_refines: "step\<^sup>*\<^sup>* cfg_init c \<Longrightarrow> life_step\<^sup>*\<^sup>* life_init (view c)"
proof (induction rule: rtranclp_induct)
  case base
  show ?case by (simp add: init)
next
  case (step c c')
  then show ?case using refines[OF step(2)] by (blast intro: life_inv_reach rtranclp.rtrancl_into_rtrancl)
qed

lemma reach_pending:
  "step\<^sup>*\<^sup>* cfg_init c \<Longrightarrow> set (cf_name c) \<subseteq> set (dev_list (cf_state c)) \<union> cf_dead c"
  by (induction rule: rtranclp_induct) (simp add: cfg_init_def, rule pending)

text \<open>
  No device that a process or a thread can reach is freed, the stale name readers apart, and
  no open one is being removed.
\<close>

lemma never_freed:
  assumes "step\<^sup>*\<^sup>* cfg_init c"
  shows "p \<in> cf_open c \<Longrightarrow> objs (cf_state c) p = Some (True, False) \<and> p \<notin> cf_del c \<union> cf_dead c"
    and "cf_open c \<union> cf_reg c \<union> cf_del c \<union> cf_dead c \<union> set (cf_new c) \<union> set (dev_list (cf_state c)) \<union> set (cf_name c)
      \<subseteq> dom (objs (cf_state c))"
proof -
  note inv = life_inv_reach[OF reach_refines[OF assms], unfolded life_inv_def view_def, simplified]
  have d: "dom (objs (cf_state c)) = set (dev_list (cf_state c)) \<union> set (cf_new c) \<union> cf_dead c"
    "cf_reg c \<subseteq> set (dev_list (cf_state c)) \<union> set (cf_new c)" "cf_open c \<subseteq> cf_reg c" "cf_del c \<subseteq> set (dev_list (cf_state c))"
    using inv by blast+
  show touched: "cf_open c \<union> cf_reg c \<union> cf_del c \<union> cf_dead c \<union> set (cf_new c) \<union> set (dev_list (cf_state c)) \<union> set (cf_name c)
      \<subseteq> dom (objs (cf_state c))"
    unfolding d(1) using d(2-4) reach_pending[OF assms] by blast
  assume p: "p \<in> cf_open c"
  have "p \<in> dom (objs (cf_state c))" using touched p by blast
  then obtain x r where o: "objs (cf_state c) p = Some (x, r)" by auto
  then have "x" "r \<longleftrightarrow> p \<in> cf_del c \<or> p \<in> cf_dead c" using inv p by auto
  moreover have "p \<notin> cf_del c \<union> cf_dead c" using inv p by auto
  ultimately show "objs (cf_state c) p = Some (True, False) \<and> p \<notin> cf_del c \<union> cf_dead c" using o by simp
qed

end

text \<open>
  The steps of the publisher side. Reserving a place and filling the new object is one step: nobody
  else knows the object before its device file is registered.
\<close>

inductive pub_step :: "cfg \<Rightarrow> cfg \<Rightarrow> bool" where
  pub_reserve: "publish_reserve (cf_state c) = Some (i, s) \<Longrightarrow> pub_vdevs (cf_state c) p = None \<Longrightarrow> \<not> pv_active v \<Longrightarrow> \<not> pv_removing v \<Longrightarrow>
    pub_step c (c\<lparr>cf_state := publish_fill p v s, cf_new := p # cf_new c\<rparr>)"
| pub_register: "p \<in> set (cf_new c) \<Longrightarrow> pub_step c (c\<lparr>cf_reg := insert p (cf_reg c)\<rparr>)"
| pub_cancel: "p \<in> set (cf_new c) \<Longrightarrow> p \<notin> cf_reg c \<Longrightarrow>
    pub_step c (c\<lparr>cf_state := publish_cancel p (cf_state c), cf_new := remove1 p (cf_new c)\<rparr>)"
| pub_link: "p \<in> set (cf_new c) \<Longrightarrow> p \<in> cf_reg c \<Longrightarrow>
    pub_step c (c\<lparr>cf_state := publish_link p (cf_state c), cf_new := remove1 p (cf_new c), cf_name := p # cf_name c\<rparr>)"
| pub_name: "p \<in> set (cf_name c) \<Longrightarrow> pub_step c (c\<lparr>cf_name := remove1 p (cf_name c)\<rparr>)"
| pub_name_stale: "p \<in> set (cf_stale c) \<Longrightarrow>
    pub_step c (c\<lparr>cf_stale := remove1 p (cf_stale c), cf_fault := True\<rparr>)"
| pub_open: "p \<in> cf_reg c \<Longrightarrow> axivc_publisher_open p (cf_state c) = Returned (st, s) \<Longrightarrow>
    pub_step c (c\<lparr>cf_state := s, cf_open := (if st = OK then insert p (cf_open c) else cf_open c)\<rparr>)"
| pub_use: "p \<in> cf_open c \<Longrightarrow>
    pub_step c (c\<lparr>cf_state := update_pub (\<lambda>v. v\<lparr>pv_endpoint := e\<rparr>) p (cf_state c)\<rparr>)"
| pub_release: "p \<in> cf_open c \<Longrightarrow> axivc_publisher_release p (cf_state c) = Returned (st, s) \<Longrightarrow>
    pub_step c (c\<lparr>cf_state := s, cf_open := cf_open c - {p}\<rparr>)"
| pub_refuse: "unpublish_begin key (cf_state c) = (Inl err, s) \<Longrightarrow> pub_step c (c\<lparr>cf_state := s\<rparr>)"
| pub_begin: "unpublish_begin key (cf_state c) = (Inr (p, v), s) \<Longrightarrow>
    pub_step c (c\<lparr>cf_state := s, cf_del := insert p (cf_del c)\<rparr>)"
| pub_undo: "p \<in> cf_del c \<Longrightarrow> p \<in> cf_reg c \<Longrightarrow>
    pub_step c (c\<lparr>cf_state := unpublish_undo p (cf_state c), cf_del := cf_del c - {p}\<rparr>)"
| pub_deregister: "p \<in> cf_del c \<Longrightarrow> pub_step c (c\<lparr>cf_reg := cf_reg c - {p}\<rparr>)"
| pub_unlink: "p \<in> cf_del c \<Longrightarrow> p \<notin> cf_reg c \<Longrightarrow>
    pub_step c (c\<lparr>cf_state := unpublish_unlink p (cf_state c), cf_del := cf_del c - {p}, cf_dead := insert p (cf_dead c)\<rparr>)"
| pub_free: "p \<in> cf_dead c \<Longrightarrow>
    pub_step c (c\<lparr>cf_state := unpublish_free p (cf_state c), cf_dead := cf_dead c - {p},
      cf_name := removeAll p (cf_name c), cf_stale := filter ((=) p) (cf_name c) @ cf_stale c\<rparr>)"

definition pub_flags :: "ivc_state \<Rightarrow> ptr \<rightharpoonup> bool \<times> bool" where
  "pub_flags s p = map_option (\<lambda>v. (pv_active v, pv_removing v)) (pub_vdevs s p)"

definition pub_view :: "cfg \<Rightarrow> life" where
  "pub_view c = \<lparr>l_objs = pub_flags (cf_state c), l_list = pub_vdev_list (cf_state c), l_count = pub_vdev_count (cf_state c),
    l_new = cf_new c, l_reg = cf_reg c, l_open = cf_open c, l_del = cf_del c, l_dead = cf_dead c\<rparr>"

lemma pub_flags_upd:
  "pub_flags (s\<lparr>pub_vdevs := (pub_vdevs s)(p := x)\<rparr>) = (pub_flags s)(p := map_option (\<lambda>v. (pv_active v, pv_removing v)) x)"
  by (auto simp: pub_flags_def)

text \<open>
  The steps of the subscriber side. Reserving a place and filling the new object is one step: nobody
  else knows the object before its device file is registered.
\<close>

inductive sub_step :: "cfg \<Rightarrow> cfg \<Rightarrow> bool" where
  sub_reserve: "subscribe_reserve (cf_state c) = Some (i, s) \<Longrightarrow> sub_vdevs (cf_state c) p = None \<Longrightarrow> \<not> sv_active v \<Longrightarrow> \<not> sv_removing v \<Longrightarrow>
    sub_step c (c\<lparr>cf_state := subscribe_fill p v s, cf_new := p # cf_new c\<rparr>)"
| sub_register: "p \<in> set (cf_new c) \<Longrightarrow> sub_step c (c\<lparr>cf_reg := insert p (cf_reg c)\<rparr>)"
| sub_cancel: "p \<in> set (cf_new c) \<Longrightarrow> p \<notin> cf_reg c \<Longrightarrow>
    sub_step c (c\<lparr>cf_state := subscribe_cancel p (cf_state c), cf_new := remove1 p (cf_new c)\<rparr>)"
| sub_link: "p \<in> set (cf_new c) \<Longrightarrow> p \<in> cf_reg c \<Longrightarrow>
    sub_step c (c\<lparr>cf_state := subscribe_link p (cf_state c), cf_new := remove1 p (cf_new c), cf_name := p # cf_name c\<rparr>)"
| sub_name: "p \<in> set (cf_name c) \<Longrightarrow> sub_step c (c\<lparr>cf_name := remove1 p (cf_name c)\<rparr>)"
| sub_name_stale: "p \<in> set (cf_stale c) \<Longrightarrow>
    sub_step c (c\<lparr>cf_stale := remove1 p (cf_stale c), cf_fault := True\<rparr>)"
| sub_open: "p \<in> cf_reg c \<Longrightarrow> axivc_subscriber_open p (cf_state c) = Returned (st, s) \<Longrightarrow>
    sub_step c (c\<lparr>cf_state := s, cf_open := (if st = OK then insert p (cf_open c) else cf_open c)\<rparr>)"
| sub_use: "p \<in> cf_open c \<Longrightarrow>
    sub_step c (c\<lparr>cf_state := update_sub (\<lambda>v. v\<lparr>sv_endpoint := e\<rparr>) p (cf_state c)\<rparr>)"
| sub_release: "p \<in> cf_open c \<Longrightarrow> axivc_subscriber_release p (cf_state c) = Returned (st, s) \<Longrightarrow>
    sub_step c (c\<lparr>cf_state := s, cf_open := cf_open c - {p}\<rparr>)"
| sub_refuse: "unsubscribe_begin pid key (cf_state c) = (Inl err, s) \<Longrightarrow> sub_step c (c\<lparr>cf_state := s\<rparr>)"
| sub_begin: "unsubscribe_begin pid key (cf_state c) = (Inr (p, v), s) \<Longrightarrow>
    sub_step c (c\<lparr>cf_state := s, cf_del := insert p (cf_del c)\<rparr>)"
| sub_undo: "p \<in> cf_del c \<Longrightarrow> p \<in> cf_reg c \<Longrightarrow>
    sub_step c (c\<lparr>cf_state := unsubscribe_undo p (cf_state c), cf_del := cf_del c - {p}\<rparr>)"
| sub_deregister: "p \<in> cf_del c \<Longrightarrow> sub_step c (c\<lparr>cf_reg := cf_reg c - {p}\<rparr>)"
| sub_unlink: "p \<in> cf_del c \<Longrightarrow> p \<notin> cf_reg c \<Longrightarrow>
    sub_step c (c\<lparr>cf_state := unsubscribe_unlink p (cf_state c), cf_del := cf_del c - {p}, cf_dead := insert p (cf_dead c)\<rparr>)"
| sub_free: "p \<in> cf_dead c \<Longrightarrow>
    sub_step c (c\<lparr>cf_state := unsubscribe_free p (cf_state c), cf_dead := cf_dead c - {p},
      cf_name := removeAll p (cf_name c), cf_stale := filter ((=) p) (cf_name c) @ cf_stale c\<rparr>)"

definition sub_flags :: "ivc_state \<Rightarrow> ptr \<rightharpoonup> bool \<times> bool" where
  "sub_flags s p = map_option (\<lambda>v. (sv_active v, sv_removing v)) (sub_vdevs s p)"

definition sub_view :: "cfg \<Rightarrow> life" where
  "sub_view c = \<lparr>l_objs = sub_flags (cf_state c), l_list = sub_vdev_list (cf_state c), l_count = sub_vdev_count (cf_state c),
    l_new = cf_new c, l_reg = cf_reg c, l_open = cf_open c, l_del = cf_del c, l_dead = cf_dead c\<rparr>"

lemma sub_flags_upd:
  "sub_flags (s\<lparr>sub_vdevs := (sub_vdevs s)(p := x)\<rparr>) = (sub_flags s)(p := map_option (\<lambda>v. (sv_active v, sv_removing v)) x)"
  by (auto simp: sub_flags_def)

lemmas pub_life_ops = publish_reserve_def publish_fill_def publish_cancel_def publish_link_def unpublish_undo_def unpublish_unlink_def
  unpublish_free_def update_pub_def axivc_publisher_open_def axivc_publisher_release_def

lemma pub_flags_simps [simp]:
  "pub_flags (s\<lparr>pub_vdev_list := l\<rparr>) = pub_flags s" "pub_flags (s\<lparr>pub_vdev_count := n\<rparr>) = pub_flags s"
  "pub_flags (s\<lparr>next_pub_vdev_id := i\<rparr>) = pub_flags s"
  "pub_flags (s\<lparr>pub_vdevs := m(p := x)\<rparr>) = (pub_flags (s\<lparr>pub_vdevs := m\<rparr>))(p := map_option (\<lambda>v. (pv_active v, pv_removing v)) x)"
  "pub_flags (s\<lparr>pub_vdevs := pub_vdevs s\<rparr>) = pub_flags s"
  by (auto simp: pub_flags_def)

lemma pub_refines:
  assumes "pub_step c c'" "life_inv (pub_view c)"
  shows "life_step (pub_view c) (pub_view c')"
  using assms(1)
proof (cases rule: pub_step.cases)
  case (pub_reserve i s p v)
  then have "pub_view c' = (pub_view c)\<lparr>l_count := pub_vdev_count (cf_state c) + 1,
      l_objs := (l_objs (pub_view c))(p \<mapsto> (False, False)), l_new := p # cf_new c\<rparr>"
    "l_count (pub_view c) < MAX_VDEVS" "l_objs (pub_view c) p = None"
    by (auto simp: pub_view_def pub_life_ops pub_flags_def split: if_splits)
  then show ?thesis using life_step.l_reserve[of "pub_view c" p] by (simp add: pub_view_def)
next
  case (pub_register p)
  then show ?thesis using life_step.l_register[of p "pub_view c"] by (simp add: pub_view_def)
next
  case (pub_cancel p)
  then show ?thesis using life_step.l_cancel[of p "pub_view c"] by (simp add: pub_view_def pub_life_ops)
next
  case (pub_link p)
  then show ?thesis using life_step.l_link[of p "pub_view c"] by (simp add: pub_view_def pub_life_ops)
next
  case (pub_name p)
  then have "pub_view c' = pub_view c" by (simp add: pub_view_def)
  then show ?thesis by (simp add: life_step.l_same)
next
  case (pub_name_stale p)
  then have "pub_view c' = pub_view c" by (simp add: pub_view_def)
  then show ?thesis by (simp add: life_step.l_same)
next
  case (pub_open p st s)
  then show ?thesis
    using life_step.l_open[of p "pub_view c"] life_step.l_same[of "pub_view c"]
    by (auto simp: pub_view_def pub_life_ops pub_flags_def split: option.splits if_splits)
next
  case (pub_use p e)
  then have "pub_view c' = pub_view c"
    by (auto simp: pub_view_def update_pub_def pub_flags_def option.map_comp comp_def)
  then show ?thesis by (simp add: life_step.l_same)
next
  case (pub_release p st s)
  then show ?thesis
    using life_step.l_release[of p "pub_view c"]
    by (auto simp: pub_view_def pub_life_ops pub_flags_def split: option.splits)
next
  case (pub_refuse key err s)
  then have "s = cf_state c" by (auto simp: unpublish_begin_def split: option.splits if_splits)
  then show ?thesis using pub_refuse life_step.l_same[of "pub_view c"] by simp
next
  case (pub_begin key p v s)
  then have "find_pub (pub_vdevs (cf_state c)) key (pub_vdev_list (cf_state c)) = Some (p, v)" "\<not> pv_active v" "\<not> pv_removing v"
    "s = update_pub (\<lambda>v. v\<lparr>pv_removing := True\<rparr>) p (cf_state c)"
    by (auto simp: unpublish_begin_def split: option.splits if_splits)
  then show ?thesis
    using pub_begin(1) life_step.l_begin[of p "pub_view c"] find_pub_Some[of "pub_vdevs (cf_state c)" key "pub_vdev_list (cf_state c)" p v]
    by (auto simp: pub_view_def update_pub_def pub_flags_def)
next
  case (pub_undo p)
  then have "p \<in> dom (pub_flags (cf_state c))" using assms(2) by (auto simp: life_inv_def pub_view_def)
  then obtain v where "pub_vdevs (cf_state c) p = Some v" by (auto simp: pub_flags_def)
  then show ?thesis using pub_undo life_step.l_undo[of p "pub_view c" "pv_active v" "pv_removing v"]
    by (simp add: pub_view_def pub_life_ops pub_flags_def)
next
  case (pub_deregister p)
  then show ?thesis using life_step.l_deregister[of p "pub_view c"] by (simp add: pub_view_def)
next
  case (pub_unlink p)
  then show ?thesis using life_step.l_unlink[of p "pub_view c"] by (simp add: pub_view_def pub_life_ops)
next
  case (pub_free p)
  then show ?thesis using life_step.l_free[of p "pub_view c"] by (simp add: pub_view_def pub_life_ops)
qed

lemma pub_pending:
  assumes "pub_step c c'" "set (cf_name c) \<subseteq> set (pub_vdev_list (cf_state c)) \<union> cf_dead c"
  shows "set (cf_name c') \<subseteq> set (pub_vdev_list (cf_state c')) \<union> cf_dead c'"
  using assms(1)
proof (cases rule: pub_step.cases)
  case (pub_name p)
  then show ?thesis using assms(2) set_remove1_subset[of p "cf_name c"] by auto
next
  case (pub_begin key p v s)
  then have "pub_vdev_list s = pub_vdev_list (cf_state c)"
    by (auto simp: unpublish_begin_def update_pub_def split: option.splits if_splits)
  with pub_begin show ?thesis using assms(2) by simp
qed (use assms(2) in \<open>auto simp: pub_life_ops unpublish_begin_def split: option.splits if_splits\<close>)

lemmas sub_life_ops = subscribe_reserve_def subscribe_fill_def subscribe_cancel_def subscribe_link_def unsubscribe_undo_def unsubscribe_unlink_def
  unsubscribe_free_def update_sub_def axivc_subscriber_open_def axivc_subscriber_release_def

lemma sub_flags_simps [simp]:
  "sub_flags (s\<lparr>sub_vdev_list := l\<rparr>) = sub_flags s" "sub_flags (s\<lparr>sub_vdev_count := n\<rparr>) = sub_flags s"
  "sub_flags (s\<lparr>next_sub_vdev_id := i\<rparr>) = sub_flags s"
  "sub_flags (s\<lparr>sub_vdevs := m(p := x)\<rparr>) = (sub_flags (s\<lparr>sub_vdevs := m\<rparr>))(p := map_option (\<lambda>v. (sv_active v, sv_removing v)) x)"
  "sub_flags (s\<lparr>sub_vdevs := sub_vdevs s\<rparr>) = sub_flags s"
  by (auto simp: sub_flags_def)

lemma sub_refines:
  assumes "sub_step c c'" "life_inv (sub_view c)"
  shows "life_step (sub_view c) (sub_view c')"
  using assms(1)
proof (cases rule: sub_step.cases)
  case (sub_reserve i s p v)
  then have "sub_view c' = (sub_view c)\<lparr>l_count := sub_vdev_count (cf_state c) + 1,
      l_objs := (l_objs (sub_view c))(p \<mapsto> (False, False)), l_new := p # cf_new c\<rparr>"
    "l_count (sub_view c) < MAX_VDEVS" "l_objs (sub_view c) p = None"
    by (auto simp: sub_view_def sub_life_ops sub_flags_def split: if_splits)
  then show ?thesis using life_step.l_reserve[of "sub_view c" p] by (simp add: sub_view_def)
next
  case (sub_register p)
  then show ?thesis using life_step.l_register[of p "sub_view c"] by (simp add: sub_view_def)
next
  case (sub_cancel p)
  then show ?thesis using life_step.l_cancel[of p "sub_view c"] by (simp add: sub_view_def sub_life_ops)
next
  case (sub_link p)
  then show ?thesis using life_step.l_link[of p "sub_view c"] by (simp add: sub_view_def sub_life_ops)
next
  case (sub_name p)
  then have "sub_view c' = sub_view c" by (simp add: sub_view_def)
  then show ?thesis by (simp add: life_step.l_same)
next
  case (sub_name_stale p)
  then have "sub_view c' = sub_view c" by (simp add: sub_view_def)
  then show ?thesis by (simp add: life_step.l_same)
next
  case (sub_open p st s)
  then show ?thesis
    using life_step.l_open[of p "sub_view c"] life_step.l_same[of "sub_view c"]
    by (auto simp: sub_view_def sub_life_ops sub_flags_def split: option.splits if_splits)
next
  case (sub_use p e)
  then have "sub_view c' = sub_view c"
    by (auto simp: sub_view_def update_sub_def sub_flags_def option.map_comp comp_def)
  then show ?thesis by (simp add: life_step.l_same)
next
  case (sub_release p st s)
  then show ?thesis
    using life_step.l_release[of p "sub_view c"]
    by (auto simp: sub_view_def sub_life_ops sub_flags_def split: option.splits)
next
  case (sub_refuse pid key err s)
  then have "s = cf_state c" by (auto simp: unsubscribe_begin_def split: option.splits if_splits)
  then show ?thesis using sub_refuse life_step.l_same[of "sub_view c"] by simp
next
  case (sub_begin pid key p v s)
  then have "find_sub (sub_vdevs (cf_state c)) pid key (sub_vdev_list (cf_state c)) = Some (p, v)" "\<not> sv_active v" "\<not> sv_removing v"
    "s = update_sub (\<lambda>v. v\<lparr>sv_removing := True\<rparr>) p (cf_state c)"
    by (auto simp: unsubscribe_begin_def split: option.splits if_splits)
  then show ?thesis
    using sub_begin(1) life_step.l_begin[of p "sub_view c"] find_sub_Some[of "sub_vdevs (cf_state c)" pid key "sub_vdev_list (cf_state c)" p v]
    by (auto simp: sub_view_def update_sub_def sub_flags_def)
next
  case (sub_undo p)
  then have "p \<in> dom (sub_flags (cf_state c))" using assms(2) by (auto simp: life_inv_def sub_view_def)
  then obtain v where "sub_vdevs (cf_state c) p = Some v" by (auto simp: sub_flags_def)
  then show ?thesis using sub_undo life_step.l_undo[of p "sub_view c" "sv_active v" "sv_removing v"]
    by (simp add: sub_view_def sub_life_ops sub_flags_def)
next
  case (sub_deregister p)
  then show ?thesis using life_step.l_deregister[of p "sub_view c"] by (simp add: sub_view_def)
next
  case (sub_unlink p)
  then show ?thesis using life_step.l_unlink[of p "sub_view c"] by (simp add: sub_view_def sub_life_ops)
next
  case (sub_free p)
  then show ?thesis using life_step.l_free[of p "sub_view c"] by (simp add: sub_view_def sub_life_ops)
qed

lemma sub_pending:
  assumes "sub_step c c'" "set (cf_name c) \<subseteq> set (sub_vdev_list (cf_state c)) \<union> cf_dead c"
  shows "set (cf_name c') \<subseteq> set (sub_vdev_list (cf_state c')) \<union> cf_dead c'"
  using assms(1)
proof (cases rule: sub_step.cases)
  case (sub_name p)
  then show ?thesis using assms(2) set_remove1_subset[of p "cf_name c"] by auto
next
  case (sub_begin pid key p v s)
  then have "sub_vdev_list s = sub_vdev_list (cf_state c)"
    by (auto simp: unsubscribe_begin_def update_sub_def split: option.splits if_splits)
  with sub_begin show ?thesis using assms(2) by simp
qed (use assms(2) in \<open>auto simp: sub_life_ops unsubscribe_begin_def split: option.splits if_splits\<close>)

interpretation plife: device_life pub_flags pub_vdev_list pub_vdev_count pub_step pub_view
proof
  show "pub_view cfg_init = life_init"
    by (auto simp: pub_view_def cfg_init_def ivc_state_init_def life_init_def pub_flags_def)
qed (rule pub_view_def, rule pub_refines, assumption+, rule pub_pending)

interpretation slife: device_life sub_flags sub_vdev_list sub_vdev_count sub_step sub_view
proof
  show "sub_view cfg_init = life_init"
    by (auto simp: sub_view_def cfg_init_def ivc_state_init_def life_init_def sub_flags_def)
qed (rule sub_view_def, rule sub_refines, assumption+, rule sub_pending)

section \<open>A concrete run\<close>

text \<open>A device has been put on the list, and its name has not yet been read.\<close>

definition linked_cfg :: "ivc_state \<Rightarrow> cfg" where
  "linked_cfg s = cfg_init\<lparr>cf_state := s, cf_reg := {0x1000}, cf_name := [0x1000]\<rparr>"

definition life_pub_vdev :: axivc_publisher_vdev where
  "life_pub_vdev = \<lparr>pv_name = ''axivc_publisher_0'', pv_id = 0, pv_active = False, pv_removing = False, pv_key = 7,
    pv_shm_base = 0, pv_shm_size = 20480, pv_mapped_shm_base = 0x8000, pv_endpoint = axivc_endpoint_init\<rparr>"

definition life_pub_cfg :: cfg where
  "life_pub_cfg = \<lparr>cf_state = ivc_state_init\<lparr>next_pub_vdev_id := 1, pub_vdev_count := 1,
      pub_vdevs := [0x1000 \<mapsto> life_pub_vdev\<lparr>pv_active := True\<rparr>], pub_vdev_list := [0x1000]\<rparr>,
    cf_new = [], cf_reg = {0x1000}, cf_open = {0x1000}, cf_del = {}, cf_dead = {},
    cf_name = [0x1000], cf_stale = [], cf_fault = False\<rparr>"

text \<open>Reserve a place, register the device file, link the device; then open it.\<close>

definition life_pub_linked :: ivc_state where
  "life_pub_linked = ivc_state_init\<lparr>next_pub_vdev_id := 1, pub_vdev_count := 1, pub_vdevs := [0x1000 \<mapsto> life_pub_vdev],
    pub_vdev_list := [0x1000]\<rparr>"

lemma life_pub_linked: "pub_step\<^sup>*\<^sup>* cfg_init (linked_cfg life_pub_linked)"
proof -
  let ?s1 = "ivc_state_init\<lparr>next_pub_vdev_id := 1, pub_vdev_count := 1, pub_vdevs := [0x1000 \<mapsto> life_pub_vdev]\<rparr>"
  let ?c1 = "cfg_init\<lparr>cf_state := ?s1, cf_new := [0x1000]\<rparr>"
  let ?c2 = "?c1\<lparr>cf_reg := {0x1000}\<rparr>"
  let ?c3 = "linked_cfg life_pub_linked"
  have "pub_step cfg_init ?c1"
    using pub_step.pub_reserve[of cfg_init 0 "ivc_state_init\<lparr>next_pub_vdev_id := 1, pub_vdev_count := 1\<rparr>" "0x1000" life_pub_vdev]
    by (simp add: cfg_init_def ivc_state_init_def publish_reserve_def publish_fill_def MAX_VDEVS_def life_pub_vdev_def)
  moreover have "pub_step ?c1 ?c2" using pub_step.pub_register[of "0x1000" ?c1] by (simp add: cfg_init_def)
  moreover have "pub_step ?c2 ?c3"
    using pub_step.pub_link[of "0x1000" ?c2] by (simp add: cfg_init_def publish_link_def ivc_state_init_def linked_cfg_def life_pub_linked_def)
  ultimately show ?thesis by (meson converse_rtranclp_into_rtranclp rtranclp.rtrancl_refl)
qed

lemma life_pub_reach: "pub_step\<^sup>*\<^sup>* cfg_init life_pub_cfg"
proof -
  have "pub_step (linked_cfg life_pub_linked) life_pub_cfg"
    using pub_step.pub_open[of "0x1000" "linked_cfg life_pub_linked" OK
        "life_pub_linked\<lparr>pub_vdevs := [0x1000 \<mapsto> life_pub_vdev\<lparr>pv_active := True\<rparr>]\<rparr>"]
    by (simp add: cfg_init_def ivc_state_init_def axivc_publisher_open_def update_pub_def life_pub_vdev_def life_pub_cfg_def
        linked_cfg_def life_pub_linked_def)
  with life_pub_linked show ?thesis by simp
qed

definition life_sub_vdev :: axivc_subscriber_vdev where
  "life_sub_vdev = \<lparr>sv_name = ''axivc_subscriber_0'', sv_id = 0, sv_active = False, sv_removing = False, sv_publisher_id = 1, sv_key = 7,
    sv_shm_base = 0, sv_shm_size = 20480, sv_mapped_shm_base = 0x8000, sv_endpoint = axivc_endpoint_init\<rparr>"

definition life_sub_cfg :: cfg where
  "life_sub_cfg = \<lparr>cf_state = ivc_state_init\<lparr>next_sub_vdev_id := 1, sub_vdev_count := 1,
      sub_vdevs := [0x1000 \<mapsto> life_sub_vdev\<lparr>sv_active := True\<rparr>], sub_vdev_list := [0x1000]\<rparr>,
    cf_new = [], cf_reg = {0x1000}, cf_open = {0x1000}, cf_del = {}, cf_dead = {},
    cf_name = [0x1000], cf_stale = [], cf_fault = False\<rparr>"

definition life_sub_linked :: ivc_state where
  "life_sub_linked = ivc_state_init\<lparr>next_sub_vdev_id := 1, sub_vdev_count := 1, sub_vdevs := [0x1000 \<mapsto> life_sub_vdev],
    sub_vdev_list := [0x1000]\<rparr>"

lemma life_sub_linked: "sub_step\<^sup>*\<^sup>* cfg_init (linked_cfg life_sub_linked)"
proof -
  let ?s1 = "ivc_state_init\<lparr>next_sub_vdev_id := 1, sub_vdev_count := 1, sub_vdevs := [0x1000 \<mapsto> life_sub_vdev]\<rparr>"
  let ?c1 = "cfg_init\<lparr>cf_state := ?s1, cf_new := [0x1000]\<rparr>"
  let ?c2 = "?c1\<lparr>cf_reg := {0x1000}\<rparr>"
  let ?c3 = "linked_cfg life_sub_linked"
  have "sub_step cfg_init ?c1"
    using sub_step.sub_reserve[of cfg_init 0 "ivc_state_init\<lparr>next_sub_vdev_id := 1, sub_vdev_count := 1\<rparr>" "0x1000" life_sub_vdev]
    by (simp add: cfg_init_def ivc_state_init_def subscribe_reserve_def subscribe_fill_def MAX_VDEVS_def life_sub_vdev_def)
  moreover have "sub_step ?c1 ?c2" using sub_step.sub_register[of "0x1000" ?c1] by (simp add: cfg_init_def)
  moreover have "sub_step ?c2 ?c3"
    using sub_step.sub_link[of "0x1000" ?c2] by (simp add: cfg_init_def subscribe_link_def ivc_state_init_def linked_cfg_def life_sub_linked_def)
  ultimately show ?thesis by (meson converse_rtranclp_into_rtranclp rtranclp.rtrancl_refl)
qed

lemma life_sub_reach: "sub_step\<^sup>*\<^sup>* cfg_init life_sub_cfg"
proof -
  have "sub_step (linked_cfg life_sub_linked) life_sub_cfg"
    using sub_step.sub_open[of "0x1000" "linked_cfg life_sub_linked" OK
        "life_sub_linked\<lparr>sub_vdevs := [0x1000 \<mapsto> life_sub_vdev\<lparr>sv_active := True\<rparr>]\<rparr>"]
    by (simp add: cfg_init_def ivc_state_init_def axivc_subscriber_open_def update_sub_def life_sub_vdev_def life_sub_cfg_def
        linked_cfg_def life_sub_linked_def)
  with life_sub_linked show ?thesis by simp
qed

text \<open>
  The race on the name, from \<open>linked_cfg\<close>: a thread has published a device and released the lock; before it
  reads the name, another thread unpublishes the channel and frees the device.
\<close>

lemma removal_run:
  assumes "step (linked_cfg s) ((linked_cfg s)\<lparr>cf_state := s1, cf_del := {0x1000}\<rparr>)"
    and "\<And>c. 0x1000 \<in> cf_del c \<Longrightarrow> step c (c\<lparr>cf_reg := cf_reg c - {0x1000}\<rparr>)"
    and "\<And>c. 0x1000 \<in> cf_del c \<Longrightarrow> 0x1000 \<notin> cf_reg c \<Longrightarrow>
      step c (c\<lparr>cf_state := unlink (cf_state c), cf_del := cf_del c - {0x1000}, cf_dead := insert 0x1000 (cf_dead c)\<rparr>)"
    and "\<And>c. 0x1000 \<in> cf_dead c \<Longrightarrow>
      step c (c\<lparr>cf_state := free (cf_state c), cf_dead := cf_dead c - {0x1000},
        cf_name := removeAll 0x1000 (cf_name c), cf_stale := filter ((=) 0x1000) (cf_name c) @ cf_stale c\<rparr>)"
  shows "step\<^sup>*\<^sup>* (linked_cfg s) (cfg_init\<lparr>cf_state := free (unlink s1), cf_stale := [0x1000]\<rparr>)"
proof -
  let ?c1 = "(linked_cfg s)\<lparr>cf_state := s1, cf_del := {0x1000}\<rparr>"
  let ?c2 = "?c1\<lparr>cf_reg := {}\<rparr>"
  let ?c3 = "?c2\<lparr>cf_state := unlink s1, cf_del := {}, cf_dead := {0x1000}\<rparr>"
  have "step ?c1 ?c2" using assms(2)[of ?c1] by (simp add: linked_cfg_def)
  moreover have "step ?c2 ?c3" using assms(3)[of ?c2] by (simp add: linked_cfg_def cfg_init_def)
  moreover have "step ?c3 (cfg_init\<lparr>cf_state := free (unlink s1), cf_stale := [0x1000]\<rparr>)"
    using assms(4)[of ?c3] by (simp add: linked_cfg_def cfg_init_def)
  ultimately show ?thesis using assms(1) by (meson converse_rtranclp_into_rtranclp rtranclp.rtrancl_refl)
qed

lemma pub_name_race:
  "\<exists>c c' p. pub_step\<^sup>*\<^sup>* cfg_init c \<and> p \<in> set (cf_stale c) \<and> pub_vdevs (cf_state c) p = None \<and>
    pub_step c c' \<and> cf_fault c'"
proof -
  let ?s1 = "update_pub (\<lambda>v. v\<lparr>pv_removing := True\<rparr>) 0x1000 life_pub_linked"
  let ?c = "cfg_init\<lparr>cf_state := unpublish_free 0x1000 (unpublish_unlink 0x1000 ?s1), cf_stale := [0x1000]\<rparr>"
  have "pub_step (linked_cfg life_pub_linked) ((linked_cfg life_pub_linked)\<lparr>cf_state := ?s1, cf_del := {0x1000}\<rparr>)"
    using pub_step.pub_begin[of 7 "linked_cfg life_pub_linked" "0x1000" life_pub_vdev ?s1]
    by (simp add: linked_cfg_def cfg_init_def unpublish_begin_def life_pub_linked_def life_pub_vdev_def)
  then have "pub_step\<^sup>*\<^sup>* (linked_cfg life_pub_linked) ?c"
    by (rule removal_run) (erule pub_step.pub_deregister, erule (1) pub_step.pub_unlink, erule pub_step.pub_free)
  with life_pub_linked have "pub_step\<^sup>*\<^sup>* cfg_init ?c" by simp
  moreover have "pub_step ?c (?c\<lparr>cf_stale := remove1 0x1000 (cf_stale ?c), cf_fault := True\<rparr>)"
    by (rule pub_step.pub_name_stale) simp
  moreover have "0x1000 \<in> set (cf_stale ?c)" "pub_vdevs (cf_state ?c) 0x1000 = None" by (simp_all add: unpublish_free_def)
  ultimately show ?thesis by fastforce
qed

lemma sub_name_race:
  "\<exists>c c' p. sub_step\<^sup>*\<^sup>* cfg_init c \<and> p \<in> set (cf_stale c) \<and> sub_vdevs (cf_state c) p = None \<and>
    sub_step c c' \<and> cf_fault c'"
proof -
  let ?s1 = "update_sub (\<lambda>v. v\<lparr>sv_removing := True\<rparr>) 0x1000 life_sub_linked"
  let ?c = "cfg_init\<lparr>cf_state := unsubscribe_free 0x1000 (unsubscribe_unlink 0x1000 ?s1), cf_stale := [0x1000]\<rparr>"
  have "sub_step (linked_cfg life_sub_linked) ((linked_cfg life_sub_linked)\<lparr>cf_state := ?s1, cf_del := {0x1000}\<rparr>)"
    using sub_step.sub_begin[of 1 7 "linked_cfg life_sub_linked" "0x1000" life_sub_vdev ?s1]
    by (simp add: linked_cfg_def cfg_init_def unsubscribe_begin_def life_sub_linked_def life_sub_vdev_def)
  then have "sub_step\<^sup>*\<^sup>* (linked_cfg life_sub_linked) ?c"
    by (rule removal_run) (erule sub_step.sub_deregister, erule (1) sub_step.sub_unlink, erule sub_step.sub_free)
  with life_sub_linked have "sub_step\<^sup>*\<^sup>* cfg_init ?c" by simp
  moreover have "sub_step ?c (?c\<lparr>cf_stale := remove1 0x1000 (cf_stale ?c), cf_fault := True\<rparr>)"
    by (rule sub_step.sub_name_stale) simp
  moreover have "0x1000 \<in> set (cf_stale ?c)" "sub_vdevs (cf_state ?c) 0x1000 = None" by (simp_all add: unsubscribe_free_def)
  ultimately show ?thesis by fastforce
qed

section \<open>What every access relies on\<close>

text \<open>
  The devices that some process or thread may still access, but for the stale readers: open
  ones (read, write, release), those with a device file (open), those in removal, those taken
  off the list, those being created, those on the list (walked by every removal) and those
  whose name is about to be read.
\<close>

definition accessible :: "ptr list \<Rightarrow> cfg \<Rightarrow> ptr set" where
  "accessible devs c = cf_open c \<union> cf_reg c \<union> cf_del c \<union> cf_dead c \<union> set (cf_new c) \<union> set devs \<union> set (cf_name c)"

definition pub_accesses_safe :: "'w denv \<Rightarrow> cfg \<Rightarrow> bool" where
  "pub_accesses_safe env c \<longleftrightarrow>
    accessible (pub_vdev_list (cf_state c)) c \<subseteq> dom (pub_vdevs (cf_state c)) \<and>
    (\<forall>p \<in> cf_open c. (\<exists>v. pub_vdevs (cf_state c) p = Some v \<and> pv_active v \<and> \<not> pv_removing v) \<and>
      axivc_publisher_release p (cf_state c) \<noteq> Freed \<and>
      (\<forall>fuel buf n w. axivc_publisher_read env fuel p buf n (cf_state c) w \<noteq> Freed \<and>
        axivc_publisher_write env fuel p buf n (cf_state c) w \<noteq> Freed)) \<and>
    (\<forall>p \<in> cf_reg c. axivc_publisher_open p (cf_state c) \<noteq> Freed) \<and>
    distinct (pub_vdev_list (cf_state c) @ cf_new c) \<and>
    dom (pub_vdevs (cf_state c)) = set (pub_vdev_list (cf_state c)) \<union> set (cf_new c) \<union> cf_dead c \<and>
    cf_dead c \<inter> (set (pub_vdev_list (cf_state c)) \<union> set (cf_new c)) = {}"

definition sub_accesses_safe :: "'w denv \<Rightarrow> cfg \<Rightarrow> bool" where
  "sub_accesses_safe env c \<longleftrightarrow>
    accessible (sub_vdev_list (cf_state c)) c \<subseteq> dom (sub_vdevs (cf_state c)) \<and>
    (\<forall>p \<in> cf_open c. (\<exists>v. sub_vdevs (cf_state c) p = Some v \<and> sv_active v \<and> \<not> sv_removing v) \<and>
      axivc_subscriber_release p (cf_state c) \<noteq> Freed \<and>
      (\<forall>fuel buf n w. axivc_subscriber_read env fuel p buf n (cf_state c) w \<noteq> Freed \<and>
        axivc_subscriber_write env fuel p buf n (cf_state c) w \<noteq> Freed)) \<and>
    (\<forall>p \<in> cf_reg c. axivc_subscriber_open p (cf_state c) \<noteq> Freed) \<and>
    distinct (sub_vdev_list (cf_state c) @ cf_new c) \<and>
    dom (sub_vdevs (cf_state c)) = set (sub_vdev_list (cf_state c)) \<union> set (cf_new c) \<union> cf_dead c \<and>
    cf_dead c \<inter> (set (sub_vdev_list (cf_state c)) \<union> set (cf_new c)) = {}"

lemma pub_reach_safe:
  assumes "pub_step\<^sup>*\<^sup>* cfg_init c"
  shows "pub_accesses_safe env c"
proof -
  note inv = life_inv_reach[OF plife.reach_refines[OF assms], unfolded life_inv_def pub_view_def, simplified]
  have dom: "dom (pub_vdevs (cf_state c)) = dom (pub_flags (cf_state c))" by (auto simp: pub_flags_def)
  have acc: "accessible (pub_vdev_list (cf_state c)) c \<subseteq> dom (pub_vdevs (cf_state c))"
    unfolding dom accessible_def by (rule plife.never_freed(2)[OF assms])
  have used: "\<exists>v. pub_vdevs (cf_state c) p = Some v \<and> pv_active v \<and> \<not> pv_removing v" if "p \<in> cf_open c" for p
    using plife.never_freed(1)[OF assms that] by (auto simp: pub_flags_def)
  have op: "axivc_publisher_open p (cf_state c) \<noteq> Freed" if "p \<in> cf_reg c" for p
  proof -
    have "p \<in> dom (pub_vdevs (cf_state c))" using acc that by (auto simp: accessible_def)
    then show ?thesis by (auto simp: axivc_publisher_open_def split: if_splits)
  qed
  have "axivc_publisher_release p (cf_state c) \<noteq> Freed \<and>
      (\<forall>fuel buf n w. axivc_publisher_read env fuel p buf n (cf_state c) w \<noteq> Freed \<and>
        axivc_publisher_write env fuel p buf n (cf_state c) w \<noteq> Freed)" if "p \<in> cf_open c" for p
    using used[OF that]
    by (fastforce simp: axivc_publisher_release_def axivc_publisher_read_def axivc_publisher_write_def Let_def split: option.splits)
  with acc used op show ?thesis unfolding pub_accesses_safe_def dom using inv by simp
qed

lemma sub_reach_safe:
  assumes "sub_step\<^sup>*\<^sup>* cfg_init c"
  shows "sub_accesses_safe env c"
proof -
  note inv = life_inv_reach[OF slife.reach_refines[OF assms], unfolded life_inv_def sub_view_def, simplified]
  have dom: "dom (sub_vdevs (cf_state c)) = dom (sub_flags (cf_state c))" by (auto simp: sub_flags_def)
  have acc: "accessible (sub_vdev_list (cf_state c)) c \<subseteq> dom (sub_vdevs (cf_state c))"
    unfolding dom accessible_def by (rule slife.never_freed(2)[OF assms])
  have used: "\<exists>v. sub_vdevs (cf_state c) p = Some v \<and> sv_active v \<and> \<not> sv_removing v" if "p \<in> cf_open c" for p
    using slife.never_freed(1)[OF assms that] by (auto simp: sub_flags_def)
  have op: "axivc_subscriber_open p (cf_state c) \<noteq> Freed" if "p \<in> cf_reg c" for p
  proof -
    have "p \<in> dom (sub_vdevs (cf_state c))" using acc that by (auto simp: accessible_def)
    then show ?thesis by (auto simp: axivc_subscriber_open_def split: if_splits)
  qed
  have "axivc_subscriber_release p (cf_state c) \<noteq> Freed \<and>
      (\<forall>fuel buf n w. axivc_subscriber_read env fuel p buf n (cf_state c) w \<noteq> Freed \<and>
        axivc_subscriber_write env fuel p buf n (cf_state c) w \<noteq> Freed)" if "p \<in> cf_open c" for p
    using used[OF that]
    by (fastforce simp: axivc_subscriber_release_def axivc_subscriber_read_def axivc_subscriber_write_def Let_def split: option.splits)
  with acc used op show ?thesis unfolding sub_accesses_safe_def dom using inv by simp
qed

section \<open>Properties\<close>

text \<open>
  C18. Both sides of the driver refine the abstract life cycle: however the threads that create,
  open, use, close and remove channel devices interleave, what they do to the device objects,
  the list and the counter is a run of the life cycle.
\<close>

theorem devices_refine_life_cycle:
  "(pub_step\<^sup>*\<^sup>* cfg_init c \<longrightarrow> life_step\<^sup>*\<^sup>* life_init (pub_view c)) \<and>
   (sub_step\<^sup>*\<^sup>* cfg_init c \<longrightarrow> life_step\<^sup>*\<^sup>* life_init (sub_view c))"
  by (simp add: plife.reach_refines slife.reach_refines)

theorem devices_refine_life_cycle_witness:
  "life_step\<^sup>*\<^sup>* life_init (pub_view life_pub_cfg) \<and> life_step\<^sup>*\<^sup>* life_init (sub_view life_sub_cfg)"
  using devices_refine_life_cycle[of life_pub_cfg] devices_refine_life_cycle[of life_sub_cfg] life_pub_reach life_sub_reach by simp

text \<open>
  C4. No device is used after it is freed and none is leaked, on either side, but for one read
  that is wrong. In every reachable state of the concurrent driver every device that a process
  or a thread may still access (open, with a device file, on the list, being created or
  removed, or about to have its name read) is allocated; an open one is also marked active and
  not being removed, so that its read, write and release, and the opening of a device file,
  never touch freed memory; every allocated device is on the list or in the hands of one
  thread. The exception: a publication or subscription reads the name of its device after it
  has put the device on the list and released the lock (ivc.c, lines 215 and 375). There is a
  run on each side in which another thread removes and frees the device first, so that the
  address is not allocated when the name is read from it.
\<close>

theorem device_accesses_safe_but_for_name:
  "(pub_step\<^sup>*\<^sup>* cfg_init c \<longrightarrow> pub_accesses_safe env c) \<and> (sub_step\<^sup>*\<^sup>* cfg_init c \<longrightarrow> sub_accesses_safe env c) \<and>
   (\<exists>c1 c2 p. pub_step\<^sup>*\<^sup>* cfg_init c1 \<and> p \<in> set (cf_stale c1) \<and> pub_vdevs (cf_state c1) p = None \<and>
     pub_step c1 c2 \<and> cf_fault c2) \<and>
   (\<exists>c1 c2 p. sub_step\<^sup>*\<^sup>* cfg_init c1 \<and> p \<in> set (cf_stale c1) \<and> sub_vdevs (cf_state c1) p = None \<and>
     sub_step c1 c2 \<and> cf_fault c2)"
  by (intro conjI impI) (erule pub_reach_safe, erule sub_reach_safe, rule pub_name_race, rule sub_name_race)

theorem device_accesses_safe_but_for_name_witness:
  "pub_vdevs (cf_state life_pub_cfg) 0x1000 \<noteq> None \<and> axivc_publisher_release 0x1000 (cf_state life_pub_cfg) \<noteq> Freed \<and>
   sub_vdevs (cf_state life_sub_cfg) 0x1000 \<noteq> None \<and> axivc_subscriber_release 0x1000 (cf_state life_sub_cfg) \<noteq> Freed"
  using device_accesses_safe_but_for_name[of life_pub_cfg] device_accesses_safe_but_for_name[of life_sub_cfg]
    life_pub_reach life_sub_reach
  by (auto simp: pub_accesses_safe_def sub_accesses_safe_def life_pub_cfg_def life_sub_cfg_def)

text \<open>
  C27. The tables never overflow. At every moment of every interleaving, each device counter is
  the number of listed devices and of places reserved by threads that are creating one, and
  never exceeds 16.
\<close>

theorem tables_never_overflow:
  "(pub_step\<^sup>*\<^sup>* cfg_init c \<longrightarrow> pub_vdev_count (cf_state c) = length (pub_vdev_list (cf_state c)) + length (cf_new c) \<and>
     pub_vdev_count (cf_state c) \<le> 16) \<and>
   (sub_step\<^sup>*\<^sup>* cfg_init c \<longrightarrow> sub_vdev_count (cf_state c) = length (sub_vdev_list (cf_state c)) + length (cf_new c) \<and>
     sub_vdev_count (cf_state c) \<le> 16)"
  using life_inv_reach[OF plife.reach_refines, of c] life_inv_reach[OF slife.reach_refines, of c]
  by (auto simp: life_inv_def pub_view_def sub_view_def MAX_VDEVS_def)

theorem tables_never_overflow_witness:
  "pub_vdev_count (cf_state life_pub_cfg) = 1 \<and> pub_vdev_count (cf_state life_pub_cfg) \<le> 16"
  using tables_never_overflow[of life_pub_cfg] life_pub_reach by (simp add: life_pub_cfg_def)

end
