(* ===== verification/Axivc_Uio.thy ===== *)
theory Axivc_Uio
  imports Axivc_Prelude "HOL-Library.Multiset"
begin

text \<open>
  The IVSHMEM PCI driver of \<^verbatim>\<open>uio_ivshmem/uio_ivshmem.c\<close>: probing and removing a device with
  every error path, and the interrupt state shared by the interrupt handler and the control
  calls of user space. The PCI, UIO and interrupt services are the fields of a record.
\<close>

section \<open>The device\<close>

definition IVSHMEM_REVISION :: u8 where "IVSHMEM_REVISION = 0x01"
definition IVSHMEM_BAR_REGISTERS :: nat where "IVSHMEM_BAR_REGISTERS = 0"
definition IVSHMEM_BAR_SHARED :: nat where "IVSHMEM_BAR_SHARED = 2"
definition IVSHMEM_REG_INTERRUPT_CTRL :: u64 where "IVSHMEM_REG_INTERRUPT_CTRL = 0x08"
definition IVSHMEM_REG_EVENT_STATUS :: u64 where "IVSHMEM_REG_EVENT_STATUS = 0x14"
definition IVSHMEM_INTERRUPT_ENABLE :: u32 where "IVSHMEM_INTERRUPT_ENABLE = push_bit 0 1"
definition IVSHMEM_EVENT_PENDING :: u32 where "IVSHMEM_EVENT_PENDING = push_bit 0 1"

datatype uio_memtype = UIO_MEM_NONE | UIO_MEM_PHYS

record uio_mem =
  um_name :: string
  um_addr :: u64
  um_size :: u64
  um_memtype :: uio_memtype

record uio_info =
  ui_name :: string
  ui_version :: string
  ui_irq :: nat
  ui_mem :: "uio_mem list"

record ivshmem_uio =
  iu_info :: uio_info
  iu_registers :: u64
  iu_irq_disabled :: bool

text \<open>A failing \<open>p_devm_kzalloc\<close> is True; its memory belongs to the device core, which frees it.\<close>

record 'w penv =
  p_revision :: u8
  p_resource_start :: "nat \<Rightarrow> u64"
  p_resource_len :: "nat \<Rightarrow> u64"
  p_devm_kzalloc :: "'w \<Rightarrow> bool \<times> 'w"
  p_enable_device_mem :: "'w \<Rightarrow> status \<times> 'w"
  p_request_regions :: "'w \<Rightarrow> status \<times> 'w"
  p_alloc_irq_vectors :: "'w \<Rightarrow> (errno + nat) \<times> 'w"
  p_iomap :: "nat \<Rightarrow> 'w \<Rightarrow> u64 option \<times> 'w"
  p_irq_vector :: nat
  p_uio_register_device :: "uio_info \<Rightarrow> 'w \<Rightarrow> status \<times> 'w"
  p_uio_unregister_device :: "'w \<Rightarrow> 'w"
  p_iounmap :: "u64 \<Rightarrow> 'w \<Rightarrow> 'w"
  p_free_irq_vectors :: "'w \<Rightarrow> 'w"
  p_release_regions :: "'w \<Rightarrow> 'w"
  p_disable_device :: "'w \<Rightarrow> 'w"
  p_writel :: "u32 \<Rightarrow> u64 \<Rightarrow> 'w \<Rightarrow> 'w"
  p_enable_irq :: "nat \<Rightarrow> 'w \<Rightarrow> 'w"

definition ivshmem_uio_fill_memory :: "'w penv \<Rightarrow> string \<Rightarrow> nat \<Rightarrow> uio_mem" where
  "ivshmem_uio_fill_memory env name bar =
    \<lparr>um_name = name, um_addr = p_resource_start env bar, um_size = p_resource_len env bar,
      um_memtype = UIO_MEM_PHYS\<rparr>"

text \<open>The labels at the end of \<open>ivshmem_uio_probe\<close>, each falling through to the next.\<close>

definition probe_disable_device :: "'w penv \<Rightarrow> errno \<Rightarrow> 'w \<Rightarrow> (errno + ivshmem_uio) \<times> 'w" where
  "probe_disable_device env result w = (Inl result, p_disable_device env w)"

definition probe_release_regions :: "'w penv \<Rightarrow> errno \<Rightarrow> 'w \<Rightarrow> (errno + ivshmem_uio) \<times> 'w" where
  "probe_release_regions env result w = probe_disable_device env result (p_release_regions env w)"

definition probe_free_vectors :: "'w penv \<Rightarrow> errno \<Rightarrow> 'w \<Rightarrow> (errno + ivshmem_uio) \<times> 'w" where
  "probe_free_vectors env result w = probe_release_regions env result (p_free_irq_vectors env w)"

definition probe_unmap_registers :: "'w penv \<Rightarrow> u64 \<Rightarrow> errno \<Rightarrow> 'w \<Rightarrow> (errno + ivshmem_uio) \<times> 'w" where
  "probe_unmap_registers env registers result w = probe_free_vectors env result (p_iounmap env registers w)"

definition ivshmem_uio_probe :: "'w penv \<Rightarrow> 'w \<Rightarrow> (errno + ivshmem_uio) \<times> 'w" where
  "ivshmem_uio_probe env w =
    (if p_revision env \<noteq> IVSHMEM_REVISION then (Inl ENODEV, w)
     else case p_devm_kzalloc env w of
       (True, w) \<Rightarrow> (Inl ENOMEM, w)
     | (False, w) \<Rightarrow>
       (case p_enable_device_mem env w of
         (Some result, w) \<Rightarrow> (Inl result, w)
       | (None, w) \<Rightarrow>
         (case p_request_regions env w of
           (Some result, w) \<Rightarrow> probe_disable_device env result w
         | (None, w) \<Rightarrow>
           (case p_alloc_irq_vectors env w of
             (Inl result, w) \<Rightarrow> probe_release_regions env result w
           | (Inr n, w) \<Rightarrow>
             if n \<noteq> 1 then probe_free_vectors env ENOSPC w
             else (case p_iomap env IVSHMEM_BAR_REGISTERS w of
               (None, w) \<Rightarrow> probe_free_vectors env ENOMEM w
             | (Some registers, w) \<Rightarrow>
               let info = \<lparr>ui_name = ''uio_ivshmem'', ui_version = ''1'', ui_irq = p_irq_vector env,
                     ui_mem = [ivshmem_uio_fill_memory env ''registers'' IVSHMEM_BAR_REGISTERS,
                       ivshmem_uio_fill_memory env ''shared'' IVSHMEM_BAR_SHARED]\<rparr>
               in (case p_uio_register_device env info w of
                 (Some result, w) \<Rightarrow> probe_unmap_registers env registers result w
               | (None, w) \<Rightarrow>
                 (Inr \<lparr>iu_info = info, iu_registers = registers, iu_irq_disabled = False\<rparr>,
                  p_writel env IVSHMEM_INTERRUPT_ENABLE (registers + IVSHMEM_REG_INTERRUPT_CTRL) w)))))))"

definition ivshmem_uio_remove :: "'w penv \<Rightarrow> ivshmem_uio \<Rightarrow> 'w \<Rightarrow> ivshmem_uio \<times> 'w" where
  "ivshmem_uio_remove env device w =
    (let w = p_writel env 0 (iu_registers device + IVSHMEM_REG_INTERRUPT_CTRL) w;
         w = p_uio_unregister_device env w;
         enable = iu_irq_disabled device;
         device = (if iu_irq_disabled device then device\<lparr>iu_irq_disabled := False\<rparr> else device);
         w = (if enable then p_enable_irq env (ui_irq (iu_info device)) w else w);
         w = p_iounmap env (iu_registers device) w;
         w = p_free_irq_vectors env w;
         w = p_release_regions env w
     in (device, p_disable_device env w))"

section \<open>Interrupts\<close>

datatype irqreturn = IRQ_NONE | IRQ_HANDLED

text \<open>
  The handler and the section of the control call that run under the spin lock. \<open>readl\<close> reads a
  device register. The handler tells whether it calls \<open>disable_irq_nosync\<close>, inside its section; the control call whether it
  calls \<open>enable_irq\<close> or \<open>disable_irq_nosync\<close> after it.
\<close>

definition ivshmem_uio_irq_handler :: "(u64 \<Rightarrow> u32) \<Rightarrow> ivshmem_uio \<Rightarrow> irqreturn \<times> ivshmem_uio \<times> bool" where
  "ivshmem_uio_irq_handler readl device =
    (if readl (iu_registers device + IVSHMEM_REG_EVENT_STATUS) AND IVSHMEM_EVENT_PENDING = 0 then (IRQ_NONE, device, False)
     else if \<not> iu_irq_disabled device then (IRQ_HANDLED, device\<lparr>iu_irq_disabled := True\<rparr>, True)
     else (IRQ_HANDLED, device, False))"

definition ivshmem_uio_irqcontrol :: "u32 \<Rightarrow> ivshmem_uio \<Rightarrow> ivshmem_uio \<times> bool \<times> bool" where
  "ivshmem_uio_irqcontrol irq_on device =
    (if irq_on \<noteq> 0 \<and> iu_irq_disabled device then (device\<lparr>iu_irq_disabled := False\<rparr>, True, False)
     else if irq_on = 0 \<and> \<not> iu_irq_disabled device then (device\<lparr>iu_irq_disabled := True\<rparr>, False, True)
     else (device, False, False))"

text \<open>
  The interrupt line as the kernel keeps it: \<open>ln_depth\<close> counts the disables, and an enable at
  depth 0 is a bug that the kernel reports. \<open>ln_call\<close> is the call that a control operation
  still owes after leaving its section, True for \<open>enable_irq\<close>. The UIO core runs one control
  operation at a time; the handler may run at any moment, also on another processor.
\<close>

record line =
  ln_dev :: ivshmem_uio
  ln_depth :: nat
  ln_call :: "bool option"
  ln_unbalanced :: bool

inductive line_step :: "line \<Rightarrow> line \<Rightarrow> bool" where
  irq: "ivshmem_uio_irq_handler readl (ln_dev l) = (ret, d, disable) \<Longrightarrow>
    line_step l (l\<lparr>ln_dev := d, ln_depth := ln_depth l + (if disable then 1 else 0)\<rparr>)"
| control: "ln_call l = None \<Longrightarrow> ivshmem_uio_irqcontrol irq_on (ln_dev l) = (d, enable, disable) \<Longrightarrow>
    line_step l (l\<lparr>ln_dev := d, ln_call := (if enable then Some True else if disable then Some False else None)\<rparr>)"
| do_enable: "ln_call l = Some True \<Longrightarrow>
    line_step l (l\<lparr>ln_call := None, ln_unbalanced := (ln_unbalanced l \<or> ln_depth l = 0), ln_depth := ln_depth l - 1\<rparr>)"
| do_disable: "ln_call l = Some False \<Longrightarrow> line_step l (l\<lparr>ln_call := None, ln_depth := ln_depth l + 1\<rparr>)"

inductive_cases line_stepE: "line_step l l'"

definition line_init :: "ivshmem_uio \<Rightarrow> line" where
  "line_init d = \<lparr>ln_dev = d, ln_depth = 0, ln_call = None, ln_unbalanced = False\<rparr>"

definition line_inv :: "line \<Rightarrow> bool" where
  "line_inv l \<longleftrightarrow> \<not> ln_unbalanced l \<and>
    ln_depth l + of_bool (ln_call l = Some False) = of_bool (iu_irq_disabled (ln_dev l)) + of_bool (ln_call l = Some True)"

lemma line_inv_step: "line_step l l' \<Longrightarrow> line_inv l \<Longrightarrow> line_inv l'"
  by (erule line_stepE)
    (auto simp: line_inv_def ivshmem_uio_irq_handler_def ivshmem_uio_irqcontrol_def split: if_splits)

lemma line_inv_reach: "line_step\<^sup>*\<^sup>* (line_init d) l \<Longrightarrow> \<not> iu_irq_disabled d \<Longrightarrow> line_inv l"
proof (induction rule: rtranclp_induct)
  case base
  then show ?case by (simp add: line_init_def line_inv_def)
next
  case (step l l')
  then show ?case by (blast intro: line_inv_step)
qed

section \<open>What a device holds\<close>

datatype pci_resource = Pci_Enabled | Pci_Regions | Irq_Vectors | Registers_Map u64 | Uio_Device

text \<open>
  Each service changes what is held by the resource it grants or takes back. A PCI service
  that fails grants nothing.
\<close>

definition pci_ledger :: "'w penv \<Rightarrow> ('w \<Rightarrow> pci_resource multiset) \<Rightarrow> bool" where
  "pci_ledger env live \<longleftrightarrow>
    (\<forall>w. live (snd (p_devm_kzalloc env w)) = live w) \<and>
    (\<forall>w e w'. p_enable_device_mem env w = (Err e, w') \<longrightarrow> live w' = live w) \<and>
    (\<forall>w w'. p_enable_device_mem env w = (OK, w') \<longrightarrow> live w' = add_mset Pci_Enabled (live w)) \<and>
    (\<forall>w e w'. p_request_regions env w = (Err e, w') \<longrightarrow> live w' = live w) \<and>
    (\<forall>w w'. p_request_regions env w = (OK, w') \<longrightarrow> live w' = add_mset Pci_Regions (live w)) \<and>
    (\<forall>w e w'. p_alloc_irq_vectors env w = (Inl e, w') \<longrightarrow> live w' = live w) \<and>
    (\<forall>w n w'. p_alloc_irq_vectors env w = (Inr n, w') \<longrightarrow> live w' = add_mset Irq_Vectors (live w)) \<and>
    (\<forall>b w w'. p_iomap env b w = (None, w') \<longrightarrow> live w' = live w) \<and>
    (\<forall>b w r w'. p_iomap env b w = (Some r, w') \<longrightarrow> live w' = add_mset (Registers_Map r) (live w)) \<and>
    (\<forall>i w e w'. p_uio_register_device env i w = (Err e, w') \<longrightarrow> live w' = live w) \<and>
    (\<forall>i w w'. p_uio_register_device env i w = (OK, w') \<longrightarrow> live w' = add_mset Uio_Device (live w)) \<and>
    (\<forall>w. live (p_uio_unregister_device env w) = live w - {#Uio_Device#}) \<and>
    (\<forall>r w. live (p_iounmap env r w) = live w - {#Registers_Map r#}) \<and>
    (\<forall>w. live (p_free_irq_vectors env w) = live w - {#Irq_Vectors#}) \<and>
    (\<forall>w. live (p_release_regions env w) = live w - {#Pci_Regions#}) \<and>
    (\<forall>w. live (p_disable_device env w) = live w - {#Pci_Enabled#}) \<and>
    (\<forall>x a w. live (p_writel env x a w) = live w) \<and> (\<forall>n w. live (p_enable_irq env n w) = live w)"

lemma pci_grants:
  assumes "pci_ledger env live"
  shows "p_devm_kzalloc env w = (f, w') \<Longrightarrow> live w' = live w"
    "p_enable_device_mem env w = (st, w') \<Longrightarrow> live w' = (case st of None \<Rightarrow> add_mset Pci_Enabled (live w) | Some e \<Rightarrow> live w)"
    "p_request_regions env w = (st, w') \<Longrightarrow> live w' = (case st of None \<Rightarrow> add_mset Pci_Regions (live w) | Some e \<Rightarrow> live w)"
    "p_alloc_irq_vectors env w = (v, w') \<Longrightarrow> live w' = (case v of Inr n \<Rightarrow> add_mset Irq_Vectors (live w) | Inl e \<Rightarrow> live w)"
    "p_iomap env b w = (r, w') \<Longrightarrow> live w' = (case r of None \<Rightarrow> live w | Some x \<Rightarrow> add_mset (Registers_Map x) (live w))"
    "p_uio_register_device env i w = (st, w') \<Longrightarrow> live w' = (case st of None \<Rightarrow> add_mset Uio_Device (live w) | Some e \<Rightarrow> live w)"
  using assms unfolding pci_ledger_def
  by (metis snd_conv, cases st, simp_all, cases st, simp_all, cases v, simp_all, cases r, simp_all, cases st, simp_all)

lemma pci_returns:
  assumes "pci_ledger env live"
  shows "live (p_uio_unregister_device env w) = live w - {#Uio_Device#}"
    "live (p_iounmap env r w) = live w - {#Registers_Map r#}"
    "live (p_free_irq_vectors env w) = live w - {#Irq_Vectors#}"
    "live (p_release_regions env w) = live w - {#Pci_Regions#}"
    "live (p_disable_device env w) = live w - {#Pci_Enabled#}"
    "live (p_writel env x a w) = live w" "live (p_enable_irq env n w) = live w"
  using assms unfolding pci_ledger_def by simp_all

lemmas probe_labels = probe_disable_device_def probe_release_regions_def probe_free_vectors_def probe_unmap_registers_def

definition probed :: "u64 \<Rightarrow> pci_resource multiset" where
  "probed r = {#Pci_Enabled, Pci_Regions, Irq_Vectors, Registers_Map r, Uio_Device#}"

section \<open>Properties\<close>

text \<open>
  C23. Enabling and disabling of the interrupt stay balanced. However the interrupt handler and
  the control calls of user space interleave, the kernel never sees an enable without a
  disable, and whenever no control call is in progress the line is enabled exactly when the
  driver's flag says so, and disabled once otherwise: no interrupt is lost for good, and a
  single control call enables it again.
\<close>

theorem irq_balanced:
  assumes "line_step\<^sup>*\<^sup>* (line_init d) l" "\<not> iu_irq_disabled d"
  shows "\<not> ln_unbalanced l \<and> ln_depth l \<le> 2 \<and>
    (ln_call l = None \<longrightarrow> ln_depth l = (if iu_irq_disabled (ln_dev l) then 1 else 0)) \<and>
    (ln_call l = Some True \<longrightarrow> 0 < ln_depth l)"
  using line_inv_reach[OF assms] by (cases "ln_call l") (auto simp: line_inv_def of_bool_def split: if_splits)

definition idle_device :: ivshmem_uio where
  "idle_device = \<lparr>iu_info = \<lparr>ui_name = [], ui_version = [], ui_irq = 0, ui_mem = []\<rparr>, iu_registers = 0,
    iu_irq_disabled = False\<rparr>"

text \<open>An interrupt fires, user space enables the line again, and it fires before the enable is done.\<close>

theorem irq_balanced_witness:
  "\<exists>l. line_step\<^sup>*\<^sup>* (line_init idle_device) l \<and> ln_depth l = 2 \<and> \<not> ln_unbalanced l"
proof -
  let ?d = "idle_device\<lparr>iu_irq_disabled := True\<rparr>"
  let ?l1 = "(line_init idle_device)\<lparr>ln_dev := ?d, ln_depth := 1\<rparr>"
  let ?l2 = "?l1\<lparr>ln_dev := idle_device, ln_call := Some True\<rparr>"
  let ?l3 = "?l2\<lparr>ln_dev := ?d, ln_depth := Suc 1\<rparr>"
  have "line_step (line_init idle_device) ?l1"
    using line_step.irq[of "\<lambda>a. 1" "line_init idle_device" IRQ_HANDLED ?d True]
    by (simp add: line_init_def ivshmem_uio_irq_handler_def IVSHMEM_EVENT_PENDING_def idle_device_def)
  moreover have "line_step ?l1 ?l2"
    using line_step.control[of ?l1 1 idle_device True False]
    by (simp add: line_init_def ivshmem_uio_irqcontrol_def idle_device_def)
  moreover have "line_step ?l2 ?l3"
    using line_step.irq[of "\<lambda>a. 1" ?l2 IRQ_HANDLED ?d True]
    by (simp add: line_init_def ivshmem_uio_irq_handler_def IVSHMEM_EVENT_PENDING_def idle_device_def)
  ultimately have r: "line_step\<^sup>*\<^sup>* (line_init idle_device) ?l3"
    by (meson converse_rtranclp_into_rtranclp rtranclp.rtrancl_refl)
  have "\<not> iu_irq_disabled idle_device" by (simp add: idle_device_def)
  from irq_balanced[OF r this] r show ?thesis by (intro exI[of _ ?l3]) simp
qed

text \<open>
  C22. Probing is all or nothing, and removing undoes it. A probe that fails, at whatever step,
  holds nothing more than before; a probe that succeeds holds the enabled device, its regions,
  its vectors, the mapped registers and the UIO device, with the interrupt enabled; removing
  the device then gives back exactly these, whatever became of the interrupt flag.
\<close>

theorem probe_all_or_nothing:
  assumes "pci_ledger env live" "ivshmem_uio_probe env w = (res, w')"
  shows "case res of Inl e \<Rightarrow> live w' = live w
    | Inr dev \<Rightarrow> live w' = probed (iu_registers dev) + live w \<and> \<not> iu_irq_disabled dev \<and>
        (\<forall>flag w1. live w1 = live w' \<longrightarrow>
          live (snd (ivshmem_uio_remove env (dev\<lparr>iu_irq_disabled := flag\<rparr>) w1)) = live w)"
proof -
  note g = pci_grants[OF assms(1)] and r = pci_returns[OF assms(1)]
  have rem: "live (snd (ivshmem_uio_remove env d w1)) = live w1 - probed (iu_registers d)" for d w1
    by (simp add: ivshmem_uio_remove_def Let_def r probed_def)
  obtain f w1 where a: "p_devm_kzalloc env w = (f, w1)" by fastforce
  obtain st2 w2 where b: "p_enable_device_mem env w1 = (st2, w2)" by fastforce
  obtain st3 w3 where c: "p_request_regions env w2 = (st3, w3)" by fastforce
  obtain v w4 where d: "p_alloc_irq_vectors env w3 = (v, w4)" by fastforce
  obtain m w5 where e: "p_iomap env IVSHMEM_BAR_REGISTERS w4 = (m, w5)" by fastforce
  note l = g(1)[OF a] g(2)[OF b] g(3)[OF c] g(4)[OF d] g(5)[OF e]
  show ?thesis
  proof (cases "p_revision env \<noteq> IVSHMEM_REVISION \<or> f \<or> st2 \<noteq> OK \<or> st3 \<noteq> OK \<or> v \<noteq> Inr 1 \<or> m = None")
    case True
    then show ?thesis
      using assms(2) a b c d e l
      by (cases f; cases st2; cases st3; cases v; cases m) (auto simp: ivshmem_uio_probe_def probe_labels r split: if_splits)
  next
    case False
    then obtain x where x: "m = Some x" by auto
    define info where "info = \<lparr>ui_name = ''uio_ivshmem'', ui_version = ''1'', ui_irq = p_irq_vector env,
      ui_mem = [ivshmem_uio_fill_memory env ''registers'' IVSHMEM_BAR_REGISTERS,
        ivshmem_uio_fill_memory env ''shared'' IVSHMEM_BAR_SHARED]\<rparr>"
    obtain st6 w6 where h: "p_uio_register_device env info w5 = (st6, w6)" by fastforce
    have run: "(res, w') = (case st6 of Some e \<Rightarrow> probe_unmap_registers env x e w6
      | None \<Rightarrow> (Inr \<lparr>iu_info = info, iu_registers = x, iu_irq_disabled = False\<rparr>,
          p_writel env IVSHMEM_INTERRUPT_ENABLE (x + IVSHMEM_REG_INTERRUPT_CTRL) w6))"
      using assms(2) a b c d e x False h by (cases st6) (simp_all add: ivshmem_uio_probe_def info_def[symmetric] Let_def)
    show ?thesis
      using run l False x g(6)[OF h] by (cases st6) (simp_all add: probe_labels r rem probed_def)
  qed
qed

text \<open>
  A machine where every service succeeds but the registration of the UIO device, which is
  granted when \<open>uio\<close> says so; the world is what is held.
\<close>

definition demo_penv :: "bool \<Rightarrow> pci_resource multiset penv" where
  "demo_penv uio = \<lparr>p_revision = 1, p_resource_start = (\<lambda>bar. 0x1000), p_resource_len = (\<lambda>bar. 0x1000),
    p_devm_kzalloc = (\<lambda>w. (False, w)),
    p_enable_device_mem = (\<lambda>w. (OK, add_mset Pci_Enabled w)),
    p_request_regions = (\<lambda>w. (OK, add_mset Pci_Regions w)),
    p_alloc_irq_vectors = (\<lambda>w. (Inr 1, add_mset Irq_Vectors w)),
    p_iomap = (\<lambda>bar w. (Some 0x8000, add_mset (Registers_Map 0x8000) w)),
    p_irq_vector = 42,
    p_uio_register_device = (\<lambda>i w. if uio then (OK, add_mset Uio_Device w) else (Err EBUSY, w)),
    p_uio_unregister_device = (\<lambda>w. w - {#Uio_Device#}),
    p_iounmap = (\<lambda>r w. w - {#Registers_Map r#}),
    p_free_irq_vectors = (\<lambda>w. w - {#Irq_Vectors#}),
    p_release_regions = (\<lambda>w. w - {#Pci_Regions#}),
    p_disable_device = (\<lambda>w. w - {#Pci_Enabled#}),
    p_writel = (\<lambda>x a w. w), p_enable_irq = (\<lambda>n w. w)\<rparr>"

lemma demo_penv_ledger: "pci_ledger (demo_penv uio) id"
  by (auto simp: pci_ledger_def demo_penv_def split: if_splits)

lemma demo_probe_fails: "ivshmem_uio_probe (demo_penv False) {#} = (Inl EBUSY, {#})"
  by (simp add: ivshmem_uio_probe_def demo_penv_def IVSHMEM_REVISION_def probe_labels Let_def)

lemma demo_probe_succeeds:
  "\<exists>dev w'. ivshmem_uio_probe (demo_penv True) {#} = (Inr dev, w') \<and> iu_registers dev = 0x8000"
  by (simp add: ivshmem_uio_probe_def demo_penv_def IVSHMEM_REVISION_def Let_def)

text \<open>The UIO core refuses the device, and it accepts it.\<close>

theorem probe_all_or_nothing_witness:
  "(\<exists>w'. ivshmem_uio_probe (demo_penv False) {#} = (Inl EBUSY, w') \<and> w' = {#}) \<and>
   (\<exists>dev w'. ivshmem_uio_probe (demo_penv True) {#} = (Inr dev, w') \<and> w' = probed 0x8000)"
proof
  show "\<exists>w'. ivshmem_uio_probe (demo_penv False) {#} = (Inl EBUSY, w') \<and> w' = {#}"
    using probe_all_or_nothing[OF demo_penv_ledger demo_probe_fails] demo_probe_fails by simp
next
  obtain dev w' where d: "ivshmem_uio_probe (demo_penv True) {#} = (Inr dev, w')" "iu_registers dev = 0x8000"
    using demo_probe_succeeds by blast
  with probe_all_or_nothing[OF demo_penv_ledger d(1)]
  show "\<exists>dev w'. ivshmem_uio_probe (demo_penv True) {#} = (Inr dev, w') \<and> w' = probed 0x8000" by auto
qed

end
