(* ===== verification/Axivc_Ulib.thy ===== *)
theory Axivc_Ulib
  imports Axivc_Driver
begin

text \<open>
  The user space library, \<^verbatim>\<open>userspace/ivc/ivc_ulib.c\<close> and \<^verbatim>\<open>userspace/ivc/ulib.h\<close>: managers,
  publishers and subscribers as objects on the heap of a process, reached through pointers, and
  the library's functions over an arbitrary C library and kernel.
\<close>

section \<open>Objects\<close>

record ivc_manager =
  im_fd :: int
  im_active_endpoints :: u64

record ivc_subscriber =
  is_manager :: ptr
  is_subscribe_arg :: ivc_subscribe_arg
  is_fd :: int
  is_bytes_received :: u64
  is_bytes_sent :: u64

record ivc_publisher =
  ip_manager :: ptr
  ip_publish_arg :: ivc_publish_arg
  ip_fd :: int
  ip_bytes_received :: u64
  ip_bytes_sent :: u64

text \<open>
  The heap of the process holds the allocated objects. A pointer that a caller passes is \<open>None\<close>
  for \<open>NULL\<close>; following a pointer that is not allocated is the outcome \<open>Freed\<close>.
\<close>

record ivc_heap =
  hp_managers :: "ptr \<rightharpoonup> ivc_manager"
  hp_subscribers :: "ptr \<rightharpoonup> ivc_subscriber"
  hp_publishers :: "ptr \<rightharpoonup> ivc_publisher"

text \<open>
  The C library and the system calls. \<open>errno\<close> is part of the world, so that every call may
  change it; an ioctl gives the argument structure as the kernel left it, a read the bytes it
  stored at the start of the buffer. A device name in an argument structure is the string up to
  its terminator, the empty one after the \<open>memset\<close>.
\<close>

record 'w cenv =
  c_errno :: "'w \<Rightarrow> errno"
  c_set_errno :: "errno \<Rightarrow> 'w \<Rightarrow> 'w"
  c_print :: "'w \<Rightarrow> 'w"
  c_malloc :: "'w \<Rightarrow> ptr option \<times> 'w"
  c_free :: "ptr \<Rightarrow> 'w \<Rightarrow> 'w"
  c_open :: "string \<Rightarrow> 'w \<Rightarrow> int \<times> 'w"
  c_close :: "int \<Rightarrow> 'w \<Rightarrow> int \<times> 'w"
  c_ioctl_publish :: "int \<Rightarrow> u32 \<Rightarrow> ivc_publish_arg \<Rightarrow> 'w \<Rightarrow> int \<times> ivc_publish_arg \<times> 'w"
  c_ioctl_subscribe :: "int \<Rightarrow> u32 \<Rightarrow> ivc_subscribe_arg \<Rightarrow> 'w \<Rightarrow> int \<times> ivc_subscribe_arg \<times> 'w"
  c_read :: "int \<Rightarrow> nat \<Rightarrow> 'w \<Rightarrow> int \<times> bytes \<times> 'w"
  c_write :: "int \<Rightarrow> bytes \<Rightarrow> 'w \<Rightarrow> int \<times> 'w"

definition DEV_PATH_PREFIX :: string where "DEV_PATH_PREFIX = ''/dev/''"
definition IVC_DEV_PATH :: string where "IVC_DEV_PATH = DEV_PATH_PREFIX @ IVC_DEV_NAME"
definition INT_MAX :: nat where "INT_MAX = 2 ^ 31 - 1"

text \<open>The conversion of a \<open>ssize_t\<close> or \<open>size_t\<close> to \<open>int\<close>.\<close>

definition c_int :: "int \<Rightarrow> int" where "c_int = signed_take_bit 31"

lemma c_int_id: "- (2 ^ 31) \<le> n \<Longrightarrow> n < 2 ^ 31 \<Longrightarrow> c_int n = n"
  by (simp add: c_int_def signed_take_bit_int_eq_self_iff)

text \<open>\<open>errno = e; fprintf(stderr, ...); return -1\<close>\<close>

definition fail_with :: "'w cenv \<Rightarrow> errno \<Rightarrow> 'w \<Rightarrow> 'w" where
  "fail_with env e w = c_print env (c_set_errno env e w)"

section \<open>Managers\<close>

definition ivc_manager_is_valid :: "ptr option \<Rightarrow> ivc_heap \<Rightarrow> bool outcome" where
  "ivc_manager_is_valid manager h =
    (case manager of
      None \<Rightarrow> Returned False
    | Some p \<Rightarrow> (case hp_managers h p of None \<Rightarrow> Freed | Some m \<Rightarrow> Returned (im_fd m \<ge> 0)))"

definition ivc_manager_release_endpoint ::
  "'w cenv \<Rightarrow> ptr option \<Rightarrow> ivc_heap \<Rightarrow> 'w \<Rightarrow> (int \<times> ivc_heap \<times> 'w) outcome" where
  "ivc_manager_release_endpoint env manager h w =
    (case manager of
      None \<Rightarrow> Returned (- 1, h, fail_with env EINVAL w)
    | Some p \<Rightarrow>
      (case hp_managers h p of
        None \<Rightarrow> Freed
      | Some m \<Rightarrow>
        if im_active_endpoints m = 0 then Returned (- 1, h, fail_with env EINVAL w)
        else Returned (0, h\<lparr>hp_managers := (hp_managers h)
          (p \<mapsto> m\<lparr>im_active_endpoints := im_active_endpoints m - 1\<rparr>)\<rparr>, w)))"

definition ivc_open_manager :: "'w cenv \<Rightarrow> ivc_heap \<Rightarrow> 'w \<Rightarrow> (ptr option \<times> ivc_heap \<times> 'w) outcome" where
  "ivc_open_manager env h w =
    (case c_malloc env w of
      (None, w) \<Rightarrow> Returned (None, h, c_print env w)
    | (Some manager, w) \<Rightarrow>
      (case c_open env IVC_DEV_PATH w of
        (fd, w) \<Rightarrow>
        if fd < 0 then
          let open_errno = c_errno env w
          in Returned (None, h, c_set_errno env open_errno (c_free env manager (c_print env w)))
        else Returned (Some manager,
          h\<lparr>hp_managers := (hp_managers h)(manager \<mapsto> \<lparr>im_fd = fd, im_active_endpoints = 0\<rparr>)\<rparr>, w)))"

definition ivc_close_manager ::
  "'w cenv \<Rightarrow> ptr option \<Rightarrow> ivc_heap \<Rightarrow> 'w \<Rightarrow> (int \<times> ivc_heap \<times> 'w) outcome" where
  "ivc_close_manager env manager h w =
    (case ivc_manager_is_valid manager h of
      Freed \<Rightarrow> Freed
    | Diverged \<Rightarrow> Diverged
    | Returned valid \<Rightarrow>
      if \<not> valid then Returned (- 1, h, fail_with env EINVAL w)
      else
        let p = the manager; m = the (hp_managers h p) in
        if im_active_endpoints m \<noteq> 0 then Returned (- 1, h, fail_with env EBUSY w)
        else (case c_close env (im_fd m) w of
          (r, w) \<Rightarrow>
          let close_errno = (if r < 0 then Some (c_errno env w) else None);
              w = (if r < 0 then c_print env w else w);
              w = c_free env p w;
              h = h\<lparr>hp_managers := (hp_managers h)(p := None)\<rparr>
          in (case close_errno of
               Some e \<Rightarrow> Returned (- 1, h, c_set_errno env e w)
             | None \<Rightarrow> Returned (0, h, w))))"

section \<open>Subscribers\<close>

definition ivc_subscribe ::
  "'w cenv \<Rightarrow> ptr option \<Rightarrow> u64 \<Rightarrow> u64 \<Rightarrow> ivc_heap \<Rightarrow> 'w \<Rightarrow> (ptr option \<times> ivc_heap \<times> 'w) outcome" where
  "ivc_subscribe env manager publisher_id channel_key h w =
    (case ivc_manager_is_valid manager h of
      Freed \<Rightarrow> Freed
    | Diverged \<Rightarrow> Diverged
    | Returned valid \<Rightarrow>
      if \<not> valid then Returned (None, h, fail_with env EINVAL w)
      else (case c_malloc env w of
        (None, w) \<Rightarrow> Returned (None, h, c_print env w)
      | (Some subscriber, w) \<Rightarrow>
        let mp = the manager; m = the (hp_managers h mp);
            arg = \<lparr>sa_target_publisher_id = publisher_id, sa_channel_key = channel_key,
              sa_device_name = []\<rparr>
        in (case c_ioctl_subscribe env (im_fd m) IVC_SUBSCRIBE_CHANNEL arg w of
          (r, arg, w) \<Rightarrow>
          if r < 0 then
            let subscribe_errno = c_errno env w
            in Returned (None, h, c_set_errno env subscribe_errno (c_free env subscriber (c_print env w)))
          else (case c_open env (sa_device_name arg) w of
            (fd, w) \<Rightarrow>
            if fd < 0 then
              let open_errno = c_errno env w; w = c_print env w
              in (case c_ioctl_subscribe env (im_fd m) IVC_UNSUBSCRIBE_CHANNEL arg w of
                (r, arg, w) \<Rightarrow>
                let w = (if r < 0 then c_print env w else w)
                in Returned (None, h, c_set_errno env open_errno (c_free env subscriber w)))
            else Returned (Some subscriber,
              h\<lparr>hp_managers := (hp_managers h)(mp \<mapsto> m\<lparr>im_active_endpoints := im_active_endpoints m + 1\<rparr>),
                hp_subscribers := (hp_subscribers h)(subscriber \<mapsto>
                  \<lparr>is_manager = mp, is_subscribe_arg = arg, is_fd = fd, is_bytes_received = 0, is_bytes_sent = 0\<rparr>)\<rparr>, w)))))"

definition ivc_subscriber_recv ::
  "'w cenv \<Rightarrow> ptr option \<Rightarrow> bytes option \<Rightarrow> nat \<Rightarrow> ivc_heap \<Rightarrow> 'w \<Rightarrow> (int \<times> bytes option \<times> ivc_heap \<times> 'w) outcome" where
  "ivc_subscriber_recv env subscriber buf count h w =
    (if subscriber = None \<or> buf = None \<or> count = 0 then Returned (- 1, buf, h, fail_with env EINVAL w)
     else if count > INT_MAX then Returned (- 1, buf, h, fail_with env EMSGSIZE w)
     else (case hp_subscribers h (the subscriber) of
       None \<Rightarrow> Freed
     | Some s \<Rightarrow>
       (case c_read env (is_fd s) count w of
         (r, data, w) \<Rightarrow>
         let bytes_received = c_int r; buf = map_option (memcpy_at 0 data) buf in
         if bytes_received < 0 then Returned (bytes_received, buf, h, c_print env w)
         else Returned (bytes_received, buf,
           h\<lparr>hp_subscribers := (hp_subscribers h)(the subscriber \<mapsto>
             s\<lparr>is_bytes_received := is_bytes_received s + word_of_int bytes_received\<rparr>)\<rparr>, w))))"

definition ivc_subscriber_send ::
  "'w cenv \<Rightarrow> ptr option \<Rightarrow> bytes option \<Rightarrow> nat \<Rightarrow> ivc_heap \<Rightarrow> 'w \<Rightarrow> (int \<times> ivc_heap \<times> 'w) outcome" where
  "ivc_subscriber_send env subscriber buf count h w =
    (if subscriber = None \<or> buf = None then Returned (- 1, h, fail_with env EINVAL w)
     else if count = 0 then Returned (- 1, h, fail_with env EOPNOTSUPP w)
     else if count > INT_MAX then Returned (- 1, h, fail_with env EMSGSIZE w)
     else (case hp_subscribers h (the subscriber) of
       None \<Rightarrow> Freed
     | Some s \<Rightarrow>
       (case c_write env (is_fd s) (take count (the buf)) w of
         (r, w) \<Rightarrow>
         let bytes_sent = c_int r in
         if bytes_sent < 0 then Returned (- 1, h, c_print env w)
         else if bytes_sent \<noteq> c_int (int count) then Returned (- 1, h, fail_with env EIO w)
         else Returned (bytes_sent,
           h\<lparr>hp_subscribers := (hp_subscribers h)(the subscriber \<mapsto>
             s\<lparr>is_bytes_sent := is_bytes_sent s + word_of_int bytes_sent\<rparr>)\<rparr>, w))))"

definition ivc_unsubscribe ::
  "'w cenv \<Rightarrow> ptr option \<Rightarrow> ivc_heap \<Rightarrow> 'w \<Rightarrow> (int \<times> ivc_heap \<times> 'w) outcome" where
  "ivc_unsubscribe env subscriber h w =
    (case subscriber of
      None \<Rightarrow> Returned (- 1, h, fail_with env EINVAL w)
    | Some p \<Rightarrow>
      (case hp_subscribers h p of
        None \<Rightarrow> Freed
      | Some s \<Rightarrow>
        (case c_close env (is_fd s) w of
          (r, w) \<Rightarrow>
          let saved_errno = (if r < 0 then Some (c_errno env w) else None);
              w = (if r < 0 then c_print env w else w)
          in (case hp_managers h (is_manager s) of
            None \<Rightarrow> Freed
          | Some m \<Rightarrow>
            (case c_ioctl_subscribe env (im_fd m) IVC_UNSUBSCRIBE_CHANNEL (is_subscribe_arg s) w of
              (r, arg, w) \<Rightarrow>
              let saved_errno = (if r < 0 \<and> saved_errno = None then Some (c_errno env w) else saved_errno);
                  w = (if r < 0 then c_print env w else w)
              in (case ivc_manager_release_endpoint env (Some (is_manager s)) h w of
                Freed \<Rightarrow> Freed
              | Diverged \<Rightarrow> Diverged
              | Returned (r, h, w) \<Rightarrow>
                let saved_errno = (if r < 0 \<and> saved_errno = None then Some (c_errno env w) else saved_errno);
                    w = c_free env p w;
                    h = h\<lparr>hp_subscribers := (hp_subscribers h)(p := None)\<rparr>
                in (case saved_errno of
                     Some e \<Rightarrow> Returned (- 1, h, c_set_errno env e w)
                   | None \<Rightarrow> Returned (0, h, w))))))))"

section \<open>Publishers\<close>

definition ivc_publish ::
  "'w cenv \<Rightarrow> ptr option \<Rightarrow> u64 \<Rightarrow> u64 \<Rightarrow> ivc_heap \<Rightarrow> 'w \<Rightarrow> (ptr option \<times> ivc_heap \<times> 'w) outcome" where
  "ivc_publish env manager channel_key channel_size h w =
    (case ivc_manager_is_valid manager h of
      Freed \<Rightarrow> Freed
    | Diverged \<Rightarrow> Diverged
    | Returned valid \<Rightarrow>
      if \<not> valid then Returned (None, h, fail_with env EINVAL w)
      else (case c_malloc env w of
        (None, w) \<Rightarrow> Returned (None, h, c_print env w)
      | (Some publisher, w) \<Rightarrow>
        let mp = the manager; m = the (hp_managers h mp);
            arg = \<lparr>pa_channel_key = channel_key, pa_channel_size = channel_size,
              pa_device_name = []\<rparr>
        in (case c_ioctl_publish env (im_fd m) IVC_PUBLISH_CHANNEL arg w of
          (r, arg, w) \<Rightarrow>
          if r < 0 then
            let publish_errno = c_errno env w
            in Returned (None, h, c_set_errno env publish_errno (c_free env publisher (c_print env w)))
          else (case c_open env (pa_device_name arg) w of
            (fd, w) \<Rightarrow>
            if fd < 0 then
              let open_errno = c_errno env w; w = c_print env w
              in (case c_ioctl_publish env (im_fd m) IVC_UNPUBLISH_CHANNEL arg w of
                (r, arg, w) \<Rightarrow>
                let w = (if r < 0 then c_print env w else w)
                in Returned (None, h, c_set_errno env open_errno (c_free env publisher w)))
            else Returned (Some publisher,
              h\<lparr>hp_managers := (hp_managers h)(mp \<mapsto> m\<lparr>im_active_endpoints := im_active_endpoints m + 1\<rparr>),
                hp_publishers := (hp_publishers h)(publisher \<mapsto>
                  \<lparr>ip_manager = mp, ip_publish_arg = arg, ip_fd = fd, ip_bytes_received = 0, ip_bytes_sent = 0\<rparr>)\<rparr>, w)))))"

definition ivc_publisher_recv ::
  "'w cenv \<Rightarrow> ptr option \<Rightarrow> bytes option \<Rightarrow> nat \<Rightarrow> ivc_heap \<Rightarrow> 'w \<Rightarrow> (int \<times> bytes option \<times> ivc_heap \<times> 'w) outcome" where
  "ivc_publisher_recv env publisher buf count h w =
    (if publisher = None \<or> buf = None \<or> count = 0 then Returned (- 1, buf, h, fail_with env EINVAL w)
     else if count > INT_MAX then Returned (- 1, buf, h, fail_with env EMSGSIZE w)
     else (case hp_publishers h (the publisher) of
       None \<Rightarrow> Freed
     | Some s \<Rightarrow>
       (case c_read env (ip_fd s) count w of
         (r, data, w) \<Rightarrow>
         let bytes_received = c_int r; buf = map_option (memcpy_at 0 data) buf in
         if bytes_received < 0 then Returned (bytes_received, buf, h, c_print env w)
         else Returned (bytes_received, buf,
           h\<lparr>hp_publishers := (hp_publishers h)(the publisher \<mapsto>
             s\<lparr>ip_bytes_received := ip_bytes_received s + word_of_int bytes_received\<rparr>)\<rparr>, w))))"

definition ivc_publisher_send ::
  "'w cenv \<Rightarrow> ptr option \<Rightarrow> bytes option \<Rightarrow> nat \<Rightarrow> ivc_heap \<Rightarrow> 'w \<Rightarrow> (int \<times> ivc_heap \<times> 'w) outcome" where
  "ivc_publisher_send env publisher buf count h w =
    (if publisher = None \<or> buf = None then Returned (- 1, h, fail_with env EINVAL w)
     else if count = 0 then Returned (- 1, h, fail_with env EOPNOTSUPP w)
     else if count > INT_MAX then Returned (- 1, h, fail_with env EMSGSIZE w)
     else (case hp_publishers h (the publisher) of
       None \<Rightarrow> Freed
     | Some s \<Rightarrow>
       (case c_write env (ip_fd s) (take count (the buf)) w of
         (r, w) \<Rightarrow>
         let bytes_sent = c_int r in
         if bytes_sent < 0 then Returned (- 1, h, c_print env w)
         else if bytes_sent \<noteq> c_int (int count) then Returned (- 1, h, fail_with env EIO w)
         else Returned (bytes_sent,
           h\<lparr>hp_publishers := (hp_publishers h)(the publisher \<mapsto>
             s\<lparr>ip_bytes_sent := ip_bytes_sent s + word_of_int bytes_sent\<rparr>)\<rparr>, w))))"

definition ivc_unpublish ::
  "'w cenv \<Rightarrow> ptr option \<Rightarrow> ivc_heap \<Rightarrow> 'w \<Rightarrow> (int \<times> ivc_heap \<times> 'w) outcome" where
  "ivc_unpublish env publisher h w =
    (case publisher of
      None \<Rightarrow> Returned (- 1, h, fail_with env EINVAL w)
    | Some p \<Rightarrow>
      (case hp_publishers h p of
        None \<Rightarrow> Freed
      | Some s \<Rightarrow>
        (case c_close env (ip_fd s) w of
          (r, w) \<Rightarrow>
          let saved_errno = (if r < 0 then Some (c_errno env w) else None);
              w = (if r < 0 then c_print env w else w)
          in (case hp_managers h (ip_manager s) of
            None \<Rightarrow> Freed
          | Some m \<Rightarrow>
            (case c_ioctl_publish env (im_fd m) IVC_UNPUBLISH_CHANNEL (ip_publish_arg s) w of
              (r, arg, w) \<Rightarrow>
              let saved_errno = (if r < 0 \<and> saved_errno = None then Some (c_errno env w) else saved_errno);
                  w = (if r < 0 then c_print env w else w)
              in (case ivc_manager_release_endpoint env (Some (ip_manager s)) h w of
                Freed \<Rightarrow> Freed
              | Diverged \<Rightarrow> Diverged
              | Returned (r, h, w) \<Rightarrow>
                let saved_errno = (if r < 0 \<and> saved_errno = None then Some (c_errno env w) else saved_errno);
                    w = c_free env p w;
                    h = h\<lparr>hp_publishers := (hp_publishers h)(p := None)\<rparr>
                in (case saved_errno of
                     Some e \<Rightarrow> Returned (- 1, h, c_set_errno env e w)
                   | None \<Rightarrow> Returned (0, h, w))))))))"

end
