(* ===== verification/Axivc_Demo.thy ===== *)
theory Axivc_Demo
  imports Axivc_Ulib Axivc_App_Proto
begin

text \<open>
  The two demo programs, \<^verbatim>\<open>demo/publish.c\<close> and \<^verbatim>\<open>demo/subscribe.c\<close>, as they use the library
  and the application protocol: their loops, and \<open>main\<close> with its arguments and its exit status.
\<close>

section \<open>Arguments\<close>

text \<open>
  \<open>strtoull\<close> and \<open>strtoul\<close> with base 0, which are the same function where \<open>unsigned long\<close> has
  64 bits: white space, a sign, a prefix that selects the base, and the longest run of digits;
  a number out of range gives the largest value.
\<close>

definition c_isspace :: "char \<Rightarrow> bool" where
  "c_isspace c \<longleftrightarrow> c = CHR '' '' \<or> (9 \<le> (of_char c :: nat) \<and> (of_char c :: nat) \<le> 13)"

definition digit_value :: "char \<Rightarrow> nat" where
  "digit_value c = (let n = of_char c in
    if 48 \<le> n \<and> n \<le> 57 then n - 48 else if 97 \<le> n \<and> n \<le> 122 then n - 87
    else if 65 \<le> n \<and> n \<le> 90 then n - 55 else 36)"

definition strtoull :: "string \<Rightarrow> u64" where
  "strtoull s =
    (let s = dropWhile c_isspace s;
         neg = (s \<noteq> [] \<and> hd s = CHR ''-'');
         s = (if s \<noteq> [] \<and> (hd s = CHR ''-'' \<or> hd s = CHR ''+'') then tl s else s);
         hex = (length s > 2 \<and> hd s = CHR ''0'' \<and> (s ! 1 = CHR ''x'' \<or> s ! 1 = CHR ''X'') \<and> digit_value (s ! 2) < 16);
         base = (if hex then 16 else if s \<noteq> [] \<and> hd s = CHR ''0'' then 8 else 10);
         s = (if hex then drop 2 s else s);
         value = foldl (\<lambda>acc c. acc * base + digit_value c) 0 (takeWhile (\<lambda>c. digit_value c < base) s)
     in if value \<ge> 2 ^ 64 then - 1 else if neg then - of_nat value else of_nat value)"

section \<open>The publisher\<close>

definition DEFAULT_CHANNEL_SIZE :: u64 where "DEFAULT_CHANNEL_SIZE = 0x10000"
definition POLL_INTERVAL_US :: nat where "POLL_INTERVAL_US = 10000"
definition MAX_EMPTY_POLLS :: u64 where "MAX_EMPTY_POLLS = 3000"

record 'w demo_env =
  dm_libc :: "'w cenv"
  dm_usleep :: "nat \<Rightarrow> 'w \<Rightarrow> 'w"

text \<open>A message on the standard output or the standard error.\<close>

definition say :: "'w demo_env \<Rightarrow> 'w \<Rightarrow> 'w" where "say env = c_print (dm_libc env)"

definition blank_message :: ivc_app_message where
  "blank_message = \<lparr>am_kind = 0, am_sequence = 0, am_body = [], am_body_len = 0\<rparr>"

function send_requests_from ::
  "'w demo_env \<Rightarrow> ptr \<Rightarrow> nat \<Rightarrow> bytes \<Rightarrow> ivc_heap \<Rightarrow> 'w \<Rightarrow> (int \<times> ivc_heap \<times> 'w) outcome" where
  "send_requests_from env publisher index buf h w =
    (if index < IVC_APP_REQUEST_COUNT then
       let sequence = of_nat (index + 1); message_len = ivc_app_request_lengths ! index in
       (case ivc_app_encode_pattern (Some buf) message_len IVC_APP_MESSAGE_REQUEST sequence of
         (ok, buf) \<Rightarrow>
         if \<not> ok then Returned (- 1, h, say env w)
         else (case ivc_publisher_send (dm_libc env) (Some publisher) buf message_len h w of
           Freed \<Rightarrow> Freed
         | Diverged \<Rightarrow> Diverged
         | Returned (n, h, w) \<Rightarrow>
           if n \<noteq> c_int (int message_len) then Returned (- 1, h, say env w)
           else send_requests_from env publisher (index + 1) (the buf) h (say env w)))
     else Returned (0, h, w))"
  by pat_completeness auto
termination by (relation "measure (\<lambda>(env, publisher, index, buf, h, w). IVC_APP_REQUEST_COUNT - index)") auto

declare send_requests_from.simps [simp del]

text \<open>The array of a function starts with arbitrary contents, which it never reads.\<close>

definition send_requests :: "'w demo_env \<Rightarrow> ptr \<Rightarrow> ivc_heap \<Rightarrow> 'w \<Rightarrow> (int \<times> ivc_heap \<times> 'w) outcome" where
  "send_requests env publisher h w = send_requests_from env publisher 0 (replicate IVC_APP_MAX_MESSAGE_LEN 0) h w"

definition polls_left :: "u64 \<Rightarrow> nat" where
  "polls_left n = (if n > MAX_EMPTY_POLLS then unat MAX_EMPTY_POLLS + 2 else unat MAX_EMPTY_POLLS + 1 - unat n)"

lemma unat_Suc: "unat n < k \<Longrightarrow> k < 2 ^ 64 \<Longrightarrow> unat (n + 1 :: u64) = unat n + 1"
  using unat_add_no_wrap[of n 1] by simp

lemma polls_left_step: "\<not> MAX_EMPTY_POLLS < n + 1 \<Longrightarrow> polls_left (n + 1) < polls_left n"
proof -
  assume a: "\<not> MAX_EMPTY_POLLS < n + 1"
  show ?thesis
  proof (cases "n > MAX_EMPTY_POLLS")
    case True
    then show ?thesis using a by (simp add: polls_left_def)
  next
    case False
    then have "unat n < 3001" by (simp add: MAX_EMPTY_POLLS_def not_less word_le_nat_alt)
    then have "unat (n + 1) = unat n + 1" by (rule unat_Suc) simp
    then show ?thesis using a False by (auto simp: polls_left_def MAX_EMPTY_POLLS_def not_less word_le_nat_alt word_less_nat_alt)
  qed
qed

function receive_replies_loop ::
  "'w demo_env \<Rightarrow> ptr \<Rightarrow> bytes \<Rightarrow> u64 \<Rightarrow> u64 \<Rightarrow> u64 \<Rightarrow> ivc_heap \<Rightarrow> 'w \<Rightarrow> (int \<times> ivc_heap \<times> 'w) outcome" where
  "receive_replies_loop env publisher buf expected_ack_sequence expected_data_sequence empty_polls h w =
    (if expected_ack_sequence \<le> of_nat IVC_APP_REQUEST_COUNT then
       (case ivc_publisher_recv (dm_libc env) (Some publisher) (Some buf) IVC_APP_MAX_MESSAGE_LEN h w of
         Freed \<Rightarrow> Freed
       | Diverged \<Rightarrow> Diverged
       | Returned (bytes_read, buf', h, w) \<Rightarrow>
         let buf = the buf' in
         if bytes_read < 0 then Returned (- 1, h, say env w)
         else if bytes_read = 0 then
           let empty_polls = empty_polls + 1 in
           if empty_polls > MAX_EMPTY_POLLS then Returned (- 1, h, say env w)
           else receive_replies_loop env publisher buf expected_ack_sequence expected_data_sequence empty_polls h
             (dm_usleep env POLL_INTERVAL_US w)
         else
           (case ivc_app_decode (Some buf) (nat bytes_read) (Some blank_message) of
             (ok, message') \<Rightarrow>
             let message = the message' in
             if \<not> ok then Returned (- 1, h, say env w)
             else if am_kind message = IVC_APP_MESSAGE_ACK then
               if am_sequence message \<noteq> expected_ack_sequence \<or>
                  \<not> ivc_app_ack_body_is_valid (Some (am_body message)) (am_body_len message)
               then Returned (- 1, h, say env w)
               else if expected_ack_sequence = of_nat IVC_APP_REQUEST_COUNT \<and>
                  expected_data_sequence \<noteq> of_nat (IVC_APP_DATA_COUNT + 1)
               then Returned (- 1, h, say env w)
               else receive_replies_loop env publisher buf (expected_ack_sequence + 1) expected_data_sequence 0 h (say env w)
             else if am_kind message = IVC_APP_MESSAGE_DATA then
               if expected_data_sequence > of_nat IVC_APP_DATA_COUNT then Returned (- 1, h, say env w)
               else
                 let index = unat (expected_data_sequence - 1);
                     expected_len = ivc_app_data_lengths ! index in
                 if \<not> ivc_app_validate_pattern (Some message) IVC_APP_MESSAGE_DATA expected_data_sequence expected_len
                 then Returned (- 1, h, say env w)
                 else receive_replies_loop env publisher buf expected_ack_sequence (expected_data_sequence + 1) 0 h (say env w)
             else Returned (- 1, h, say env w)))
     else Returned (0, h, w))"
  by pat_completeness auto
termination
proof (relation "measures [\<lambda>(env, publisher, buf, ack, data, empty_polls, h, w). (6 - unat ack) + (4 - unat data),
    \<lambda>(env, publisher, buf, ack, data, empty_polls, h, w). polls_left empty_polls]", goal_cases)
  case 1
  then show ?case by simp
next
  case (2 env publisher buf ack data empty_polls h w r r1 r2 r3 r4 r5 r6)
  then show ?case using polls_left_step[of empty_polls] by simp
next
  case (3 env publisher buf ack data)
  then have "unat ack < 6" by (simp add: IVC_APP_REQUEST_COUNT_def word_le_nat_alt)
  moreover from this have "unat (ack + 1) = unat ack + 1" by (rule unat_Suc) simp
  ultimately show ?case by (intro measures_less) auto
next
  case (4 env publisher buf ack data)
  then have "unat data < 4" by (simp add: IVC_APP_DATA_COUNT_def not_less word_le_nat_alt)
  moreover from this have "unat (data + 1) = unat data + 1" by (rule unat_Suc) simp
  ultimately show ?case by (intro measures_less) auto
qed

declare receive_replies_loop.simps [simp del]

definition receive_replies :: "'w demo_env \<Rightarrow> ptr \<Rightarrow> ivc_heap \<Rightarrow> 'w \<Rightarrow> (int \<times> ivc_heap \<times> 'w) outcome" where
  "receive_replies env publisher h w =
    receive_replies_loop env publisher (replicate IVC_APP_MAX_MESSAGE_LEN 0) 1 1 0 h w"

text \<open>The end of \<open>main\<close>, from the label \<open>close_manager\<close>, which both programs have.\<close>

definition close_and_report :: "'w demo_env \<Rightarrow> ptr \<Rightarrow> int \<Rightarrow> ivc_heap \<Rightarrow> 'w \<Rightarrow> (int \<times> ivc_heap \<times> 'w) outcome" where
  "close_and_report env manager ret h w =
    (case ivc_close_manager (dm_libc env) (Some manager) h w of
      Freed \<Rightarrow> Freed
    | Diverged \<Rightarrow> Diverged
    | Returned (r, h, w) \<Rightarrow>
      let w = (if r < 0 then say env w else w);
          ret = (if r < 0 then 5 else ret);
          w = (if ret = 0 then say env w else w)
      in Returned (ret, h, say env w))"

definition publish_main :: "'w demo_env \<Rightarrow> string list \<Rightarrow> ivc_heap \<Rightarrow> 'w \<Rightarrow> (int \<times> ivc_heap \<times> 'w) outcome" where
  "publish_main env argv h w =
    (if length argv < 2 \<or> length argv > 3 then Returned (1, h, say env w)
     else
       let channel_key = strtoull (argv ! 1);
           channel_size = (if length argv = 3 then strtoull (argv ! 2) else DEFAULT_CHANNEL_SIZE) in
       (case ivc_open_manager (dm_libc env) h w of
         Freed \<Rightarrow> Freed
       | Diverged \<Rightarrow> Diverged
       | Returned (None, h, w) \<Rightarrow> Returned (1, h, say env w)
       | Returned (Some manager, h, w) \<Rightarrow>
         (case ivc_publish (dm_libc env) (Some manager) channel_key channel_size h w of
           Freed \<Rightarrow> Freed
         | Diverged \<Rightarrow> Diverged
         | Returned (None, h, w) \<Rightarrow> close_and_report env manager 2 h (say env w)
         | Returned (Some publisher, h, w) \<Rightarrow>
           (case (case send_requests env publisher h w of
               Returned (r, h, w) \<Rightarrow>
                 if r \<noteq> 0 then Returned (3, h, w)
                 else (case receive_replies env publisher h w of
                   Returned (r, h, w) \<Rightarrow> Returned (if r \<noteq> 0 then 3 else 0, h, w)
                 | Diverged \<Rightarrow> Diverged | Freed \<Rightarrow> Freed)
             | Diverged \<Rightarrow> Diverged | Freed \<Rightarrow> Freed) of
             Freed \<Rightarrow> Freed
           | Diverged \<Rightarrow> Diverged
           | Returned (ret, h, w) \<Rightarrow>
             (case ivc_unpublish (dm_libc env) (Some publisher) h w of
               Freed \<Rightarrow> Freed
             | Diverged \<Rightarrow> Diverged
             | Returned (r, h, w) \<Rightarrow>
               close_and_report env manager (if r < 0 then 4 else ret) h (if r < 0 then say env w else w))))))"
section \<open>The subscriber\<close>

definition ACK_BODY :: bytes where "ACK_BODY = ascii ''ack from linux subscriber''"

function send_data_messages_from ::
  "'w demo_env \<Rightarrow> ptr \<Rightarrow> nat \<Rightarrow> bytes \<Rightarrow> ivc_heap \<Rightarrow> 'w \<Rightarrow> (int \<times> ivc_heap \<times> 'w) outcome" where
  "send_data_messages_from env subscriber index buf h w =
    (if index < IVC_APP_DATA_COUNT then
       let sequence = of_nat (index + 1); message_len = ivc_app_data_lengths ! index in
       (case ivc_app_encode_pattern (Some buf) message_len IVC_APP_MESSAGE_DATA sequence of
         (ok, buf) \<Rightarrow>
         if \<not> ok then Returned (- 1, h, say env w)
         else (case ivc_subscriber_send (dm_libc env) (Some subscriber) buf message_len h w of
           Freed \<Rightarrow> Freed
         | Diverged \<Rightarrow> Diverged
         | Returned (n, h, w) \<Rightarrow>
           if n \<noteq> c_int (int message_len) then Returned (- 1, h, say env w)
           else send_data_messages_from env subscriber (index + 1) (the buf) h (say env w)))
     else Returned (0, h, w))"
  by pat_completeness auto
termination by (relation "measure (\<lambda>(env, subscriber, index, buf, h, w). IVC_APP_DATA_COUNT - index)") auto

declare send_data_messages_from.simps [simp del]

definition send_data_messages :: "'w demo_env \<Rightarrow> ptr \<Rightarrow> ivc_heap \<Rightarrow> 'w \<Rightarrow> (int \<times> ivc_heap \<times> 'w) outcome" where
  "send_data_messages env subscriber h w =
    send_data_messages_from env subscriber 0 (replicate IVC_APP_MAX_MESSAGE_LEN 0) h w"

definition send_ack :: "'w demo_env \<Rightarrow> ptr \<Rightarrow> u64 \<Rightarrow> ivc_heap \<Rightarrow> 'w \<Rightarrow> (int \<times> ivc_heap \<times> 'w) outcome" where
  "send_ack env subscriber sequence h w =
    (let capacity = IVC_APP_HEADER_LEN + length ACK_BODY in
     case ivc_app_encode_text (Some (replicate capacity 0)) capacity IVC_APP_MESSAGE_ACK sequence (Some ACK_BODY)
       (length ACK_BODY) (Some 0) of
       (ok, buf, message_len') \<Rightarrow>
       let message_len = the message_len' in
       if \<not> ok then Returned (- 1, h, say env w)
       else (case ivc_subscriber_send (dm_libc env) (Some subscriber) buf message_len h w of
         Freed \<Rightarrow> Freed
       | Diverged \<Rightarrow> Diverged
       | Returned (n, h, w) \<Rightarrow>
         if n \<noteq> c_int (int message_len) then Returned (- 1, h, say env w)
         else Returned (0, h, say env w)))"

function receive_requests_loop ::
  "'w demo_env \<Rightarrow> ptr \<Rightarrow> bytes \<Rightarrow> nat \<Rightarrow> u64 \<Rightarrow> ivc_heap \<Rightarrow> 'w \<Rightarrow> (int \<times> ivc_heap \<times> 'w) outcome" where
  "receive_requests_loop env subscriber buf received empty_polls h w =
    (if received < IVC_APP_REQUEST_COUNT then
       let expected_sequence = of_nat (received + 1); expected_len = ivc_app_request_lengths ! received in
       (case ivc_subscriber_recv (dm_libc env) (Some subscriber) (Some buf) IVC_APP_MAX_MESSAGE_LEN h w of
         Freed \<Rightarrow> Freed
       | Diverged \<Rightarrow> Diverged
       | Returned (bytes_read, buf', h, w) \<Rightarrow>
         let buf = the buf' in
         if bytes_read < 0 then Returned (- 1, h, say env w)
         else if bytes_read = 0 then
           let empty_polls = empty_polls + 1 in
           if empty_polls > MAX_EMPTY_POLLS then Returned (- 1, h, say env w)
           else receive_requests_loop env subscriber buf received empty_polls h (dm_usleep env POLL_INTERVAL_US w)
         else
           (case ivc_app_decode (Some buf) (nat bytes_read) (Some blank_message) of
             (ok, message) \<Rightarrow>
             if \<not> ok \<or> \<not> ivc_app_validate_pattern message IVC_APP_MESSAGE_REQUEST expected_sequence expected_len
             then Returned (- 1, h, say env w)
             else (case send_ack env subscriber (am_sequence (the message)) h (say env w) of
               Freed \<Rightarrow> Freed
             | Diverged \<Rightarrow> Diverged
             | Returned (r, h, w) \<Rightarrow>
               if r \<noteq> 0 then Returned (- 1, h, w)
               else receive_requests_loop env subscriber buf (received + 1) 0 h w)))
     else Returned (0, h, w))"
  by pat_completeness auto
termination
  by (relation "measures [\<lambda>(env, subscriber, buf, received, empty_polls, h, w). IVC_APP_REQUEST_COUNT - received,
      \<lambda>(env, subscriber, buf, received, empty_polls, h, w). polls_left empty_polls]")
    (auto dest: polls_left_step)

declare receive_requests_loop.simps [simp del]

definition receive_requests :: "'w demo_env \<Rightarrow> ptr \<Rightarrow> ivc_heap \<Rightarrow> 'w \<Rightarrow> (int \<times> ivc_heap \<times> 'w) outcome" where
  "receive_requests env subscriber h w =
    receive_requests_loop env subscriber (replicate IVC_APP_MAX_MESSAGE_LEN 0) 0 0 h w"

definition subscribe_main :: "'w demo_env \<Rightarrow> string list \<Rightarrow> ivc_heap \<Rightarrow> 'w \<Rightarrow> (int \<times> ivc_heap \<times> 'w) outcome" where
  "subscribe_main env argv h w =
    (if length argv \<noteq> 3 \<and> length argv \<noteq> 4 then Returned (1, h, say env w)
     else
       let target_publisher_id = strtoull (argv ! 1);
           channel_key = strtoull (argv ! 2);
           target_count = (if length argv = 4 then strtoull (argv ! 3) else of_nat IVC_APP_REQUEST_COUNT) in
       if target_count \<noteq> of_nat IVC_APP_REQUEST_COUNT then Returned (1, h, say env w)
       else
         (case ivc_open_manager (dm_libc env) h w of
           Freed \<Rightarrow> Freed
         | Diverged \<Rightarrow> Diverged
         | Returned (None, h, w) \<Rightarrow> Returned (1, h, say env w)
         | Returned (Some manager, h, w) \<Rightarrow>
           (case ivc_subscribe (dm_libc env) (Some manager) target_publisher_id channel_key h w of
             Freed \<Rightarrow> Freed
           | Diverged \<Rightarrow> Diverged
           | Returned (None, h, w) \<Rightarrow> close_and_report env manager 2 h (say env w)
           | Returned (Some subscriber, h, w) \<Rightarrow>
             (case (case send_data_messages env subscriber h w of
                 Returned (r, h, w) \<Rightarrow>
                   if r \<noteq> 0 then Returned (3, h, w)
                   else (case receive_requests env subscriber h w of
                     Returned (r, h, w) \<Rightarrow> Returned (if r \<noteq> 0 then 3 else 0, h, w)
                   | Diverged \<Rightarrow> Diverged | Freed \<Rightarrow> Freed)
               | Diverged \<Rightarrow> Diverged | Freed \<Rightarrow> Freed) of
               Freed \<Rightarrow> Freed
             | Diverged \<Rightarrow> Diverged
             | Returned (ret, h, w) \<Rightarrow>
               (case ivc_unsubscribe (dm_libc env) (Some subscriber) h w of
                 Freed \<Rightarrow> Freed
               | Diverged \<Rightarrow> Diverged
               | Returned (r, h, w) \<Rightarrow>
                 close_and_report env manager (if r < 0 then 4 else ret) h (if r < 0 then say env w else w))))))"

end
