(* ===== verification/Axivc_Session.thy ===== *)
theory Axivc_Session
  imports Axivc_Ulib "HOL-Library.Multiset"
begin

text \<open>
  What the user space library promises to a process: handles are never used after they are
  freed, a manager outlives its endpoints, and memory, descriptors and channels are given back.
\<close>

section \<open>The C library and the kernel\<close>

datatype resource = U_Mem ptr | U_Fd int | U_Pub u64 | U_Sub u64 u64

text \<open>
  \<open>live\<close> is what the process holds. Fresh memory is not null and not in use; \<open>close\<close> releases
  the descriptor also when it reports an error; an ioctl that fails changes nothing, and the
  kernel gives the key of a channel back as it got it.
\<close>

definition errno_ok :: "'w cenv \<Rightarrow> ('w \<Rightarrow> resource multiset) \<Rightarrow> bool" where
  "errno_ok env live \<longleftrightarrow>
    (\<forall>e w. c_errno env (c_set_errno env e w) = e \<and> live (c_set_errno env e w) = live w) \<and>
    (\<forall>w. live (c_print env w) = live w)"

definition memory_ok :: "'w cenv \<Rightarrow> ('w \<Rightarrow> resource multiset) \<Rightarrow> bool" where
  "memory_ok env live \<longleftrightarrow>
    (\<forall>w w'. c_malloc env w = (None, w') \<longrightarrow> live w' = live w) \<and>
    (\<forall>w p w'. c_malloc env w = (Some p, w') \<longrightarrow> p \<noteq> 0 \<and> U_Mem p \<notin># live w \<and> live w' = add_mset (U_Mem p) (live w)) \<and>
    (\<forall>p w. live (c_free env p w) = live w - {#U_Mem p#})"

definition files_ok :: "'w cenv \<Rightarrow> ('w \<Rightarrow> resource multiset) \<Rightarrow> bool" where
  "files_ok env live \<longleftrightarrow>
    (\<forall>path w fd w'. c_open env path w = (fd, w') \<longrightarrow> live w' = (if fd < 0 then live w else add_mset (U_Fd fd) (live w))) \<and>
    (\<forall>fd w r w'. c_close env fd w = (r, w') \<longrightarrow> live w' = live w - {#U_Fd fd#}) \<and>
    (\<forall>fd n w r data w'. c_read env fd n w = (r, data, w') \<longrightarrow> live w' = live w) \<and>
    (\<forall>fd data w r w'. c_write env fd data w = (r, w') \<longrightarrow> live w' = live w)"

definition channels_ok :: "'w cenv \<Rightarrow> ('w \<Rightarrow> resource multiset) \<Rightarrow> bool" where
  "channels_ok env live \<longleftrightarrow>
    (\<forall>fd a w r a' w'. c_ioctl_publish env fd IVC_PUBLISH_CHANNEL a w = (r, a', w') \<longrightarrow> pa_channel_key a' = pa_channel_key a \<and>
      live w' = (if r < 0 then live w else add_mset (U_Pub (pa_channel_key a)) (live w))) \<and>
    (\<forall>fd a w r a' w'. c_ioctl_publish env fd IVC_UNPUBLISH_CHANNEL a w = (r, a', w') \<longrightarrow>
      live w' = (if r < 0 then live w else live w - {#U_Pub (pa_channel_key a)#})) \<and>
    (\<forall>fd a w r a' w'. c_ioctl_subscribe env fd IVC_SUBSCRIBE_CHANNEL a w = (r, a', w') \<longrightarrow>
      sa_target_publisher_id a' = sa_target_publisher_id a \<and> sa_channel_key a' = sa_channel_key a \<and>
      live w' = (if r < 0 then live w else add_mset (U_Sub (sa_target_publisher_id a) (sa_channel_key a)) (live w))) \<and>
    (\<forall>fd a w r a' w'. c_ioctl_subscribe env fd IVC_UNSUBSCRIBE_CHANNEL a w = (r, a', w') \<longrightarrow>
      live w' = (if r < 0 then live w else live w - {#U_Sub (sa_target_publisher_id a) (sa_channel_key a)#}))"

definition libc_ok :: "'w cenv \<Rightarrow> ('w \<Rightarrow> resource multiset) \<Rightarrow> bool" where
  "libc_ok env live \<longleftrightarrow> errno_ok env live \<and> memory_ok env live \<and> files_ok env live \<and> channels_ok env live"

lemma libc_state:
  assumes "libc_ok env live"
  shows "c_errno env (c_set_errno env e w) = e" "live (c_set_errno env e w) = live w" "live (c_print env w) = live w"
    "live (fail_with env e w) = live w" "live (c_free env p w) = live w - {#U_Mem p#}"
  using assms by (simp_all add: libc_ok_def errno_ok_def memory_ok_def fail_with_def)

lemma libc_malloc:
  assumes "libc_ok env live" "c_malloc env w = (r, w')"
  shows "case r of None \<Rightarrow> live w' = live w
    | Some p \<Rightarrow> p \<noteq> 0 \<and> U_Mem p \<notin># live w \<and> live w' = add_mset (U_Mem p) (live w)"
  using assms by (cases r) (simp_all add: libc_ok_def memory_ok_def)

lemma libc_files:
  assumes "libc_ok env live"
  shows "c_open env path w = (fd, w') \<Longrightarrow> live w' = (if fd < 0 then live w else add_mset (U_Fd fd) (live w))"
    "c_close env fd w = (r, w') \<Longrightarrow> live w' = live w - {#U_Fd fd#}"
    "c_read env fd n w = (r, data, w') \<Longrightarrow> live w' = live w"
    "c_write env fd data w = (r, w') \<Longrightarrow> live w' = live w"
  using assms unfolding libc_ok_def files_ok_def by blast+

lemma libc_channels:
  assumes "libc_ok env live"
  shows "c_ioctl_publish env fd IVC_PUBLISH_CHANNEL a w = (r, a', w') \<Longrightarrow> pa_channel_key a' = pa_channel_key a \<and>
      live w' = (if r < 0 then live w else add_mset (U_Pub (pa_channel_key a)) (live w))"
    "c_ioctl_publish env fd IVC_UNPUBLISH_CHANNEL a w = (r, a', w') \<Longrightarrow>
      live w' = (if r < 0 then live w else live w - {#U_Pub (pa_channel_key a)#})"
    "c_ioctl_subscribe env fd IVC_SUBSCRIBE_CHANNEL b w = (r, b', w') \<Longrightarrow>
      sa_target_publisher_id b' = sa_target_publisher_id b \<and> sa_channel_key b' = sa_channel_key b \<and>
      live w' = (if r < 0 then live w else add_mset (U_Sub (sa_target_publisher_id b) (sa_channel_key b)) (live w))"
    "c_ioctl_subscribe env fd IVC_UNSUBSCRIBE_CHANNEL b w = (r, b', w') \<Longrightarrow>
      live w' = (if r < 0 then live w else live w - {#U_Sub (sa_target_publisher_id b) (sa_channel_key b)#})"
  using assms unfolding libc_ok_def channels_ok_def by (metis, metis, metis, metis)

section \<open>What each call does\<close>

definition bump :: "ptr \<Rightarrow> u64 \<Rightarrow> ivc_heap \<Rightarrow> ivc_heap" where
  "bump mp d h = h\<lparr>hp_managers := (hp_managers h)(mp := map_option (\<lambda>m. m\<lparr>im_active_endpoints := im_active_endpoints m + d\<rparr>) (hp_managers h mp))\<rparr>"

lemma open_effect:
  assumes "libc_ok env live"
  obtains (refused) w' where "ivc_open_manager env h w = Returned (None, h, w')" "live w' = live w"
  | (opened) p fd w' where "ivc_open_manager env h w =
      Returned (Some p, h\<lparr>hp_managers := (hp_managers h)(p \<mapsto> \<lparr>im_fd = fd, im_active_endpoints = 0\<rparr>)\<rparr>, w')"
      "0 \<le> fd" "p \<noteq> 0" "U_Mem p \<notin># live w" "live w' = {#U_Fd fd, U_Mem p#} + live w"
proof -
  obtain r w1 where a: "c_malloc env w = (r, w1)" by fastforce
  obtain fd w2 where b: "c_open env IVC_DEV_PATH w1 = (fd, w2)" by fastforce
  note l = libc_malloc[OF assms a] libc_files(1)[OF assms b] libc_state[OF assms]
  show thesis
  proof (cases r)
    case None
    with a l show thesis by (intro refused[of "c_print env w1"]) (simp_all add: ivc_open_manager_def)
  next
    case (Some p)
    show thesis
    proof (cases "fd < 0")
      case True
      with Some a b l show thesis
        by (intro refused[of "c_set_errno env (c_errno env w2) (c_free env p (c_print env w2))"]) (simp_all add: ivc_open_manager_def)
    next
      case False
      with Some a b l show thesis by (intro opened[of p fd w2]) (simp_all add: ivc_open_manager_def)
    qed
  qed
qed

lemma close_effect:
  assumes "libc_ok env live" "hp_managers h mp = Some m" "0 \<le> im_fd m"
  obtains (busy) w' where "ivc_close_manager env (Some mp) h w = Returned (- 1, h, w')" "im_active_endpoints m \<noteq> 0"
      "w' = fail_with env EBUSY w" "live w' = live w"
  | (closed) r w' where "ivc_close_manager env (Some mp) h w = Returned (r, h\<lparr>hp_managers := (hp_managers h)(mp := None)\<rparr>, w')"
      "im_active_endpoints m = 0" "live w' = live w - {#U_Fd (im_fd m), U_Mem mp#}"
      "r = (if fst (c_close env (im_fd m) w) < 0 then - 1 else 0)"
      "r < 0 \<Longrightarrow> c_errno env w' = c_errno env (snd (c_close env (im_fd m) w))"
proof -
  obtain r w1 where a: "c_close env (im_fd m) w = (r, w1)" by fastforce
  note l = libc_files(2)[OF assms(1) a] libc_state[OF assms(1)]
  show thesis
  proof (cases "im_active_endpoints m = 0")
    case True
    with assms(2,3) a l show thesis
      by (cases "r < 0") (auto intro!: closed simp: ivc_close_manager_def ivc_manager_is_valid_def Let_def add_mset_commute)
  next
    case False
    with assms(2,3) l show thesis
      by (intro busy[of "fail_with env EBUSY w"]) (simp_all add: ivc_close_manager_def ivc_manager_is_valid_def Let_def)
  qed
qed

text \<open>
  Creating an endpoint: \<open>chan\<close> is the channel it asks for and \<open>add\<close> stores the object. What is
  left behind is the channel, when the kernel refuses to take it back after a failed open.
\<close>

definition unpublish_ioctl_refused :: "'w cenv \<Rightarrow> u64 \<Rightarrow> bool" where
  "unpublish_ioctl_refused env key \<longleftrightarrow>
    (\<exists>fd a w. pa_channel_key a = key \<and> fst (c_ioctl_publish env fd IVC_UNPUBLISH_CHANNEL a w) < 0)"

definition unsubscribe_ioctl_refused :: "'w cenv \<Rightarrow> u64 \<Rightarrow> u64 \<Rightarrow> bool" where
  "unsubscribe_ioctl_refused env publisher_id key \<longleftrightarrow>
    (\<exists>fd a w. sa_target_publisher_id a = publisher_id \<and> sa_channel_key a = key \<and>
      fst (c_ioctl_subscribe env fd IVC_UNSUBSCRIBE_CHANNEL a w) < 0)"

lemma refusedI:
  "c_ioctl_publish env fd IVC_UNPUBLISH_CHANNEL a w = (r, a', w') \<Longrightarrow> r < 0 \<Longrightarrow>
    unpublish_ioctl_refused env (pa_channel_key a)"
  "c_ioctl_subscribe env fd IVC_UNSUBSCRIBE_CHANNEL b w = (r, b', w') \<Longrightarrow> r < 0 \<Longrightarrow>
    unsubscribe_ioctl_refused env (sa_target_publisher_id b) (sa_channel_key b)"
  unfolding unpublish_ioctl_refused_def unsubscribe_ioctl_refused_def by (metis fst_conv)+

definition created ::
  "bool \<Rightarrow> ('w \<Rightarrow> resource multiset) \<Rightarrow> ptr \<Rightarrow> resource \<Rightarrow> (ptr \<Rightarrow> int \<Rightarrow> ivc_heap \<Rightarrow> ivc_heap \<Rightarrow> bool) \<Rightarrow>
    ivc_heap \<Rightarrow> 'w \<Rightarrow> ptr option \<times> ivc_heap \<times> 'w \<Rightarrow> bool" where
  "created refused live mp chan stored h w = (\<lambda>(res, h', w').
    (case res of
      None \<Rightarrow> h' = h \<and> (live w' = live w \<or> refused \<and> live w' = add_mset chan (live w))
    | Some p \<Rightarrow> p \<noteq> 0 \<and> U_Mem p \<notin># live w \<and>
        (\<exists>fd\<ge>0. stored p fd (bump mp 1 h) h' \<and> live w' = {#chan, U_Fd fd, U_Mem p#} + live w)))"

definition stored_sub :: "u64 \<Rightarrow> u64 \<Rightarrow> ptr \<Rightarrow> ptr \<Rightarrow> int \<Rightarrow> ivc_heap \<Rightarrow> ivc_heap \<Rightarrow> bool" where
  "stored_sub publisher_id key mp p fd h h' \<longleftrightarrow> (\<exists>s. is_manager s = mp \<and> is_fd s = fd \<and>
    sa_target_publisher_id (is_subscribe_arg s) = publisher_id \<and> sa_channel_key (is_subscribe_arg s) = key \<and>
    is_bytes_received s = 0 \<and> is_bytes_sent s = 0 \<and> h' = h\<lparr>hp_subscribers := (hp_subscribers h)(p \<mapsto> s)\<rparr>)"

definition stored_pub :: "u64 \<Rightarrow> ptr \<Rightarrow> ptr \<Rightarrow> int \<Rightarrow> ivc_heap \<Rightarrow> ivc_heap \<Rightarrow> bool" where
  "stored_pub key mp p fd h h' \<longleftrightarrow> (\<exists>s. ip_manager s = mp \<and> ip_fd s = fd \<and> pa_channel_key (ip_publish_arg s) = key \<and>
    ip_bytes_received s = 0 \<and> ip_bytes_sent s = 0 \<and> h' = h\<lparr>hp_publishers := (hp_publishers h)(p \<mapsto> s)\<rparr>)"

lemma stored_pub_new:
  assumes "hp_managers h mp = Some m" "pa_channel_key arg = key"
  shows "stored_pub key mp p fd (bump mp 1 h)
    (h\<lparr>hp_managers := (hp_managers h)(mp \<mapsto> m\<lparr>im_active_endpoints := im_active_endpoints m + 1\<rparr>),
      hp_publishers := (hp_publishers h)(p \<mapsto>
        \<lparr>ip_manager = mp, ip_publish_arg = arg, ip_fd = fd, ip_bytes_received = 0, ip_bytes_sent = 0\<rparr>)\<rparr>)"
  unfolding stored_pub_def
  by (rule exI[of _ "\<lparr>ip_manager = mp, ip_publish_arg = arg, ip_fd = fd, ip_bytes_received = 0, ip_bytes_sent = 0\<rparr>"])
    (simp add: assms bump_def)

lemma publish_effect:
  assumes "libc_ok env live" "hp_managers h mp = Some m" "0 \<le> im_fd m"
  shows "\<exists>r. ivc_publish env (Some mp) key sz h w = Returned r \<and>
    created (unpublish_ioctl_refused env key) live mp (U_Pub key) (stored_pub key mp) h w r"
proof -
  define a0 where "a0 = \<lparr>pa_channel_key = key, pa_channel_size = sz, pa_device_name = []\<rparr>"
  obtain r1 w1 where a: "c_malloc env w = (r1, w1)" by fastforce
  obtain r2 a2 w2 where b: "c_ioctl_publish env (im_fd m) IVC_PUBLISH_CHANNEL a0 w1 = (r2, a2, w2)" by (metis prod_cases3)
  obtain fd w3 where c: "c_open env (pa_device_name a2) w2 = (fd, w3)" by fastforce
  obtain r4 a4 w4 where d: "c_ioctl_publish env (im_fd m) IVC_UNPUBLISH_CHANNEL a2 (c_print env w3) = (r4, a4, w4)"
    by (metis prod_cases3)
  note l = libc_malloc[OF assms(1) a] libc_channels(1)[OF assms(1) b] libc_files(1)[OF assms(1) c]
    libc_channels(2)[OF assms(1) d] refusedI(1)[OF d] libc_state[OF assms(1)]
  note run = assms(2,3) a b c d
  show ?thesis
  proof (cases r1)
    case None
    with run l show ?thesis by (simp add: ivc_publish_def ivc_manager_is_valid_def created_def)
  next
    case (Some p)
    show ?thesis
    proof (cases "r2 < 0 \<or> fd < 0")
      case True
      with Some run l show ?thesis
        by (simp add: ivc_publish_def ivc_manager_is_valid_def a0_def[symmetric] Let_def created_def)
          (auto simp: a0_def)
    next
      case False
      with Some run l show ?thesis
        by (simp add: ivc_publish_def ivc_manager_is_valid_def a0_def[symmetric] Let_def created_def stored_pub_new)
          (simp add: a0_def add_mset_commute stored_pub_new)
    qed
  qed
qed

text \<open>
  A publish that fails, by the calls it makes: no memory, or the kernel refused the channel,
  or its device could not be opened and the channel was handed back. \<open>errno\<close> is that of the
  call that failed, and the channel stays only if the kernel refused to take it back.
\<close>

definition ivc_publish_failed ::
  "'w cenv \<Rightarrow> ('w \<Rightarrow> resource multiset) \<Rightarrow> int \<Rightarrow> u64 \<Rightarrow> u64 \<Rightarrow> 'w \<Rightarrow> 'w \<Rightarrow> bool" where
  "ivc_publish_failed env live manager_fd key sz w w' \<longleftrightarrow>
    (case c_malloc env w of
      (None, w1) \<Rightarrow> live w' = live w
    | (Some _, w1) \<Rightarrow>
      (case c_ioctl_publish env manager_fd IVC_PUBLISH_CHANNEL
          \<lparr>pa_channel_key = key, pa_channel_size = sz, pa_device_name = []\<rparr> w1 of
        (r, arg, w2) \<Rightarrow>
        if r < 0 then live w' = live w \<and> c_errno env w' = c_errno env w2
        else (case c_open env (pa_device_name arg) w2 of
          (fd, w3) \<Rightarrow> fd < 0 \<and> c_errno env w' = c_errno env w3 \<and>
            live w' = (if fst (c_ioctl_publish env manager_fd IVC_UNPUBLISH_CHANNEL arg (c_print env w3)) < 0
              then add_mset (U_Pub key) (live w) else live w))))"

lemma publish_failure:
  assumes "libc_ok env live" "hp_managers h mp = Some m" "0 \<le> im_fd m"
    "ivc_publish env (Some mp) key sz h w = Returned (None, h', w')"
  shows "h' = h \<and> ivc_publish_failed env live (im_fd m) key sz w w'"
proof -
  define a0 where "a0 = \<lparr>pa_channel_key = key, pa_channel_size = sz, pa_device_name = []\<rparr>"
  obtain r1 w1 where a: "c_malloc env w = (r1, w1)" by fastforce
  obtain r2 a2 w2 where b: "c_ioctl_publish env (im_fd m) IVC_PUBLISH_CHANNEL a0 w1 = (r2, a2, w2)" by (metis prod_cases3)
  obtain fd w3 where c: "c_open env (pa_device_name a2) w2 = (fd, w3)" by fastforce
  obtain r4 a4 w4 where d: "c_ioctl_publish env (im_fd m) IVC_UNPUBLISH_CHANNEL a2 (c_print env w3) = (r4, a4, w4)"
    by (metis prod_cases3)
  note l = libc_malloc[OF assms(1) a] libc_channels(1)[OF assms(1) b] libc_files(1)[OF assms(1) c]
    libc_channels(2)[OF assms(1) d] libc_state[OF assms(1)]
  note run = assms(2-4) a b c d
  show ?thesis
  proof (cases r1)
    case None
    with run l show ?thesis by (auto simp: ivc_publish_def ivc_manager_is_valid_def ivc_publish_failed_def)
  next
    case (Some p)
    with run l show ?thesis
      by (simp add: ivc_publish_def ivc_manager_is_valid_def a0_def[symmetric] Let_def ivc_publish_failed_def
          split: if_splits) (auto simp: a0_def)
  qed
qed

lemma stored_sub_new:
  assumes "hp_managers h mp = Some m" "sa_target_publisher_id arg = publisher_id" "sa_channel_key arg = key"
  shows "stored_sub publisher_id key mp p fd (bump mp 1 h)
    (h\<lparr>hp_managers := (hp_managers h)(mp \<mapsto> m\<lparr>im_active_endpoints := im_active_endpoints m + 1\<rparr>),
      hp_subscribers := (hp_subscribers h)(p \<mapsto>
        \<lparr>is_manager = mp, is_subscribe_arg = arg, is_fd = fd, is_bytes_received = 0, is_bytes_sent = 0\<rparr>)\<rparr>)"
  unfolding stored_sub_def
  by (rule exI[of _ "\<lparr>is_manager = mp, is_subscribe_arg = arg, is_fd = fd, is_bytes_received = 0, is_bytes_sent = 0\<rparr>"])
    (simp add: assms bump_def)

lemma subscribe_effect:
  assumes "libc_ok env live" "hp_managers h mp = Some m" "0 \<le> im_fd m"
  shows "\<exists>r. ivc_subscribe env (Some mp) publisher_id key h w = Returned r \<and>
    created (unsubscribe_ioctl_refused env publisher_id key) live mp (U_Sub publisher_id key) (stored_sub publisher_id key mp) h w r"
proof -
  define a0 where "a0 = \<lparr>sa_target_publisher_id = publisher_id, sa_channel_key = key, sa_device_name = []\<rparr>"
  obtain r1 w1 where a: "c_malloc env w = (r1, w1)" by fastforce
  obtain r2 a2 w2 where b: "c_ioctl_subscribe env (im_fd m) IVC_SUBSCRIBE_CHANNEL a0 w1 = (r2, a2, w2)" by (metis prod_cases3)
  obtain fd w3 where c: "c_open env (sa_device_name a2) w2 = (fd, w3)" by fastforce
  obtain r4 a4 w4 where d: "c_ioctl_subscribe env (im_fd m) IVC_UNSUBSCRIBE_CHANNEL a2 (c_print env w3) = (r4, a4, w4)"
    by (metis prod_cases3)
  note l = libc_malloc[OF assms(1) a] libc_channels(3)[OF assms(1) b] libc_files(1)[OF assms(1) c]
    libc_channels(4)[OF assms(1) d] refusedI(2)[OF d] libc_state[OF assms(1)]
  note run = assms(2,3) a b c d
  show ?thesis
  proof (cases r1)
    case None
    with run l show ?thesis by (simp add: ivc_subscribe_def ivc_manager_is_valid_def created_def)
  next
    case (Some p)
    show ?thesis
    proof (cases "r2 < 0 \<or> fd < 0")
      case True
      with Some run l show ?thesis
        by (simp add: ivc_subscribe_def ivc_manager_is_valid_def a0_def[symmetric] Let_def created_def)
          (auto simp: a0_def)
    next
      case False
      with Some run l show ?thesis
        by (simp add: ivc_subscribe_def ivc_manager_is_valid_def a0_def[symmetric] Let_def created_def stored_sub_new)
          (simp add: a0_def add_mset_commute stored_sub_new)
    qed
  qed
qed

text \<open>
  Removing an endpoint: \<open>r1\<close> is the result of closing its device, \<open>r2\<close> the result of the ioctl.
\<close>

lemma unpublish_effect:
  assumes "libc_ok env live" "hp_publishers h p = Some s" "hp_managers h (ip_manager s) = Some m" "im_active_endpoints m \<noteq> 0"
    "c_close env (ip_fd s) w = (r1, w1)"
    "c_ioctl_publish env (im_fd m) IVC_UNPUBLISH_CHANNEL (ip_publish_arg s) (if r1 < 0 then c_print env w1 else w1) = (r2, a2, w2)"
  shows "\<exists>w'. ivc_unpublish env (Some p) h w = Returned (if r1 < 0 \<or> r2 < 0 then - 1 else 0,
      (bump (ip_manager s) (- 1) h)\<lparr>hp_publishers := (hp_publishers h)(p := None)\<rparr>, w') \<and>
    live w' = live w - {#U_Fd (ip_fd s)#} - (if r2 < 0 then {#} else {#U_Pub (pa_channel_key (ip_publish_arg s))#}) - {#U_Mem p#} \<and>
    (r1 < 0 \<longrightarrow> c_errno env w' = c_errno env w1) \<and> (0 \<le> r1 \<longrightarrow> r2 < 0 \<longrightarrow> c_errno env w' = c_errno env w2)"
  using assms(2-6) libc_files(2)[OF assms(1,5)] libc_channels(2)[OF assms(1,6)] libc_state[OF assms(1)]
  by (cases "r1 < 0"; cases "r2 < 0") (simp_all add: ivc_unpublish_def ivc_manager_release_endpoint_def bump_def Let_def)

lemma unsubscribe_effect:
  assumes "libc_ok env live" "hp_subscribers h p = Some s" "hp_managers h (is_manager s) = Some m" "im_active_endpoints m \<noteq> 0"
    "c_close env (is_fd s) w = (r1, w1)"
    "c_ioctl_subscribe env (im_fd m) IVC_UNSUBSCRIBE_CHANNEL (is_subscribe_arg s) (if r1 < 0 then c_print env w1 else w1) = (r2, a2, w2)"
  shows "\<exists>w'. ivc_unsubscribe env (Some p) h w = Returned (if r1 < 0 \<or> r2 < 0 then - 1 else 0,
      (bump (is_manager s) (- 1) h)\<lparr>hp_subscribers := (hp_subscribers h)(p := None)\<rparr>, w') \<and>
    live w' = live w - {#U_Fd (is_fd s)#} - (if r2 < 0 then {#} else {#U_Sub (sa_target_publisher_id (is_subscribe_arg s)) (sa_channel_key (is_subscribe_arg s))#}) - {#U_Mem p#} \<and>
    (r1 < 0 \<longrightarrow> c_errno env w' = c_errno env w1) \<and> (0 \<le> r1 \<longrightarrow> r2 < 0 \<longrightarrow> c_errno env w' = c_errno env w2)"
  using assms(2-6) libc_files(2)[OF assms(1,5)] libc_channels(4)[OF assms(1,6)] libc_state[OF assms(1)]
  by (cases "r1 < 0"; cases "r2 < 0") (simp_all add: ivc_unsubscribe_def ivc_manager_release_endpoint_def bump_def Let_def)
section \<open>The books of a process\<close>

text \<open>
  \<open>M\<close> are the managers, \<open>A\<close> and \<open>B\<close> give the manager of each endpoint of either kind, and \<open>S\<close>
  is the memory in use.
\<close>

definition book_inv :: "(ptr \<rightharpoonup> ivc_manager) \<Rightarrow> (ptr \<rightharpoonup> ptr) \<Rightarrow> (ptr \<rightharpoonup> ptr) \<Rightarrow> ptr set \<Rightarrow> bool" where
  "book_inv M A B S \<longleftrightarrow> 0 \<notin> S \<and> dom M \<union> dom A \<union> dom B \<subseteq> S \<and>
    dom M \<inter> dom A = {} \<and> dom M \<inter> dom B = {} \<and> dom A \<inter> dom B = {} \<and> ran A \<union> ran B \<subseteq> dom M \<and>
    (\<forall>p m. M p = Some m \<longrightarrow> 0 \<le> im_fd m \<and> unat (im_active_endpoints m) = card {q. A q = Some p} + card {q. B q = Some p})"

lemma book_sym: "book_inv M A B S \<Longrightarrow> book_inv M B A S"
  by (auto simp: book_inv_def)

lemma book_mono: "book_inv M A B S \<Longrightarrow> S \<inter> (dom M \<union> dom A \<union> dom B) \<subseteq> S' \<Longrightarrow> 0 \<notin> S' \<Longrightarrow> book_inv M A B S'"
  unfolding book_inv_def by (elim conjE, intro conjI) (assumption | blast)+

lemma owned_none: "book_inv M A B S \<Longrightarrow> p \<notin> dom M \<Longrightarrow> {q. A q = Some p} = {} \<and> {q. B q = Some p} = {}"
  unfolding book_inv_def by (auto simp: ran_def)

lemma book_open:
  assumes "book_inv M A B S" "p \<notin> S" "p \<noteq> 0" "0 \<le> fd"
  shows "book_inv (M(p \<mapsto> \<lparr>im_fd = fd, im_active_endpoints = 0\<rparr>)) A B (insert p S)"
proof -
  have "p \<notin> dom M" "p \<notin> dom A" "p \<notin> dom B" using assms(1,2) by (auto simp: book_inv_def)
  with owned_none[OF assms(1)] assms show ?thesis by (auto simp: book_inv_def)
qed

lemma card_upd:
  fixes A :: "ptr \<rightharpoonup> ptr"
  shows "A p = None \<Longrightarrow> card {q. (A(p \<mapsto> mp)) q = Some x} = card {q. A q = Some x} + (if x = mp then 1 else 0)"
    "A p = Some mp \<Longrightarrow> card {q. (A(p := None)) q = Some x} = card {q. A q = Some x} - (if x = mp then 1 else 0)"
proof -
  show "A p = None \<Longrightarrow> card {q. (A(p \<mapsto> mp)) q = Some x} = card {q. A q = Some x} + (if x = mp then 1 else 0)"
  proof (cases "x = mp")
    case True
    moreover assume "A p = None"
    moreover from this True have "{q. (A(p \<mapsto> mp)) q = Some x} = insert p {q. A q = Some x}" by auto
    ultimately show ?thesis by simp
  next
    case False
    moreover assume "A p = None"
    moreover from this False have "{q. (A(p \<mapsto> mp)) q = Some x} = {q. A q = Some x}" by auto
    ultimately show ?thesis by simp
  qed
  show "A p = Some mp \<Longrightarrow> card {q. (A(p := None)) q = Some x} = card {q. A q = Some x} - (if x = mp then 1 else 0)"
  proof (cases "x = mp")
    case True
    moreover assume "A p = Some mp"
    moreover from this True have "{q. (A(p := None)) q = Some x} = {q. A q = Some x} - {p}" by auto
    ultimately show ?thesis by simp
  next
    case False
    moreover assume "A p = Some mp"
    moreover from this False have "{q. (A(p := None)) q = Some x} = {q. A q = Some x}" by auto
    ultimately show ?thesis by simp
  qed
qed

text \<open>Endpoints occupy distinct addresses, none of them null, so the counter cannot wrap around.\<close>

lemma owned_bound:
  assumes "book_inv M A B S" "p \<notin> S" "p \<noteq> 0"
  shows "card {q. A q = Some mp} + card {q. B q = Some mp} + 1 < 2 ^ 64"
proof -
  let ?X = "{q. A q = Some mp}" and ?Y = "{q. B q = Some mp}"
  have "?X \<inter> ?Y = {}" "0 \<notin> ?X \<union> ?Y" "p \<notin> ?X \<union> ?Y" using assms(1,2) by (auto simp: book_inv_def)
  then have "card ?X + card ?Y + 2 = card (insert 0 (insert p (?X \<union> ?Y)))"
    using assms(3) by (simp add: card_Un_disjoint)
  also have "\<dots> \<le> card (UNIV :: u64 set)" by (rule card_mono) simp_all
  also have "\<dots> = 2 ^ 64" by (simp add: card_word)
  finally show ?thesis by simp
qed

lemma book_create:
  assumes "book_inv M A B S" "M mp = Some m" "p \<notin> S" "p \<noteq> 0"
  shows "book_inv (M(mp \<mapsto> m\<lparr>im_active_endpoints := im_active_endpoints m + 1\<rparr>)) (A(p \<mapsto> mp)) B (insert p S)"
proof -
  have free: "M p = None" "A p = None" "B p = None" using assms(1,3) by (auto simp: book_inv_def dom_def)
  have cnt: "unat (im_active_endpoints m) = card {q. A q = Some mp} + card {q. B q = Some mp}"
    using assms(1,2) by (simp add: book_inv_def)
  have bump: "unat (im_active_endpoints m + 1) = unat (im_active_endpoints m) + 1"
    using owned_bound[OF assms(1,3,4), of mp] cnt unat_add_no_wrap[of "im_active_endpoints m" 1] by simp
  have parts: "0 \<notin> S" "dom M \<union> dom A \<union> dom B \<subseteq> S" "dom M \<inter> dom A = {}" "dom M \<inter> dom B = {}" "dom A \<inter> dom B = {}"
    "ran A \<union> ran B \<subseteq> dom M"
    "\<forall>x n. M x = Some n \<longrightarrow> 0 \<le> im_fd n \<and> unat (im_active_endpoints n) = card {q. A q = Some x} + card {q. B q = Some x}"
    using assms(1) unfolding book_inv_def by blast+
  have "\<forall>x n. (M(mp \<mapsto> m\<lparr>im_active_endpoints := im_active_endpoints m + 1\<rparr>)) x = Some n \<longrightarrow>
      0 \<le> im_fd n \<and> unat (im_active_endpoints n) = card {q. (A(p \<mapsto> mp)) q = Some x} + card {q. B q = Some x}"
    using parts(7) cnt bump assms(2) by (simp only: card_upd(1)[of A p, OF free(2)]) auto
  moreover have "ran (A(p \<mapsto> mp)) = insert mp (ran A)" using free(2) by (rule ran_map_upd)
  ultimately show ?thesis
    unfolding book_inv_def using parts(1-6) free assms(2,4) by (intro conjI) auto
qed

lemma book_remove:
  assumes "book_inv M A B S" "A p = Some mp" "M mp = Some m"
  shows "im_active_endpoints m \<noteq> 0"
    "book_inv (M(mp \<mapsto> m\<lparr>im_active_endpoints := im_active_endpoints m + - 1\<rparr>)) (A(p := None)) B (S - {p})"
proof -
  have parts: "0 \<notin> S" "dom M \<union> dom A \<union> dom B \<subseteq> S" "dom M \<inter> dom A = {}" "dom M \<inter> dom B = {}" "dom A \<inter> dom B = {}"
    "ran A \<union> ran B \<subseteq> dom M"
    "\<forall>x n. M x = Some n \<longrightarrow> 0 \<le> im_fd n \<and> unat (im_active_endpoints n) = card {q. A q = Some x} + card {q. B q = Some x}"
    using assms(1) unfolding book_inv_def by blast+
  have pos: "card {q. A q = Some mp} > 0" using assms(2) by (auto simp: card_gt_0_iff)
  have cnt: "unat (im_active_endpoints m) = card {q. A q = Some mp} + card {q. B q = Some mp}"
    using parts(7) assms(3) by simp
  show nz: "im_active_endpoints m \<noteq> 0" using pos cnt by auto
  have dec: "unat (im_active_endpoints m + - 1) = unat (im_active_endpoints m) - 1"
    using unat_minus_one[OF nz] by simp
  have "\<forall>x n. (M(mp \<mapsto> m\<lparr>im_active_endpoints := im_active_endpoints m + - 1\<rparr>)) x = Some n \<longrightarrow>
      0 \<le> im_fd n \<and> unat (im_active_endpoints n) = card {q. (A(p := None)) q = Some x} + card {q. B q = Some x}"
    using parts(7) cnt dec pos assms(3) by (simp only: card_upd(2)[of A p, OF assms(2)]) auto
  moreover have "ran (A(p := None)) \<subseteq> ran A" by (auto simp: ran_def)
  moreover have "p \<notin> dom M" "p \<notin> dom B" using parts(3,5) assms(2) by auto
  ultimately show "book_inv (M(mp \<mapsto> m\<lparr>im_active_endpoints := im_active_endpoints m + - 1\<rparr>)) (A(p := None)) B (S - {p})"
    unfolding book_inv_def using parts(1-6) assms(3) by (intro conjI) auto
qed

lemma book_close:
  assumes "book_inv M A B S" "M mp = Some m" "im_active_endpoints m = 0"
  shows "book_inv (M(mp := None)) A B (S - {mp})"
proof -
  have "card {q. A q = Some mp} + card {q. B q = Some mp} = 0"
    using assms unfolding book_inv_def by (metis unsigned_0)
  then have "mp \<notin> ran A" "mp \<notin> ran B" by (auto simp: ran_def)
  with assms(1,2) show ?thesis unfolding book_inv_def by (elim conjE, intro conjI) auto
qed
section \<open>Sessions\<close>

definition sub_owner :: "ivc_heap \<Rightarrow> ptr \<rightharpoonup> ptr" where "sub_owner h p = map_option is_manager (hp_subscribers h p)"
definition pub_owner :: "ivc_heap \<Rightarrow> ptr \<rightharpoonup> ptr" where "pub_owner h p = map_option ip_manager (hp_publishers h p)"

lemma owner_upd [simp]:
  "sub_owner (h\<lparr>hp_managers := M\<rparr>) = sub_owner h" "pub_owner (h\<lparr>hp_managers := M\<rparr>) = pub_owner h"
  "sub_owner (h\<lparr>hp_publishers := P\<rparr>) = sub_owner h" "pub_owner (h\<lparr>hp_subscribers := U\<rparr>) = pub_owner h"
  "sub_owner (h\<lparr>hp_subscribers := (hp_subscribers h)(p \<mapsto> s)\<rparr>) = (sub_owner h)(p \<mapsto> is_manager s)"
  "pub_owner (h\<lparr>hp_publishers := (hp_publishers h)(p \<mapsto> t)\<rparr>) = (pub_owner h)(p \<mapsto> ip_manager t)"
  by (auto simp: sub_owner_def pub_owner_def)

lemma bump_fields [simp]:
  "hp_subscribers (bump mp d h) = hp_subscribers h" "hp_publishers (bump mp d h) = hp_publishers h"
  "sub_owner (bump mp d h) = sub_owner h" "pub_owner (bump mp d h) = pub_owner h"
  "hp_managers h mp = Some m \<Longrightarrow>
    hp_managers (bump mp d h) = (hp_managers h)(mp \<mapsto> m\<lparr>im_active_endpoints := im_active_endpoints m + d\<rparr>)"
  by (simp_all add: bump_def sub_owner_def pub_owner_def fun_eq_iff)

lemma owner_bump [simp]:
  "sub_owner (bump mp d h\<lparr>hp_subscribers := (hp_subscribers h)(p \<mapsto> s)\<rparr>) = (sub_owner h)(p \<mapsto> is_manager s)"
  "pub_owner (bump mp d h\<lparr>hp_publishers := (hp_publishers h)(p \<mapsto> t)\<rparr>) = (pub_owner h)(p \<mapsto> ip_manager t)"
  "sub_owner (bump mp d h\<lparr>hp_subscribers := (hp_subscribers h)(p := None)\<rparr>) = (sub_owner h)(p := None)"
  "pub_owner (bump mp d h\<lparr>hp_publishers := (hp_publishers h)(p := None)\<rparr>) = (pub_owner h)(p := None)"
  by (auto simp: sub_owner_def pub_owner_def bump_def)

definition in_use :: "resource multiset \<Rightarrow> ptr set" where "in_use L = {p. p \<noteq> 0 \<and> U_Mem p \<in># L}"

definition session_inv :: "('w \<Rightarrow> resource multiset) \<Rightarrow> ivc_heap \<times> 'w \<Rightarrow> bool" where
  "session_inv live = (\<lambda>(h, w). book_inv (hp_managers h) (sub_owner h) (pub_owner h) (in_use (live w)))"

text \<open>
  A process that calls the library: a handle it passes is null or live. In between it does
  anything that leaves the memory of the library alone.
\<close>

definition handle_ok :: "(ptr \<rightharpoonup> 'a) \<Rightarrow> ptr option \<Rightarrow> bool" where
  "handle_ok tab x \<longleftrightarrow> (case x of None \<Rightarrow> True | Some p \<Rightarrow> tab p \<noteq> None)"

definition library_memory :: "ivc_heap \<Rightarrow> ptr set" where
  "library_memory h = dom (hp_managers h) \<union> dom (hp_subscribers h) \<union> dom (hp_publishers h)"

inductive session_step :: "'w cenv \<Rightarrow> ('w \<Rightarrow> resource multiset) \<Rightarrow> ivc_heap \<times> 'w \<Rightarrow> ivc_heap \<times> 'w \<Rightarrow> bool"
  for env live where
  open_manager: "ivc_open_manager env h w = Returned (r, h', w') \<Longrightarrow> session_step env live (h, w) (h', w')"
| close_manager: "handle_ok (hp_managers h) mp \<Longrightarrow> ivc_close_manager env mp h w = Returned (i, h', w') \<Longrightarrow>
    session_step env live (h, w) (h', w')"
| publish: "handle_ok (hp_managers h) mp \<Longrightarrow> ivc_publish env mp key sz h w = Returned (r, h', w') \<Longrightarrow>
    session_step env live (h, w) (h', w')"
| unpublish: "handle_ok (hp_publishers h) p \<Longrightarrow> ivc_unpublish env p h w = Returned (i, h', w') \<Longrightarrow>
    session_step env live (h, w) (h', w')"
| publisher_send: "handle_ok (hp_publishers h) p \<Longrightarrow> ivc_publisher_send env p buf n h w = Returned (i, h', w') \<Longrightarrow>
    session_step env live (h, w) (h', w')"
| publisher_recv: "handle_ok (hp_publishers h) p \<Longrightarrow> ivc_publisher_recv env p buf n h w = Returned (i, buf', h', w') \<Longrightarrow>
    session_step env live (h, w) (h', w')"
| subscribe: "handle_ok (hp_managers h) mp \<Longrightarrow> ivc_subscribe env mp ident key h w = Returned (r, h', w') \<Longrightarrow>
    session_step env live (h, w) (h', w')"
| unsubscribe: "handle_ok (hp_subscribers h) p \<Longrightarrow> ivc_unsubscribe env p h w = Returned (i, h', w') \<Longrightarrow>
    session_step env live (h, w) (h', w')"
| subscriber_send: "handle_ok (hp_subscribers h) p \<Longrightarrow> ivc_subscriber_send env p buf n h w = Returned (i, h', w') \<Longrightarrow>
    session_step env live (h, w) (h', w')"
| subscriber_recv: "handle_ok (hp_subscribers h) p \<Longrightarrow> ivc_subscriber_recv env p buf n h w = Returned (i, buf', h', w') \<Longrightarrow>
    session_step env live (h, w) (h', w')"
| elsewhere: "(\<And>p. p \<in> library_memory h \<Longrightarrow> U_Mem p \<in># live w') \<Longrightarrow> session_step env live (h, w) (h, w')"

lemma in_use_add: "in_use (add_mset x L) = (case x of U_Mem p \<Rightarrow> if p = 0 then in_use L else insert p (in_use L) | _ \<Rightarrow> in_use L)"
  by (auto simp: in_use_def split: resource.splits)

lemma in_use_keep: "(\<And>p. x \<noteq> U_Mem p) \<Longrightarrow> in_use L \<subseteq> in_use (L - {#x#})" "in_use L - {p} \<subseteq> in_use (L - {#U_Mem p#})"
  by (auto simp: in_use_def in_diff_count split: if_splits)

lemma in_use_0 [simp]: "0 \<notin> in_use L"
  by (simp add: in_use_def)

lemma owner_dom [simp]: "dom (sub_owner h) = dom (hp_subscribers h)" "dom (pub_owner h) = dom (hp_publishers h)"
  by (auto simp: sub_owner_def pub_owner_def)

lemma session_fd: "session_inv live (h, w) \<Longrightarrow> hp_managers h mp = Some m \<Longrightarrow> 0 \<le> im_fd m"
  by (auto simp: session_inv_def book_inv_def)

lemma null_calls:
  "ivc_close_manager env None h w = Returned (- 1, h, fail_with env EINVAL w)"
  "ivc_publish env None key sz h w = Returned (None, h, fail_with env EINVAL w)"
  "ivc_subscribe env None ident key h w = Returned (None, h, fail_with env EINVAL w)"
  "ivc_unpublish env None h w = Returned (- 1, h, fail_with env EINVAL w)"
  "ivc_unsubscribe env None h w = Returned (- 1, h, fail_with env EINVAL w)"
  by (simp_all add: ivc_close_manager_def ivc_manager_is_valid_def ivc_publish_def ivc_subscribe_def ivc_unpublish_def ivc_unsubscribe_def)
lemma session_world:
  "session_inv live (h, w) \<Longrightarrow> in_use (live w) \<subseteq> in_use (live w') \<Longrightarrow> session_inv live (h, w')"
  unfolding session_inv_def prod.case by (rule book_mono) auto

text \<open>Every call returns, and keeps the books.\<close>

definition keeps_books :: "('w \<Rightarrow> resource multiset) \<Rightarrow> ('a \<Rightarrow> ivc_heap \<times> 'w) \<Rightarrow> 'a outcome \<Rightarrow> bool" where
  "keeps_books live state out \<longleftrightarrow> (\<exists>r. out = Returned r \<and> session_inv live (state r))"

lemma open_session:
  assumes "libc_ok env live" "session_inv live (h, w)"
  shows "keeps_books live snd (ivc_open_manager env h w)"
proof (cases rule: open_effect[OF assms(1), of h w])
  case (1 w')
  then show ?thesis using assms(2) by (auto simp: keeps_books_def intro: session_world)
next
  case (2 p fd w')
  then have "p \<notin> in_use (live w)" by (simp add: in_use_def)
  from book_open[OF _ this 2(3,2)] assms(2) 2 show ?thesis
    by (simp add: keeps_books_def session_inv_def in_use_add)
qed

lemma close_session:
  assumes "libc_ok env live" "session_inv live (h, w)" "handle_ok (hp_managers h) mp"
  shows "keeps_books live snd (ivc_close_manager env mp h w)"
proof (cases mp)
  case None
  then show ?thesis using assms(2) libc_state[OF assms(1)] by (auto simp: keeps_books_def null_calls intro: session_world)
next
  case (Some p)
  then obtain m where m: "hp_managers h p = Some m" using assms(3) by (auto simp: handle_ok_def)
  show ?thesis
  proof (cases rule: close_effect[OF assms(1) m session_fd[OF assms(2) m], of w])
    case (1 w')
    then show ?thesis using assms(2) Some by (auto simp: keeps_books_def intro: session_world)
  next
    case (2 r w')
    from assms(2) have "book_inv ((hp_managers h)(p := None)) (sub_owner h) (pub_owner h) (in_use (live w) - {p})"
      using book_close[of "hp_managers h" _ _ _ p m] m 2(2) by (simp add: session_inv_def)
    moreover have "in_use (live w) - {p} \<subseteq> in_use (live w')"
      unfolding 2(3) by (auto simp: in_use_def in_diff_count)
    ultimately show ?thesis
      using 2(1) Some by (auto simp: keeps_books_def session_inv_def intro: book_mono)
  qed
qed

lemma use_session:
  assumes "libc_ok env live" "session_inv live (h, w)"
  shows "handle_ok (hp_publishers h) p \<Longrightarrow> keeps_books live snd (ivc_publisher_send env p buf n h w)"
    "handle_ok (hp_publishers h) p \<Longrightarrow> keeps_books live (\<lambda>(i, b, s). s) (ivc_publisher_recv env p buf n h w)"
    "handle_ok (hp_subscribers h) p \<Longrightarrow> keeps_books live snd (ivc_subscriber_send env p buf n h w)"
    "handle_ok (hp_subscribers h) p \<Longrightarrow> keeps_books live (\<lambda>(i, b, s). s) (ivc_subscriber_recv env p buf n h w)"
proof -
  note l = libc_state[OF assms(1)] and rw = libc_files(3,4)[OF assms(1)]
  have same: "(sub_owner h)(q \<mapsto> is_manager s) = sub_owner h" if "hp_subscribers h q = Some s" for q s
    using that by (auto simp: sub_owner_def)
  have same': "(pub_owner h)(q \<mapsto> ip_manager s) = pub_owner h" if "hp_publishers h q = Some s" for q s
    using that by (auto simp: pub_owner_def)
  show "handle_ok (hp_publishers h) p \<Longrightarrow> keeps_books live snd (ivc_publisher_send env p buf n h w)"
    using assms(2)
    by (auto simp: handle_ok_def keeps_books_def session_inv_def ivc_publisher_send_def l Let_def same' dest!: rw(2)
        split: prod.splits option.splits)
  show "handle_ok (hp_publishers h) p \<Longrightarrow> keeps_books live (\<lambda>(i, b, s). s) (ivc_publisher_recv env p buf n h w)"
    using assms(2)
    by (auto simp: handle_ok_def keeps_books_def session_inv_def ivc_publisher_recv_def l Let_def same' dest!: rw(1)
        split: prod.splits option.splits)
  show "handle_ok (hp_subscribers h) p \<Longrightarrow> keeps_books live snd (ivc_subscriber_send env p buf n h w)"
    using assms(2)
    by (auto simp: handle_ok_def keeps_books_def session_inv_def ivc_subscriber_send_def l Let_def same dest!: rw(2)
        split: prod.splits option.splits)
  show "handle_ok (hp_subscribers h) p \<Longrightarrow> keeps_books live (\<lambda>(i, b, s). s) (ivc_subscriber_recv env p buf n h w)"
    using assms(2)
    by (auto simp: handle_ok_def keeps_books_def session_inv_def ivc_subscriber_recv_def l Let_def same dest!: rw(1)
        split: prod.splits option.splits)
qed
lemma created_session:
  assumes "session_inv live (h, w)" "hp_managers h mp = Some m" "created refused live mp chan stored h w (res, h', w')" "\<And>p. chan \<noteq> U_Mem p"
    and stored: "\<And>p fd. stored p fd (bump mp 1 h) h' \<Longrightarrow> hp_managers h' = hp_managers (bump mp 1 h) \<and>
      (sub_owner h' = (sub_owner h)(p \<mapsto> mp) \<and> pub_owner h' = pub_owner h \<or>
       sub_owner h' = sub_owner h \<and> pub_owner h' = (pub_owner h)(p \<mapsto> mp))"
  shows "session_inv live (h', w')"
proof (cases res)
  case None
  with assms(3,4) have "h' = h" "in_use (live w) \<subseteq> in_use (live w')"
    by (auto simp: created_def in_use_add split: resource.splits)
  with assms(1) show ?thesis by (auto intro: session_world)
next
  case (Some p)
  with assms(3) obtain fd where c: "p \<noteq> 0" "U_Mem p \<notin># live w" "stored p fd (bump mp 1 h) h'"
    "live w' = {#chan, U_Fd fd, U_Mem p#} + live w" by (auto simp: created_def)
  have used: "in_use (live w') = insert p (in_use (live w))" using c(1,4) assms(4) by (cases chan) (auto simp: in_use_add)
  have p: "p \<notin> in_use (live w)" using c(2) by (simp add: in_use_def)
  have inv: "book_inv (hp_managers h) (sub_owner h) (pub_owner h) (in_use (live w))"
    using assms(1) by (simp add: session_inv_def)
  note sub = book_create[OF inv assms(2) p c(1)] and pub = book_create[OF book_sym[OF inv] assms(2) p c(1)]
  from stored[OF c(3)] show ?thesis
    unfolding session_inv_def prod.case used bump_fields(5)[OF assms(2)] using sub book_sym[OF pub] by auto
qed

lemma create_session:
  assumes "libc_ok env live" "session_inv live (h, w)" "handle_ok (hp_managers h) mp"
  shows "keeps_books live snd (ivc_publish env mp key sz h w)" "keeps_books live snd (ivc_subscribe env mp ident key h w)"
proof -
  have "keeps_books live snd (ivc_publish env mp key sz h w) \<and> keeps_books live snd (ivc_subscribe env mp ident key h w)"
  proof (cases mp)
    case None
    then show ?thesis using assms(2) libc_state[OF assms(1)] by (auto simp: keeps_books_def null_calls intro: session_world)
  next
    case (Some p)
    then obtain m where m: "hp_managers h p = Some m" using assms(3) by (auto simp: handle_ok_def)
    note fd = session_fd[OF assms(2) m]
    obtain res h' w' where pub: "ivc_publish env mp key sz h w = Returned (res, h', w')"
      "created (unpublish_ioctl_refused env key) live p (U_Pub key) (stored_pub key p) h w (res, h', w')"
      using publish_effect[OF assms(1) m fd, of key sz w] Some by (metis prod_cases3)
    obtain res2 h2 w2 where sub: "ivc_subscribe env mp ident key h w = Returned (res2, h2, w2)"
      "created (unsubscribe_ioctl_refused env ident key) live p (U_Sub ident key) (stored_sub ident key p) h w (res2, h2, w2)"
      using subscribe_effect[OF assms(1) m fd, of ident key w] Some by (metis prod_cases3)
    have "session_inv live (h', w')"
      by (rule created_session[OF assms(2) m pub(2)]) (auto simp: stored_pub_def)
    moreover have "session_inv live (h2, w2)"
      by (rule created_session[OF assms(2) m sub(2)]) (auto simp: stored_sub_def)
    ultimately show ?thesis using pub(1) sub(1) by (simp add: keeps_books_def)
  qed
  then show "keeps_books live snd (ivc_publish env mp key sz h w)" "keeps_books live snd (ivc_subscribe env mp ident key h w)"
    by simp_all
qed

lemma session_owner:
  assumes "session_inv live (h, w)"
  shows "hp_publishers h p = Some s \<Longrightarrow> \<exists>m. hp_managers h (ip_manager s) = Some m \<and> im_active_endpoints m \<noteq> 0"
    "hp_subscribers h p = Some u \<Longrightarrow> \<exists>m. hp_managers h (is_manager u) = Some m \<and> im_active_endpoints m \<noteq> 0"
proof -
  have inv: "book_inv (hp_managers h) (sub_owner h) (pub_owner h) (in_use (live w))"
    using assms by (simp add: session_inv_def)
  then have ran: "ran (sub_owner h) \<subseteq> dom (hp_managers h)" "ran (pub_owner h) \<subseteq> dom (hp_managers h)"
    unfolding book_inv_def by blast+
  show "\<exists>m. hp_managers h (ip_manager s) = Some m \<and> im_active_endpoints m \<noteq> 0" if "hp_publishers h p = Some s"
  proof -
    from that have o: "pub_owner h p = Some (ip_manager s)" by (simp add: pub_owner_def)
    with ran(2) obtain m where "hp_managers h (ip_manager s) = Some m" by (meson domD ranI subsetD)
    with book_remove(1)[OF book_sym[OF inv] o] show ?thesis by blast
  qed
  show "\<exists>m. hp_managers h (is_manager u) = Some m \<and> im_active_endpoints m \<noteq> 0" if "hp_subscribers h p = Some u"
  proof -
    from that have o: "sub_owner h p = Some (is_manager u)" by (simp add: sub_owner_def)
    with ran(1) obtain m where "hp_managers h (is_manager u) = Some m" by (meson domD ranI subsetD)
    with book_remove(1)[OF inv o] show ?thesis by blast
  qed
qed

lemma in_use_remove:
  assumes "L' = L - {#U_Fd fd#} - (if b then {#} else {#c#}) - {#U_Mem p#}" "\<And>q. c \<noteq> U_Mem q"
  shows "in_use L - {p} \<subseteq> in_use L'"
  using assms by (auto simp: in_use_def in_diff_count)

lemma unpublish_session:
  assumes "libc_ok env live" "session_inv live (h, w)" "handle_ok (hp_publishers h) x"
  shows "keeps_books live snd (ivc_unpublish env x h w)"
proof (cases x)
  case None
  then show ?thesis using assms(2) libc_state[OF assms(1)] by (auto simp: keeps_books_def null_calls intro: session_world)
next
  case (Some p)
  then obtain s where s: "hp_publishers h p = Some s" using assms(3) by (auto simp: handle_ok_def)
  obtain m where m: "hp_managers h (ip_manager s) = Some m" "im_active_endpoints m \<noteq> 0"
    using session_owner(1)[OF assms(2) s] by blast
  obtain r1 w1 where c: "c_close env (ip_fd s) w = (r1, w1)" by fastforce
  obtain r2 a2 w2 where i: "c_ioctl_publish env (im_fd m) IVC_UNPUBLISH_CHANNEL (ip_publish_arg s)
    (if r1 < 0 then c_print env w1 else w1) = (r2, a2, w2)" by (metis prod_cases3)
  obtain w' where e: "ivc_unpublish env x h w = Returned (if r1 < 0 \<or> r2 < 0 then - 1 else 0,
      (bump (ip_manager s) (- 1) h)\<lparr>hp_publishers := (hp_publishers h)(p := None)\<rparr>, w')"
    "live w' = live w - {#U_Fd (ip_fd s)#} - (if r2 < 0 then {#} else {#U_Pub (pa_channel_key (ip_publish_arg s))#}) - {#U_Mem p#}"
    using unpublish_effect[OF assms(1) s m c i] Some by blast
  have inv: "book_inv (hp_managers h) (sub_owner h) (pub_owner h) (in_use (live w))"
    using assms(2) by (simp add: session_inv_def)
  have o: "pub_owner h p = Some (ip_manager s)" using s by (simp add: pub_owner_def)
  note b = book_sym[OF book_remove(2)[OF book_sym[OF inv] o m(1)]]
  have "book_inv (hp_managers (bump (ip_manager s) (- 1) h)) (sub_owner h) ((pub_owner h)(p := None)) (in_use (live w'))"
    unfolding bump_fields(5)[OF m(1)] using in_use_remove[OF e(2)] by (intro book_mono[OF b]) auto
  then show ?thesis unfolding e(1) by (simp add: keeps_books_def session_inv_def)
qed

lemma unsubscribe_session:
  assumes "libc_ok env live" "session_inv live (h, w)" "handle_ok (hp_subscribers h) x"
  shows "keeps_books live snd (ivc_unsubscribe env x h w)"
proof (cases x)
  case None
  then show ?thesis using assms(2) libc_state[OF assms(1)] by (auto simp: keeps_books_def null_calls intro: session_world)
next
  case (Some p)
  then obtain s where s: "hp_subscribers h p = Some s" using assms(3) by (auto simp: handle_ok_def)
  obtain m where m: "hp_managers h (is_manager s) = Some m" "im_active_endpoints m \<noteq> 0"
    using session_owner(2)[OF assms(2) s] by blast
  obtain r1 w1 where c: "c_close env (is_fd s) w = (r1, w1)" by fastforce
  obtain r2 a2 w2 where i: "c_ioctl_subscribe env (im_fd m) IVC_UNSUBSCRIBE_CHANNEL (is_subscribe_arg s)
    (if r1 < 0 then c_print env w1 else w1) = (r2, a2, w2)" by (metis prod_cases3)
  obtain w' where e: "ivc_unsubscribe env x h w = Returned (if r1 < 0 \<or> r2 < 0 then - 1 else 0,
      (bump (is_manager s) (- 1) h)\<lparr>hp_subscribers := (hp_subscribers h)(p := None)\<rparr>, w')"
    "live w' = live w - {#U_Fd (is_fd s)#} - (if r2 < 0 then {#} else {#U_Sub (sa_target_publisher_id (is_subscribe_arg s)) (sa_channel_key (is_subscribe_arg s))#}) - {#U_Mem p#}"
    using unsubscribe_effect[OF assms(1) s m c i] Some by blast
  have inv: "book_inv (hp_managers h) (sub_owner h) (pub_owner h) (in_use (live w))"
    using assms(2) by (simp add: session_inv_def)
  have o: "sub_owner h p = Some (is_manager s)" using s by (simp add: sub_owner_def)
  note b = book_remove(2)[OF inv o m(1)]
  have "book_inv (hp_managers (bump (is_manager s) (- 1) h)) ((sub_owner h)(p := None)) (pub_owner h) (in_use (live w'))"
    unfolding bump_fields(5)[OF m(1)] using in_use_remove[OF e(2)] by (intro book_mono[OF b]) auto
  then show ?thesis unfolding e(1) by (simp add: keeps_books_def session_inv_def)
qed

lemma keeps_booksD:
  "keeps_books live snd out \<Longrightarrow> out = Returned (r, h', w') \<Longrightarrow> session_inv live (h', w')"
  "keeps_books live (\<lambda>(i, b, s). s) out' \<Longrightarrow> out' = Returned (i, b, h', w') \<Longrightarrow> session_inv live (h', w')"
  by (auto simp: keeps_books_def)

lemma session_step_inv:
  assumes "session_step env live st st'" "libc_ok env live" "session_inv live st"
  shows "session_inv live st'"
  using assms
proof (induction rule: session_step.induct)
  case open_manager
  show ?case by (rule keeps_booksD(1)[OF open_session[OF open_manager(2) open_manager(3)] open_manager(1)])
next
  case close_manager
  show ?case by (rule keeps_booksD(1)[OF close_session[OF close_manager(3) close_manager(4) close_manager(1)] close_manager(2)])
next
  case publish
  show ?case by (rule keeps_booksD(1)[OF create_session(1)[OF publish(3) publish(4) publish(1)] publish(2)])
next
  case unpublish
  show ?case by (rule keeps_booksD(1)[OF unpublish_session[OF unpublish(3) unpublish(4) unpublish(1)] unpublish(2)])
next
  case publisher_send
  show ?case by (rule keeps_booksD(1)[OF use_session(1)[OF publisher_send(3) publisher_send(4) publisher_send(1)] publisher_send(2)])
next
  case publisher_recv
  show ?case by (rule keeps_booksD(2)[OF use_session(2)[OF publisher_recv(3) publisher_recv(4) publisher_recv(1)] publisher_recv(2)])
next
  case subscribe
  show ?case by (rule keeps_booksD(1)[OF create_session(2)[OF subscribe(3) subscribe(4) subscribe(1)] subscribe(2)])
next
  case unsubscribe
  show ?case by (rule keeps_booksD(1)[OF unsubscribe_session[OF unsubscribe(3) unsubscribe(4) unsubscribe(1)] unsubscribe(2)])
next
  case subscriber_send
  show ?case by (rule keeps_booksD(1)[OF use_session(3)[OF subscriber_send(3) subscriber_send(4) subscriber_send(1)] subscriber_send(2)])
next
  case subscriber_recv
  show ?case by (rule keeps_booksD(2)[OF use_session(4)[OF subscriber_recv(3) subscriber_recv(4) subscriber_recv(1)] subscriber_recv(2)])
next
  case (elsewhere h w' w)
  have "in_use (live w) \<inter> library_memory h \<subseteq> in_use (live w')" using elsewhere(1) by (auto simp: in_use_def)
  then show ?case
    using elsewhere(3) unfolding session_inv_def prod.case
    by - (rule book_mono, simp_all add: library_memory_def)
qed

definition empty_heap :: ivc_heap where
  "empty_heap = \<lparr>hp_managers = Map.empty, hp_subscribers = Map.empty, hp_publishers = Map.empty\<rparr>"

lemma session_reach_inv:
  assumes "libc_ok env live" "(session_step env live)\<^sup>*\<^sup>* (empty_heap, w0) st"
  shows "session_inv live st"
  using assms(2)
proof (induction rule: rtranclp_induct)
  case base
  then show ?case by (simp add: session_inv_def book_inv_def empty_heap_def sub_owner_def pub_owner_def ran_def)
next
  case (step st st')
  then show ?case using session_step_inv assms(1) by blast
qed

definition returns :: "'a outcome \<Rightarrow> bool" where "returns out \<longleftrightarrow> (\<exists>r. out = Returned r)"

lemma keeps_books_returns: "keeps_books live f out \<Longrightarrow> returns out"
  by (auto simp: keeps_books_def returns_def)

definition endpoints_of :: "ivc_heap \<Rightarrow> ptr \<Rightarrow> ptr set" where
  "endpoints_of h mp = {p. \<exists>s. hp_publishers h p = Some s \<and> ip_manager s = mp} \<union>
    {p. \<exists>s. hp_subscribers h p = Some s \<and> is_manager s = mp}"

lemma session_counter:
  assumes "session_inv live (h, w)" "hp_managers h mp = Some m"
  shows "unat (im_active_endpoints m) = card (endpoints_of h mp)"
proof -
  have "{p. \<exists>s. hp_publishers h p = Some s \<and> ip_manager s = mp} = {p. pub_owner h p = Some mp}"
    "{p. \<exists>s. hp_subscribers h p = Some s \<and> is_manager s = mp} = {p. sub_owner h p = Some mp}"
    by (auto simp: pub_owner_def sub_owner_def)
  moreover have "{p. pub_owner h p = Some mp} \<inter> {p. sub_owner h p = Some mp} = {}"
    using assms(1) by (auto simp: session_inv_def book_inv_def dom_def)
  moreover have "unat (im_active_endpoints m) = card {p. sub_owner h p = Some mp} + card {p. pub_owner h p = Some mp}"
    using assms by (simp add: session_inv_def book_inv_def)
  ultimately show ?thesis by (simp add: endpoints_of_def card_Un_disjoint)
qed

section \<open>Properties\<close>

text \<open>
  C10. The library never follows a freed pointer. In every state that a process reaches by
  calling the library with handles that are null or live, in whatever order and whatever
  fails, each further call returns; the manager of every endpoint is still allocated; the
  counter of a manager is exactly the number of its endpoints, and closing a manager consumes
  it exactly when it has none, and changes nothing otherwise.
\<close>

theorem library_handles_safe:
  assumes "libc_ok env live" "(session_step env live)\<^sup>*\<^sup>* (empty_heap, w0) (h, w)"
  shows "(\<forall>mp key sz ident. handle_ok (hp_managers h) mp \<longrightarrow> returns (ivc_close_manager env mp h w) \<and>
      returns (ivc_publish env mp key sz h w) \<and> returns (ivc_subscribe env mp ident key h w)) \<and>
    (\<forall>p buf n. handle_ok (hp_publishers h) p \<longrightarrow> returns (ivc_unpublish env p h w) \<and>
      returns (ivc_publisher_send env p buf n h w) \<and> returns (ivc_publisher_recv env p buf n h w)) \<and>
    (\<forall>p buf n. handle_ok (hp_subscribers h) p \<longrightarrow> returns (ivc_unsubscribe env p h w) \<and>
      returns (ivc_subscriber_send env p buf n h w) \<and> returns (ivc_subscriber_recv env p buf n h w)) \<and>
    (\<forall>p s. hp_publishers h p = Some s \<longrightarrow> hp_managers h (ip_manager s) \<noteq> None) \<and>
    (\<forall>p s. hp_subscribers h p = Some s \<longrightarrow> hp_managers h (is_manager s) \<noteq> None) \<and>
    (\<forall>mp m. hp_managers h mp = Some m \<longrightarrow> unat (im_active_endpoints m) = card (endpoints_of h mp) \<and>
      (\<exists>i w'. ivc_close_manager env (Some mp) h w =
        Returned (i, if endpoints_of h mp = {} then h\<lparr>hp_managers := (hp_managers h)(mp := None)\<rparr> else h, w')))"
proof -
  have inv: "session_inv live (h, w)" using session_reach_inv[OF assms] .
  note k = close_session[OF assms(1) inv] create_session[OF assms(1) inv] unpublish_session[OF assms(1) inv]
    unsubscribe_session[OF assms(1) inv] use_session[OF assms(1) inv]
  have close: "\<exists>i w'. ivc_close_manager env (Some mp) h w =
      Returned (i, if endpoints_of h mp = {} then h\<lparr>hp_managers := (hp_managers h)(mp := None)\<rparr> else h, w')"
    if m: "hp_managers h mp = Some m" for mp m
  proof -
    have "endpoints_of h mp = {} \<longleftrightarrow> im_active_endpoints m = 0"
      using session_counter[OF inv m] by (metis card_0_eq finite unat_eq_zero)
    then show ?thesis by (cases rule: close_effect[OF assms(1) m session_fd[OF inv m], of w]) auto
  qed
  show ?thesis
  proof (intro conjI allI impI)
    fix p s assume "hp_publishers h p = Some s"
    from session_owner(1)[OF inv this] show "hp_managers h (ip_manager s) \<noteq> None" by blast
  next
    fix p s assume "hp_subscribers h p = Some s"
    from session_owner(2)[OF inv this] show "hp_managers h (is_manager s) \<noteq> None" by blast
  qed (rule k[THEN keeps_books_returns] session_counter[OF inv] close, assumption)+
qed

text \<open>
  C24. A publisher handle accounts for everything it holds. A publish that fails leaves the
  heap as it was; it holds nothing, unless the device could not be opened and the kernel
  refused the ioctl that hands the channel back, when it holds that channel; and \<open>errno\<close> is the
  error of the ioctl or of the open that failed, whatever the calls after it did. A publish
  that succeeds holds exactly the object, the descriptor and the channel. Removing the
  publisher always consumes the object and the descriptor, and the channel unless the kernel
  refuses; it returns 0 exactly when both steps worked, and otherwise \<open>errno\<close> is the error of
  the first that did not.
\<close>

theorem publisher_ledger:
  assumes "libc_ok env live" "hp_managers h mp = Some m" "0 \<le> im_fd m"
    "ivc_publish env (Some mp) key sz h w = Returned (res, h', w')"
  shows "case res of
      None \<Rightarrow> h' = h \<and> ivc_publish_failed env live (im_fd m) key sz w w'
    | Some p \<Rightarrow> \<exists>s. hp_publishers h' p = Some s \<and> ip_manager s = mp \<and>
        live w' = {#U_Pub key, U_Fd (ip_fd s), U_Mem p#} + live w \<and>
        (\<forall>w1 r1 w2 r2 a w3. im_active_endpoints m \<noteq> - 1 \<longrightarrow> live w1 = live w' \<longrightarrow> c_close env (ip_fd s) w1 = (r1, w2) \<longrightarrow>
          c_ioctl_publish env (im_fd m) IVC_UNPUBLISH_CHANNEL (ip_publish_arg s)
            (if r1 < 0 then c_print env w2 else w2) = (r2, a, w3) \<longrightarrow>
          (\<exists>i h4 w4. ivc_unpublish env (Some p) h' w1 = Returned (i, h4, w4) \<and> hp_publishers h4 p = None \<and>
            hp_managers h4 mp = Some m \<and> (i = 0 \<longleftrightarrow> 0 \<le> r1 \<and> 0 \<le> r2) \<and>
            live w4 = (if r2 < 0 then add_mset (U_Pub key) (live w) else live w) \<and>
            (r1 < 0 \<longrightarrow> c_errno env w4 = c_errno env w2) \<and> (0 \<le> r1 \<longrightarrow> r2 < 0 \<longrightarrow> c_errno env w4 = c_errno env w3)))"
proof -
  from publish_effect[OF assms(1-3), of key sz w] assms(4)
  have c: "created (unpublish_ioctl_refused env key) live mp (U_Pub key) (stored_pub key mp) h w (res, h', w')" by simp
  show ?thesis
  proof (cases res)
    case None
    then show ?thesis using publish_failure[OF assms(1-3)] assms(4) by simp
  next
    case (Some p)
    with c obtain fd s where s: "ip_manager s = mp" "ip_fd s = fd" "pa_channel_key (ip_publish_arg s) = key"
      "h' = (bump mp 1 h)\<lparr>hp_publishers := (hp_publishers h)(p \<mapsto> s)\<rparr>" "live w' = {#U_Pub key, U_Fd fd, U_Mem p#} + live w"
      by (auto simp: created_def stored_pub_def)
    have p: "hp_publishers h' p = Some s" by (simp add: s(4))
    let ?m = "m\<lparr>im_active_endpoints := im_active_endpoints m + 1\<rparr>"
    have m: "hp_managers h' (ip_manager s) = Some ?m" using assms(2) by (simp add: s(1,4) bump_def)
    have "\<exists>i h4 w4. ivc_unpublish env (Some p) h' w1 = Returned (i, h4, w4) \<and> hp_publishers h4 p = None \<and>
            hp_managers h4 mp = Some m \<and> (i = 0 \<longleftrightarrow> 0 \<le> r1 \<and> 0 \<le> r2) \<and>
            live w4 = (if r2 < 0 then add_mset (U_Pub key) (live w) else live w) \<and>
            (r1 < 0 \<longrightarrow> c_errno env w4 = c_errno env w2) \<and> (0 \<le> r1 \<longrightarrow> r2 < 0 \<longrightarrow> c_errno env w4 = c_errno env w3)"
      if a: "im_active_endpoints m \<noteq> - 1" "live w1 = live w'" "c_close env (ip_fd s) w1 = (r1, w2)"
        "c_ioctl_publish env (im_fd m) IVC_UNPUBLISH_CHANNEL (ip_publish_arg s)
          (if r1 < 0 then c_print env w2 else w2) = (r2, a, w3)" for w1 r1 w2 r2 a w3
    proof -
      have nz: "im_active_endpoints ?m \<noteq> 0" using a(1) by (simp add: eq_neg_iff_add_eq_0)
      have i: "c_ioctl_publish env (im_fd ?m) IVC_UNPUBLISH_CHANNEL (ip_publish_arg s)
          (if r1 < 0 then c_print env w2 else w2) = (r2, a, w3)" using a(4) by simp
      show ?thesis
        using unpublish_effect[OF assms(1) p m nz a(3) i] m s(1,2,3,5) a(2)
        by (auto simp: bump_def split: if_splits)
    qed
    then show ?thesis using p s(1,2,5) Some by auto
  qed
qed

text \<open>
  A machine with memory at two addresses, whose kernel accepts every call on a channel but
  fails to close with an error when \<open>bad\<close>; the world is \<open>errno\<close> and what is held.
\<close>

definition demo_cenv :: "bool \<Rightarrow> (errno \<times> resource multiset) cenv" where
  "demo_cenv bad = \<lparr>c_errno = fst, c_set_errno = (\<lambda>e w. (e, snd w)), c_print = (\<lambda>w. w),
    c_malloc = (\<lambda>(e, L). if U_Mem 0x1000 \<notin># L then (Some 0x1000, e, add_mset (U_Mem 0x1000) L)
      else if U_Mem 0x2000 \<notin># L then (Some 0x2000, e, add_mset (U_Mem 0x2000) L) else (None, ENOMEM, L)),
    c_free = (\<lambda>p (e, L). (e, L - {#U_Mem p#})),
    c_open = (\<lambda>path (e, L). (3, e, add_mset (U_Fd 3) L)),
    c_close = (\<lambda>fd (e, L). if bad then (- 1, EIO, L - {#U_Fd fd#}) else (0, e, L - {#U_Fd fd#})),
    c_ioctl_publish = (\<lambda>fd cmd a (e, L). if cmd = IVC_PUBLISH_CHANNEL
      then (0, a\<lparr>pa_device_name := ''/dev/axivc_publisher_0''\<rparr>, e, add_mset (U_Pub (pa_channel_key a)) L)
      else (0, a, e, L - {#U_Pub (pa_channel_key a)#})),
    c_ioctl_subscribe = (\<lambda>fd cmd a (e, L). if cmd = IVC_SUBSCRIBE_CHANNEL
      then (0, a\<lparr>sa_device_name := ''/dev/axivc_subscriber_0''\<rparr>, e,
        add_mset (U_Sub (sa_target_publisher_id a) (sa_channel_key a)) L)
      else (0, a, e, L - {#U_Sub (sa_target_publisher_id a) (sa_channel_key a)#})),
    c_read = (\<lambda>fd n w. (0, [], w)), c_write = (\<lambda>fd data w. (int (length data), w))\<rparr>"

lemma channel_commands:
  "IVC_UNPUBLISH_CHANNEL \<noteq> IVC_PUBLISH_CHANNEL" "IVC_UNSUBSCRIBE_CHANNEL \<noteq> IVC_SUBSCRIBE_CHANNEL"
  by code_simp+

lemma demo_cenv_ok: "libc_ok (demo_cenv bad) snd"
  unfolding libc_ok_def
proof (intro conjI)
  show "errno_ok (demo_cenv bad) snd" by (simp add: errno_ok_def demo_cenv_def)
  show "memory_ok (demo_cenv bad) snd" by (auto simp: memory_ok_def demo_cenv_def split: if_splits)
  show "files_ok (demo_cenv bad) snd" by (auto simp: files_ok_def demo_cenv_def split: if_splits)
  show "channels_ok (demo_cenv bad) snd"
    unfolding channels_ok_def by (intro conjI) (auto simp: demo_cenv_def channel_commands)
qed

definition demo_opened :: ivc_heap where
  "demo_opened = empty_heap\<lparr>hp_managers := [0x1000 \<mapsto> \<lparr>im_fd = 3, im_active_endpoints = 0\<rparr>]\<rparr>"

definition demo_publisher :: ivc_publisher where
  "demo_publisher = \<lparr>ip_manager = 0x1000, ip_publish_arg = \<lparr>pa_channel_key = 7, pa_channel_size = 20480,
    pa_device_name = ''/dev/axivc_publisher_0''\<rparr>, ip_fd = 3, ip_bytes_received = 0, ip_bytes_sent = 0\<rparr>"

definition demo_published :: ivc_heap where
  "demo_published = empty_heap\<lparr>hp_managers := [0x1000 \<mapsto> \<lparr>im_fd = 3, im_active_endpoints = 1\<rparr>],
    hp_publishers := [0x2000 \<mapsto> demo_publisher]\<rparr>"

lemma demo_calls:
  "ivc_open_manager (demo_cenv bad) empty_heap (EIO, {#}) = Returned (Some 0x1000, demo_opened, EIO, {#U_Fd 3, U_Mem 0x1000#})"
  "ivc_publish (demo_cenv bad) (Some 0x1000) 7 20480 demo_opened (EIO, {#U_Fd 3, U_Mem 0x1000#}) =
    Returned (Some 0x2000, demo_published, EIO, {#U_Pub 7, U_Fd 3, U_Mem 0x2000, U_Fd 3, U_Mem 0x1000#})"
  by (simp_all add: ivc_open_manager_def ivc_publish_def ivc_manager_is_valid_def demo_cenv_def demo_opened_def
      demo_published_def demo_publisher_def empty_heap_def Let_def add_mset_commute)

text \<open>A process publishes a channel: its manager has one endpoint and cannot be closed.\<close>

theorem library_handles_safe_witness:
  "endpoints_of demo_published 0x1000 = {0x2000} \<and>
   (\<exists>i w'. ivc_close_manager (demo_cenv False) (Some 0x1000) demo_published
      (EIO, {#U_Pub 7, U_Fd 3, U_Mem 0x2000, U_Fd 3, U_Mem 0x1000#}) = Returned (i, demo_published, w'))"
proof -
  let ?w = "(EIO, {#U_Pub 7, U_Fd 3, U_Mem 0x2000, U_Fd 3, U_Mem 0x1000#})"
  have "session_step (demo_cenv False) snd (empty_heap, EIO, {#}) (demo_opened, EIO, {#U_Fd 3, U_Mem 0x1000#})"
    by (rule session_step.open_manager) (rule demo_calls(1))
  moreover have "session_step (demo_cenv False) snd (demo_opened, EIO, {#U_Fd 3, U_Mem 0x1000#}) (demo_published, ?w)"
    by (rule session_step.publish[OF _ demo_calls(2)]) (simp add: handle_ok_def demo_opened_def)
  ultimately have r: "(session_step (demo_cenv False) snd)\<^sup>*\<^sup>* (empty_heap, EIO, {#}) (demo_published, ?w)"
    by (meson converse_rtranclp_into_rtranclp rtranclp.rtrancl_refl)
  have e: "endpoints_of demo_published 0x1000 = {0x2000}"
    by (auto simp: endpoints_of_def demo_published_def demo_publisher_def empty_heap_def split: if_splits)
  have m: "hp_managers demo_published 0x1000 = Some \<lparr>im_fd = 3, im_active_endpoints = 1\<rparr>" by (simp add: demo_published_def)
  from library_handles_safe[OF demo_cenv_ok r] m
  have "\<exists>i w'. ivc_close_manager (demo_cenv False) (Some 0x1000) demo_published ?w = Returned (i,
    if endpoints_of demo_published 0x1000 = {} then demo_published\<lparr>hp_managers := (hp_managers demo_published)(0x1000 := None)\<rparr>
    else demo_published, w')" by blast
  with e show ?thesis by simp
qed

text \<open>Closing the device fails: the publisher is consumed all the same and the error is reported.\<close>

theorem publisher_ledger_witness:
  "\<exists>i h4 w4. ivc_unpublish (demo_cenv True) (Some 0x2000) demo_published
      (EIO, {#U_Pub 7, U_Fd 3, U_Mem 0x2000, U_Fd 3, U_Mem 0x1000#}) = Returned (i, h4, w4) \<and> i \<noteq> 0 \<and>
    hp_publishers h4 0x2000 = None \<and> fst w4 = EIO \<and> snd w4 = {#U_Fd 3, U_Mem 0x1000#}"
proof -
  let ?env = "demo_cenv True" and ?w = "(EIO, {#U_Pub 7, U_Fd 3, U_Mem 0x2000, U_Fd 3, U_Mem 0x1000#})"
  let ?w2 = "(EIO, {#U_Pub 7, U_Mem 0x2000, U_Fd 3, U_Mem 0x1000#})"
  have m: "hp_managers demo_opened 0x1000 = Some \<lparr>im_fd = 3, im_active_endpoints = 0\<rparr>" by (simp add: demo_opened_def)
  have p: "hp_publishers demo_published 0x2000 = Some demo_publisher" by (simp add: demo_published_def)
  have c: "c_close ?env (ip_fd demo_publisher) ?w = (- 1, ?w2)" by (simp add: demo_cenv_def demo_publisher_def)
  have i: "c_ioctl_publish ?env 3 IVC_UNPUBLISH_CHANNEL (ip_publish_arg demo_publisher) (if (- 1 :: int) < 0 then c_print ?env ?w2 else ?w2) =
    (0, ip_publish_arg demo_publisher, EIO, {#U_Mem 0x2000, U_Fd 3, U_Mem 0x1000#})"
    by (simp add: demo_cenv_def demo_publisher_def channel_commands)
  have fd: "0 \<le> im_fd \<lparr>im_fd = 3, im_active_endpoints = 0\<rparr>" by simp
  note all = publisher_ledger[OF demo_cenv_ok m fd demo_calls(2), unfolded option.case ivc_manager.simps]
  from all obtain s where s: "hp_publishers demo_published 0x2000 = Some s" and rest:
    "\<forall>w1 r1 w2 r2 a w3. (0::u64) \<noteq> - 1 \<longrightarrow> snd w1 = snd ?w \<longrightarrow> c_close ?env (ip_fd s) w1 = (r1, w2) \<longrightarrow>
      c_ioctl_publish ?env 3 IVC_UNPUBLISH_CHANNEL (ip_publish_arg s) (if r1 < 0 then c_print ?env w2 else w2) = (r2, a, w3) \<longrightarrow>
      (\<exists>i h4 w4. ivc_unpublish ?env (Some 0x2000) demo_published w1 = Returned (i, h4, w4) \<and> hp_publishers h4 0x2000 = None \<and>
        hp_managers h4 0x1000 = Some \<lparr>im_fd = 3, im_active_endpoints = 0\<rparr> \<and> (i = 0 \<longleftrightarrow> 0 \<le> r1 \<and> 0 \<le> r2) \<and>
        snd w4 = (if r2 < 0 then add_mset (U_Pub 7) (snd (EIO, {#U_Fd 3, U_Mem 0x1000#})) else snd (EIO, {#U_Fd 3, U_Mem 0x1000#})) \<and>
        (r1 < 0 \<longrightarrow> c_errno ?env w4 = c_errno ?env w2) \<and> (0 \<le> r1 \<longrightarrow> r2 < 0 \<longrightarrow> c_errno ?env w4 = c_errno ?env w3))"
    by blast
  have "s = demo_publisher" using s p by simp
  from rest[unfolded this, rule_format, OF _ _ c i]
  show ?thesis by (auto simp: demo_cenv_def)
qed

end
