(* ===== verification/Axivc_Conversation.thy ===== *)
theory Axivc_Conversation
  imports Axivc_Demo Axivc_Session
begin

text \<open>
  What a run of the demo programs means: the conversation each of them has had with its device
  when it exits with status 0, that both keep to the same protocol, and that they always exit
  and give everything back.
\<close>

section \<open>Messages\<close>

definition pattern_message :: "ivc_app_message_kind \<Rightarrow> u64 \<Rightarrow> nat \<Rightarrow> bytes" where
  "pattern_message kind sequence n = the (snd (ivc_app_encode_pattern (Some (replicate n 0)) n kind sequence))"

definition ack_message :: "bytes \<Rightarrow> u64 \<Rightarrow> bytes" where
  "ack_message body sequence = app_header IVC_APP_MESSAGE_ACK sequence (length body) @ body"

definition requests :: "bytes list" where
  "requests = map (\<lambda>i. pattern_message IVC_APP_MESSAGE_REQUEST (of_nat (i + 1)) (ivc_app_request_lengths ! i)) [0..<IVC_APP_REQUEST_COUNT]"

definition data_messages :: "bytes list" where
  "data_messages = map (\<lambda>i. pattern_message IVC_APP_MESSAGE_DATA (of_nat (i + 1)) (ivc_app_data_lengths ! i)) [0..<IVC_APP_DATA_COUNT]"

definition is_ack :: "u64 \<Rightarrow> bytes \<Rightarrow> bool" where
  "is_ack sequence m \<longleftrightarrow> m = ack_message arceos_ack sequence \<or> m = ack_message linux_ack sequence"

text \<open>
  The replies to the five requests: the acknowledgements in order, the data messages in order,
  and every data message before the last acknowledgement.
\<close>

definition replies_ok :: "bytes list \<Rightarrow> bool" where
  "replies_ok msgs \<longleftrightarrow> (\<exists>acks final pre. msgs = pre @ [final] \<and> list_all2 is_ack [1, 2, 3, 4] acks \<and> is_ack 5 final \<and>
    pre \<in> shuffles acks data_messages)"

definition sendable :: "nat \<Rightarrow> bool" where "sendable n \<longleftrightarrow> IVC_APP_HEADER_LEN \<le> n \<and> n \<le> IVC_APP_MAX_MESSAGE_LEN"

lemma pattern_message_eq:
  assumes "ivc_app_kind_is_valid k" "sendable n"
  shows "pattern_message k s n = app_header k s (n - IVC_APP_HEADER_LEN) @ pattern_body k s (n - IVC_APP_HEADER_LEN)"
    "length (pattern_message k s n) = n"
    "length buf = IVC_APP_MAX_MESSAGE_LEN \<Longrightarrow>
      ivc_app_encode_pattern (Some buf) n k s = (True, Some (pattern_message k s n @ drop n buf))"
proof -
  have n: "IVC_APP_HEADER_LEN \<le> n" "n - IVC_APP_HEADER_LEN \<le> UINT16_MAX" "n \<le> IVC_APP_MAX_MESSAGE_LEN"
    using assms(2) by (auto simp: sendable_def app_consts)
  show 1: "pattern_message k s n = app_header k s (n - IVC_APP_HEADER_LEN) @ pattern_body k s (n - IVC_APP_HEADER_LEN)"
    using encode_pattern_eq[of n "replicate n 0" k s] assms(1) n by (simp add: pattern_message_def)
  show "length (pattern_message k s n) = n" using n by (simp add: 1)
  show "ivc_app_encode_pattern (Some buf) n k s = (True, Some (pattern_message k s n @ drop n buf))"
    if "length buf = IVC_APP_MAX_MESSAGE_LEN"
    using encode_pattern_eq[of n buf k s] assms(1) n that by (simp add: 1)
qed

lemma lengths_sendable:
  "i < IVC_APP_REQUEST_COUNT \<Longrightarrow> sendable (ivc_app_request_lengths ! i)" "i < IVC_APP_DATA_COUNT \<Longrightarrow> sendable (ivc_app_data_lengths ! i)"
proof -
  have "\<forall>n\<in>set ivc_app_request_lengths. sendable n" "\<forall>n\<in>set ivc_app_data_lengths. sendable n"
    by (simp_all add: sendable_def ivc_app_request_lengths_def ivc_app_data_lengths_def app_consts)
  moreover have "length ivc_app_request_lengths = IVC_APP_REQUEST_COUNT" "length ivc_app_data_lengths = IVC_APP_DATA_COUNT"
    by (simp_all add: ivc_app_request_lengths_def ivc_app_data_lengths_def IVC_APP_REQUEST_COUNT_def IVC_APP_DATA_COUNT_def)
  ultimately show "i < IVC_APP_REQUEST_COUNT \<Longrightarrow> sendable (ivc_app_request_lengths ! i)"
    "i < IVC_APP_DATA_COUNT \<Longrightarrow> sendable (ivc_app_data_lengths ! i)" by auto
qed

lemma kinds_valid [simp]:
  "ivc_app_kind_is_valid IVC_APP_MESSAGE_REQUEST" "ivc_app_kind_is_valid IVC_APP_MESSAGE_DATA" "ivc_app_kind_is_valid IVC_APP_MESSAGE_ACK"
  by (simp_all add: ivc_app_kind_is_valid_def)

text \<open>What a program decodes from the first \<open>n\<close> bytes of a larger buffer.\<close>

lemma decode_prefix:
  assumes "ivc_app_decode (Some p) n (Some old) = (True, Some m)" "n \<le> length p"
  shows "take n p = app_header (am_kind m) (am_sequence m) (am_body_len m) @ take (am_body_len m) (am_body m)"
    "am_body_len m + IVC_APP_HEADER_LEN = n" "am_body_len m \<le> length (am_body m)"
proof -
  let ?q = "take n p"
  from assms have len: "IVC_APP_HEADER_LEN \<le> n"
    and k: "ivc_app_kind_is_valid (ucast (p ! 0))"
    and b: "unat (ivc_app_read_le16 (drop 9 p)) = n - IVC_APP_HEADER_LEN"
    and m: "m = \<lparr>am_kind = ucast (p ! 0), am_sequence = ivc_app_read_le64 (drop 1 p),
      am_body = drop IVC_APP_HEADER_LEN p, am_body_len = unat (ivc_app_read_le16 (drop 9 p))\<rparr>"
    by (auto simp: ivc_app_decode_def Let_def split: if_splits)
  have r16: "ivc_app_read_le16 (drop 9 ?q) = ivc_app_read_le16 (drop 9 p)"
    using len assms(2) by (simp add: ivc_app_read_le16_def app_consts)
  have r64: "ivc_app_read_le64 (drop 1 ?q) = ivc_app_read_le64 (drop 1 p)"
    using len assms(2) unfolding ivc_app_read_le64_def by (intro fold_cong) (auto simp: app_consts)
  have hd: "?q ! 0 = p ! 0" using len by (simp add: app_consts)
  have lq: "length ?q = n" using assms(2) by simp
  have "ivc_app_decode (Some ?q) (length ?q) (Some old) = (True, Some (m\<lparr>am_body := drop IVC_APP_HEADER_LEN ?q\<rparr>))"
    unfolding lq using len k b by (simp add: ivc_app_decode_def Let_def r16 r64[unfolded One_nat_def] hd m del: drop_take take_drop)
  from decode_inv(1)[OF this] decode_inv(2)[OF this]
  show "take n p = app_header (am_kind m) (am_sequence m) (am_body_len m) @ take (am_body_len m) (am_body m)"
    by (simp add: m b drop_take)
  show "am_body_len m + IVC_APP_HEADER_LEN = n" using len b by (simp add: m)
  show "am_body_len m \<le> length (am_body m)" using assms(2) b by (simp add: m)
qed

lemma decode_pattern:
  assumes "ivc_app_decode (Some p) n (Some old) = (True, Some m)" "n \<le> length p"
    "ivc_app_validate_pattern (Some m) k s l" "ivc_app_kind_is_valid k" "sendable l"
  shows "take n p = pattern_message k s l"
proof -
  note d = decode_prefix[OF assms(1,2)]
  from assms(3) have v: "am_kind m = k" "am_sequence m = s" "IVC_APP_HEADER_LEN \<le> l" "am_body_len m = l - IVC_APP_HEADER_LEN"
    "\<forall>i<am_body_len m. am_body m ! i = ivc_app_pattern_byte k s i" by (simp_all add: validate_pattern_eq)
  have "take (am_body_len m) (am_body m) = pattern_body k s (am_body_len m)"
    using d(3) v(5) by (intro nth_equalityI) (auto simp: pattern_body_def)
  then show ?thesis using d(1) v(1,2,4) by (simp add: pattern_message_eq[OF assms(4,5)])
qed

lemma decode_ack:
  assumes "ivc_app_decode (Some p) n (Some old) = (True, Some m)" "n \<le> length p" "am_kind m = IVC_APP_MESSAGE_ACK"
    "ivc_app_ack_body_is_valid (Some (am_body m)) (am_body_len m)"
  shows "is_ack (am_sequence m) (take n p)"
  using decode_prefix(1)[OF assms(1,2)] assms(3,4)
  by (auto simp: is_ack_def ack_message_def ivc_app_ack_body_is_valid_def)
section \<open>Conversations\<close>

datatype io = Sent bytes | Got bytes

text \<open>
  \<open>talk env fd w xs w'\<close>: from \<open>w\<close> to \<open>w'\<close> a program has written and read exactly the messages
  \<open>xs\<close> on its device, and otherwise polled in vain, slept and printed.
\<close>

inductive talk :: "'w demo_env \<Rightarrow> int \<Rightarrow> 'w \<Rightarrow> io list \<Rightarrow> 'w \<Rightarrow> bool" for env fd where
  nothing: "talk env fd w [] w"
| print: "talk env fd (say env w) xs w' \<Longrightarrow> talk env fd w xs w'"
| sleep: "talk env fd (dm_usleep env n w) xs w' \<Longrightarrow> talk env fd w xs w'"
| poll: "c_read (dm_libc env) fd n w = (0, d, w1) \<Longrightarrow> talk env fd w1 xs w' \<Longrightarrow> talk env fd w xs w'"
| got: "c_read (dm_libc env) fd n w = (int (length d), d, w1) \<Longrightarrow> d \<noteq> [] \<Longrightarrow> talk env fd w1 xs w' \<Longrightarrow>
    talk env fd w (Got d # xs) w'"
| sent: "c_write (dm_libc env) fd d w = (int (length d), w1) \<Longrightarrow> talk env fd w1 xs w' \<Longrightarrow> talk env fd w (Sent d # xs) w'"

lemma talk_trans: "talk env fd w xs w' \<Longrightarrow> talk env fd w' ys w'' \<Longrightarrow> talk env fd w (xs @ ys) w''"
  by (induction rule: talk.induct) (auto intro: talk.intros)

text \<open>
  A read fails with -1 or stores as many bytes as it returns, at most as many as asked for; a
  write fails with -1 or returns at most what it was given.
\<close>

definition io_ok :: "'w demo_env \<Rightarrow> ('w \<Rightarrow> resource multiset) \<Rightarrow> bool" where
  "io_ok env live \<longleftrightarrow> libc_ok (dm_libc env) live \<and> (\<forall>n w. live (dm_usleep env n w) = live w) \<and>
    (\<forall>fd n w r d w'. c_read (dm_libc env) fd n w = (r, d, w') \<longrightarrow> length d \<le> n \<and> (r = - 1 \<or> r = int (length d))) \<and>
    (\<forall>fd d w r w'. c_write (dm_libc env) fd d w = (r, w') \<longrightarrow> - 1 \<le> r \<and> r \<le> int (length d))"

lemma io_rules:
  assumes "io_ok env live"
  shows "libc_ok (dm_libc env) live" "live (dm_usleep env n w) = live w" "live (say env w) = live w"
    "c_read (dm_libc env) fd n w = (r, d, w') \<Longrightarrow> length d \<le> n \<and> (r = - 1 \<or> r = int (length d))"
    "c_write (dm_libc env) fd d w = (r, w') \<Longrightarrow> - 1 \<le> r \<and> r \<le> int (length d)"
  using assms unfolding io_ok_def by (blast, blast, simp add: say_def libc_state, blast, blast)

section \<open>Endpoints\<close>

text \<open>
  What a program sees of one call on its endpoint: \<open>ok\<close> is the result a send hopes for.
\<close>

definition send_seen :: "'w demo_env \<Rightarrow> ('w \<Rightarrow> resource multiset) \<Rightarrow> int \<Rightarrow> bytes \<Rightarrow> (ivc_heap \<Rightarrow> bool) \<Rightarrow> 'w \<Rightarrow>
    (int \<times> ivc_heap \<times> 'w) outcome \<Rightarrow> bool" where
  "send_seen env live fd d kept w out \<longleftrightarrow> (\<exists>n h' w'. out = Returned (n, h', w') \<and> kept h' \<and> live w' = live w \<and>
    (n = c_int (int (length d)) \<longrightarrow> talk env fd w [Sent d] w'))"

definition recv_seen :: "'w demo_env \<Rightarrow> ('w \<Rightarrow> resource multiset) \<Rightarrow> int \<Rightarrow> bytes \<Rightarrow> (ivc_heap \<Rightarrow> bool) \<Rightarrow> 'w \<Rightarrow>
    (int \<times> bytes option \<times> ivc_heap \<times> 'w) outcome \<Rightarrow> bool" where
  "recv_seen env live fd buf kept w out \<longleftrightarrow> (\<exists>n buf' h' w'. out = Returned (n, Some buf', h', w') \<and> kept h' \<and> live w' = live w \<and>
    length buf' = length buf \<and> n \<le> int (length buf) \<and> (n = 0 \<longrightarrow> talk env fd w [] w') \<and> (0 < n \<longrightarrow> talk env fd w [Got (take (nat n) buf')] w'))"

text \<open>
  The result of a loop on an endpoint: it returns, changes only the byte counters, holds what it
  held, and when it reports success has had one of the conversations \<open>good\<close>.
\<close>

definition loop_seen :: "'w demo_env \<Rightarrow> ('w \<Rightarrow> resource multiset) \<Rightarrow> int \<Rightarrow> (ivc_heap \<Rightarrow> bool) \<Rightarrow> (io list \<Rightarrow> bool) \<Rightarrow> 'w \<Rightarrow>
    (int \<times> ivc_heap \<times> 'w) outcome \<Rightarrow> bool" where
  "loop_seen env live fd kept good w out \<longleftrightarrow> (\<exists>r h' w'. out = Returned (r, h', w') \<and> kept h' \<and> live w' = live w \<and>
    (r = 0 \<longrightarrow> (\<exists>xs. good xs \<and> talk env fd w xs w')))"

lemma loop_seen_fail: "kept h' \<Longrightarrow> live w' = live w \<Longrightarrow> loop_seen env live fd kept good w (Returned (- 1, h', w'))"
  by (simp add: loop_seen_def)

lemma loop_seen_after:
  assumes "loop_seen env live fd kept' good' w1 out" "talk env fd w ys w1" "live w1 = live w"
    "\<And>h'. kept' h' \<Longrightarrow> kept h'" "\<And>xs. good' xs \<Longrightarrow> good (ys @ xs)"
  shows "loop_seen env live fd kept good w out"
proof -
  obtain r h' w' where out: "out = Returned (r, h', w')" "kept' h'" "live w' = live w1"
    "r = 0 \<longrightarrow> (\<exists>xs. good' xs \<and> talk env fd w1 xs w')" using assms(1) unfolding loop_seen_def by blast
  then have "r = 0 \<longrightarrow> (\<exists>xs. good xs \<and> talk env fd w xs w')" using talk_trans[OF assms(2)] assms(5) by blast
  with out assms(3,4) show ?thesis unfolding loop_seen_def by auto
qed

text \<open>
  The contract of an endpoint that a demo program talks through: \<open>fd p h\<close> is the descriptor of
  a live handle, \<open>kept p h h'\<close> says that only the byte counters of its object have changed.
\<close>

locale endpoint_io =
  fixes fd :: "ptr \<Rightarrow> ivc_heap \<Rightarrow> int option"
    and kept :: "ptr \<Rightarrow> ivc_heap \<Rightarrow> ivc_heap \<Rightarrow> bool"
    and send :: "'w cenv \<Rightarrow> ptr option \<Rightarrow> bytes option \<Rightarrow> nat \<Rightarrow> ivc_heap \<Rightarrow> 'w \<Rightarrow> (int \<times> ivc_heap \<times> 'w) outcome"
    and recv :: "'w cenv \<Rightarrow> ptr option \<Rightarrow> bytes option \<Rightarrow> nat \<Rightarrow> ivc_heap \<Rightarrow> 'w \<Rightarrow> (int \<times> bytes option \<times> ivc_heap \<times> 'w) outcome"
  assumes kept_refl: "fd p h = Some x \<Longrightarrow> kept p h h"
    and kept_trans: "kept p h h1 \<Longrightarrow> kept p h1 h2 \<Longrightarrow> kept p h h2"
    and kept_fd: "kept p h h1 \<Longrightarrow> fd p h1 = fd p h"
    and send_law: "io_ok env live \<Longrightarrow> fd p h = Some x \<Longrightarrow> 0 < length d \<Longrightarrow> length d \<le> INT_MAX \<Longrightarrow>
      send_seen env live x d (kept p h) w (send (dm_libc env) (Some p) (Some (d @ rest)) (length d) h w)"
    and recv_law: "io_ok env live \<Longrightarrow> fd p h = Some x \<Longrightarrow> 0 < length buf \<Longrightarrow> length buf \<le> INT_MAX \<Longrightarrow>
      recv_seen env live x buf (kept p h) w (recv (dm_libc env) (Some p) (Some buf) (length buf) h w)"
begin

text \<open>A loop that sends one pattern message after the other.\<close>

lemma send_loop_seen:
  assumes "io_ok env live" "fd p h = Some x" "length buf = IVC_APP_MAX_MESSAGE_LEN" "ivc_app_kind_is_valid kind"
    "\<And>i. i < n \<Longrightarrow> sendable (lens ! i)"
    and unfold: "\<And>i buf h w. S i buf h w =
      (if i < n then (case ivc_app_encode_pattern (Some buf) (lens ! i) kind (of_nat (i + 1)) of
         (ok, b) \<Rightarrow> if \<not> ok then Returned (- 1, h, say env w)
         else (case send (dm_libc env) (Some p) b (lens ! i) h w of
           Freed \<Rightarrow> Freed | Diverged \<Rightarrow> Diverged
         | Returned (r, h, w) \<Rightarrow>
           if r \<noteq> c_int (int (lens ! i)) then Returned (- 1, h, say env w) else S (i + 1) (the b) h (say env w)))
       else Returned (0, h, w))"
  shows "loop_seen env live x (kept p h) (\<lambda>xs. xs = map (\<lambda>i. Sent (pattern_message kind (of_nat (i + 1)) (lens ! i))) [i..<n]) w (S i buf h w)"
  using assms(2,3)
proof (induction "n - i" arbitrary: i buf h w)
  case 0
  then show ?case by (auto simp: loop_seen_def unfold[of i] intro: kept_refl talk.intros)
next
  case (Suc k)
  let ?n = "lens ! i"
  let ?m = "pattern_message kind (of_nat (i + 1)) ?n"
  have i: "i < n" using Suc(2) by simp
  note m = pattern_message_eq[OF assms(4) assms(5)[OF i], where s = "of_nat (i + 1)"]
  have len: "0 < length ?m" "length ?m \<le> INT_MAX" "length (?m @ drop ?n buf) = IVC_APP_MAX_MESSAGE_LEN"
    using assms(5)[OF i] m(2) Suc.prems(2) by (auto simp: sendable_def app_consts INT_MAX_def)
  obtain r h1 w1 where snd: "send (dm_libc env) (Some p) (Some (?m @ drop ?n buf)) ?n h w = Returned (r, h1, w1)"
    "kept p h h1" "live w1 = live w" "r = c_int (int ?n) \<longrightarrow> talk env x w [Sent ?m] w1"
    using send_law[OF assms(1) Suc.prems(1) len(1,2), where rest = "drop ?n buf" and w = w] unfolding send_seen_def m(2) by blast
  note say = io_rules(3)[OF assms(1)]
  have run: "S i buf h w = (if r \<noteq> c_int (int ?n) then Returned (- 1, h1, say env w1)
      else S (i + 1) (?m @ drop ?n buf) h1 (say env w1))"
    using i snd(1) m(3)[OF Suc.prems(2)] by (subst unfold) simp
  show ?case
  proof (cases "r = c_int (int ?n)")
    case True
    have "fd p h1 = Some x" using kept_fd[OF snd(2)] Suc.prems(1) by simp
    then have "loop_seen env live x (kept p h1) (\<lambda>xs. xs = map (\<lambda>i. Sent (pattern_message kind (of_nat (i + 1)) (lens ! i))) [i + 1..<n])
        (say env w1) (S (i + 1) (?m @ drop ?n buf) h1 (say env w1))"
      using Suc.hyps(2) by (intro Suc.hyps(1) len(3)) simp_all
    moreover have "talk env x w [Sent ?m] (say env w1)"
      using talk_trans[OF snd(4)[rule_format, OF True] talk.print[OF talk.nothing]] by simp
    moreover have "[i..<n] = i # [i + 1..<n]" using i by (simp add: upt_conv_Cons)
    ultimately show ?thesis
      unfolding run using True snd(3) say kept_trans[OF snd(2)] by (auto elim!: loop_seen_after)
  next
    case False
    then show ?thesis unfolding run using snd(2,3) say by (simp add: loop_seen_fail)
  qed
qed

text \<open>A loop that polls for the next message \<open>m\<close> and hands it to \<open>G\<close>.\<close>

lemma poll_loop_seen:
  assumes "io_ok env live" "fd p h = Some x" "length buf = IVC_APP_MAX_MESSAGE_LEN"
    and unfold: "\<And>buf e h w. L buf e h w =
      (case recv (dm_libc env) (Some p) (Some buf) IVC_APP_MAX_MESSAGE_LEN h w of
         Freed \<Rightarrow> Freed | Diverged \<Rightarrow> Diverged
       | Returned (n, buf', h, w) \<Rightarrow>
         if n < 0 then Returned (- 1, h, say env w)
         else if n = 0 then
           if e + 1 > MAX_EMPTY_POLLS then Returned (- 1, h, say env w)
           else L (the buf') (e + 1) h (dm_usleep env POLL_INTERVAL_US w)
         else G (the buf') (nat n) h w)"
    and handle: "\<And>b n h w. length b = IVC_APP_MAX_MESSAGE_LEN \<Longrightarrow> 0 < n \<Longrightarrow> n \<le> length b \<Longrightarrow> fd p h = Some x \<Longrightarrow>
      loop_seen env live x (kept p h) (\<lambda>xs. good (Got (take n b) # xs)) w (G b n h w)"
  shows "loop_seen env live x (kept p h) good w (L buf e h w)"
  using assms(2,3)
proof (induction "polls_left e" arbitrary: e buf h w rule: less_induct)
  case less
  note say = io_rules(3)[OF assms(1)] and sleep = io_rules(2)[OF assms(1)]
  have max: "0 < length buf" "length buf \<le> INT_MAX" using less.prems(2) by (simp_all add: app_consts INT_MAX_def)
  obtain n b1 h1 w1 where rcv: "recv (dm_libc env) (Some p) (Some buf) IVC_APP_MAX_MESSAGE_LEN h w = Returned (n, Some b1, h1, w1)"
    "kept p h h1" "live w1 = live w" "length b1 = IVC_APP_MAX_MESSAGE_LEN" "n \<le> int (length b1)"
    "n = 0 \<longrightarrow> talk env x w [] w1" "0 < n \<longrightarrow> talk env x w [Got (take (nat n) b1)] w1"
    using recv_law[OF assms(1) less.prems(1) max, of w] less.prems(2) unfolding recv_seen_def by auto
  have fd: "fd p h1 = Some x" using kept_fd[OF rcv(2)] less.prems(1) by simp
  consider (bad) "n < 0 \<or> n = 0 \<and> MAX_EMPTY_POLLS < e + 1" | (empty) "n = 0" "\<not> MAX_EMPTY_POLLS < e + 1" | (got) "0 < n" by linarith
  then show ?case
  proof cases
    case bad
    then show ?thesis using rcv(1,2,3) say by (subst unfold) (auto intro: loop_seen_fail)
  next
    case empty
    then have run: "L buf e h w = L b1 (e + 1) h1 (dm_usleep env POLL_INTERVAL_US w1)"
      using rcv(1) by (subst unfold) simp
    have "loop_seen env live x (kept p h1) good (dm_usleep env POLL_INTERVAL_US w1) (L b1 (e + 1) h1 (dm_usleep env POLL_INTERVAL_US w1))"
      by (rule less.hyps[OF polls_left_step[OF empty(2)] fd rcv(4)])
    moreover have "talk env x w [] (dm_usleep env POLL_INTERVAL_US w1)"
      using talk_trans[OF rcv(6)[rule_format, OF empty(1)] talk.sleep[OF talk.nothing]] by simp
    ultimately show ?thesis unfolding run using rcv(3) sleep kept_trans[OF rcv(2)] by (auto elim!: loop_seen_after)
  next
    case got
    then have run: "L buf e h w = G b1 (nat n) h1 w1" using rcv(1) by (subst unfold) simp
    have "loop_seen env live x (kept p h1) (\<lambda>xs. good (Got (take (nat n) b1) # xs)) w1 (G b1 (nat n) h1 w1)"
      using got rcv(5) by (intro handle rcv(4) fd) auto
    then show ?thesis
      unfolding run using rcv(3,7) got kept_trans[OF rcv(2)] by (auto elim!: loop_seen_after)
  qed
qed

end

section \<open>The two kinds of endpoint\<close>

definition pub_fd :: "ptr \<Rightarrow> ivc_heap \<Rightarrow> int option" where "pub_fd p h = map_option ip_fd (hp_publishers h p)"
definition sub_fd :: "ptr \<Rightarrow> ivc_heap \<Rightarrow> int option" where "sub_fd p h = map_option is_fd (hp_subscribers h p)"

definition kept_pub :: "ptr \<Rightarrow> ivc_heap \<Rightarrow> ivc_heap \<Rightarrow> bool" where
  "kept_pub p h h' \<longleftrightarrow> (\<exists>s a b. hp_publishers h p = Some s \<and>
    h' = h\<lparr>hp_publishers := (hp_publishers h)(p \<mapsto> s\<lparr>ip_bytes_received := a, ip_bytes_sent := b\<rparr>)\<rparr>)"

definition kept_sub :: "ptr \<Rightarrow> ivc_heap \<Rightarrow> ivc_heap \<Rightarrow> bool" where
  "kept_sub p h h' \<longleftrightarrow> (\<exists>s a b. hp_subscribers h p = Some s \<and>
    h' = h\<lparr>hp_subscribers := (hp_subscribers h)(p \<mapsto> s\<lparr>is_bytes_received := a, is_bytes_sent := b\<rparr>)\<rparr>)"

lemma kept_pubI:
  assumes "hp_publishers h p = Some s"
  shows "kept_pub p h h" "kept_pub p h (h\<lparr>hp_publishers := (hp_publishers h)(p \<mapsto> s\<lparr>ip_bytes_sent := a\<rparr>)\<rparr>)"
    "kept_pub p h (h\<lparr>hp_publishers := (hp_publishers h)(p \<mapsto> s\<lparr>ip_bytes_received := a\<rparr>)\<rparr>)"
  unfolding kept_pub_def using assms
  by (intro exI[of _ s] exI[of _ "ip_bytes_received s"] exI[of _ "ip_bytes_sent s"], simp add: fun_upd_idem,
      intro exI[of _ s] exI[of _ "ip_bytes_received s"] exI[of _ a], simp,
      intro exI[of _ s] exI[of _ a] exI[of _ "ip_bytes_sent s"], simp)

lemma kept_subI:
  assumes "hp_subscribers h p = Some s"
  shows "kept_sub p h h" "kept_sub p h (h\<lparr>hp_subscribers := (hp_subscribers h)(p \<mapsto> s\<lparr>is_bytes_sent := a\<rparr>)\<rparr>)"
    "kept_sub p h (h\<lparr>hp_subscribers := (hp_subscribers h)(p \<mapsto> s\<lparr>is_bytes_received := a\<rparr>)\<rparr>)"
  unfolding kept_sub_def using assms
  by (intro exI[of _ s] exI[of _ "is_bytes_received s"] exI[of _ "is_bytes_sent s"], simp add: fun_upd_idem,
      intro exI[of _ s] exI[of _ "is_bytes_received s"] exI[of _ a], simp,
      intro exI[of _ s] exI[of _ a] exI[of _ "is_bytes_sent s"], simp)

text \<open>The system calls behind one transfer.\<close>

lemma write_facts:
  assumes "io_ok env live" "length d \<le> INT_MAX" "c_write (dm_libc env) fd d w = (r, w')"
  shows "c_int (int (length d)) = int (length d)" "c_int r = r" "live w' = live w"
    "r = int (length d) \<Longrightarrow> talk env fd w [Sent d] w'"
  using io_rules(5)[OF assms(1,3)] libc_files(4)[OF io_rules(1)[OF assms(1)] assms(3)] assms(2,3)
  by (auto intro!: c_int_id talk.sent[OF _ talk.nothing] simp: INT_MAX_def)

lemma read_facts:
  assumes "io_ok env live" "length buf \<le> INT_MAX" "c_read (dm_libc env) fd (length buf) w = (r, d, w')"
  shows "length d \<le> length buf" "r = - 1 \<or> r = int (length d)" "c_int r = r" "live w' = live w"
    "r = 0 \<Longrightarrow> talk env fd w [] w'" "0 < r \<Longrightarrow> talk env fd w [Got d] w'"
    "take (length d) (memcpy_at 0 d buf) = d" "length (memcpy_at 0 d buf) = length buf"
proof -
  note r = io_rules(4)[OF assms(1,3)] and l = libc_files(3)[OF io_rules(1)[OF assms(1)] assms(3)]
  show "length d \<le> length buf" "r = - 1 \<or> r = int (length d)" "live w' = live w" using r l by auto
  then show "c_int r = r" using assms(2) by (intro c_int_id) (auto simp: INT_MAX_def)
  show "r = 0 \<Longrightarrow> talk env fd w [] w'" using talk.poll[OF _ talk.nothing] assms(3) by simp
  show "0 < r \<Longrightarrow> talk env fd w [Got d] w'" using talk.got[OF _ _ talk.nothing] assms(3) r by auto
  show "take (length d) (memcpy_at 0 d buf) = d" "length (memcpy_at 0 d buf) = length buf"
    using take_memcpy_at_end[of 0 buf d] r by simp_all
qed

lemma publisher_send_law:
  assumes "io_ok env live" "pub_fd p h = Some x" "0 < length d" "length d \<le> INT_MAX"
  shows "send_seen env live x d (kept_pub p h) w (ivc_publisher_send (dm_libc env) (Some p) (Some (d @ rest)) (length d) h w)"
proof -
  obtain s where s: "hp_publishers h p = Some s" "ip_fd s = x" using assms(2) by (auto simp: pub_fd_def)
  obtain r w1 where r: "c_write (dm_libc env) x d w = (r, w1)" by fastforce
  note f = write_facts[OF assms(1,4) r] and l = libc_state[OF io_rules(1)[OF assms(1)]]
  show ?thesis using s r assms(3,4) f kept_pubI[OF s(1)] by (auto simp: send_seen_def ivc_publisher_send_def Let_def l)
qed

lemma subscriber_send_law:
  assumes "io_ok env live" "sub_fd p h = Some x" "0 < length d" "length d \<le> INT_MAX"
  shows "send_seen env live x d (kept_sub p h) w (ivc_subscriber_send (dm_libc env) (Some p) (Some (d @ rest)) (length d) h w)"
proof -
  obtain s where s: "hp_subscribers h p = Some s" "is_fd s = x" using assms(2) by (auto simp: sub_fd_def)
  obtain r w1 where r: "c_write (dm_libc env) x d w = (r, w1)" by fastforce
  note f = write_facts[OF assms(1,4) r] and l = libc_state[OF io_rules(1)[OF assms(1)]]
  show ?thesis using s r assms(3,4) f kept_subI[OF s(1)] by (auto simp: send_seen_def ivc_subscriber_send_def Let_def l)
qed

lemma publisher_recv_law:
  assumes "io_ok env live" "pub_fd p h = Some x" "0 < length buf" "length buf \<le> INT_MAX"
  shows "recv_seen env live x buf (kept_pub p h) w (ivc_publisher_recv (dm_libc env) (Some p) (Some buf) (length buf) h w)"
proof -
  obtain s where s: "hp_publishers h p = Some s" "ip_fd s = x" using assms(2) by (auto simp: pub_fd_def)
  obtain r d w1 where r: "c_read (dm_libc env) x (length buf) w = (r, d, w1)" by (metis prod_cases3)
  note f = read_facts[OF assms(1,4) r] and l = libc_state[OF io_rules(1)[OF assms(1)]]
  show ?thesis using s r assms(3,4) f kept_pubI[OF s(1)] by (auto simp: recv_seen_def ivc_publisher_recv_def Let_def l)
qed

lemma subscriber_recv_law:
  assumes "io_ok env live" "sub_fd p h = Some x" "0 < length buf" "length buf \<le> INT_MAX"
  shows "recv_seen env live x buf (kept_sub p h) w (ivc_subscriber_recv (dm_libc env) (Some p) (Some buf) (length buf) h w)"
proof -
  obtain s where s: "hp_subscribers h p = Some s" "is_fd s = x" using assms(2) by (auto simp: sub_fd_def)
  obtain r d w1 where r: "c_read (dm_libc env) x (length buf) w = (r, d, w1)" by (metis prod_cases3)
  note f = read_facts[OF assms(1,4) r] and l = libc_state[OF io_rules(1)[OF assms(1)]]
  show ?thesis using s r assms(3,4) f kept_subI[OF s(1)] by (auto simp: recv_seen_def ivc_subscriber_recv_def Let_def l)
qed

interpretation pub_io: endpoint_io pub_fd kept_pub ivc_publisher_send ivc_publisher_recv
proof
  show "kept_pub p h h" if "pub_fd p h = Some x" for p h x using that kept_pubI(1) by (auto simp: pub_fd_def)
  show "kept_pub p h h2" if "kept_pub p h h1" "kept_pub p h1 h2" for p h h1 h2 using that by (auto simp: kept_pub_def) blast
  show "pub_fd p h1 = pub_fd p h" if "kept_pub p h h1" for p h h1 using that by (auto simp: kept_pub_def pub_fd_def)
qed (rule publisher_send_law publisher_recv_law, assumption+)+

interpretation sub_io: endpoint_io sub_fd kept_sub ivc_subscriber_send ivc_subscriber_recv
proof
  show "kept_sub p h h" if "sub_fd p h = Some x" for p h x using that kept_subI(1) by (auto simp: sub_fd_def)
  show "kept_sub p h h2" if "kept_sub p h h1" "kept_sub p h1 h2" for p h h1 h2 using that by (auto simp: kept_sub_def) blast
  show "sub_fd p h1 = sub_fd p h" if "kept_sub p h h1" for p h h1 using that by (auto simp: kept_sub_def sub_fd_def)
qed (rule subscriber_send_law subscriber_recv_law, assumption+)+
section \<open>The loops of the programs\<close>

lemma send_requests_seen:
  assumes "io_ok env live" "pub_fd p h = Some x"
  shows "loop_seen env live x (kept_pub p h) (\<lambda>xs. xs = map Sent requests) w (send_requests env p h w)"
proof -
  have "loop_seen env live x (kept_pub p h) (\<lambda>xs. xs = map (\<lambda>i. Sent (pattern_message IVC_APP_MESSAGE_REQUEST
      (of_nat (i + 1)) (ivc_app_request_lengths ! i))) [0..<IVC_APP_REQUEST_COUNT]) w
      (send_requests_from env p 0 (replicate IVC_APP_MAX_MESSAGE_LEN 0) h w)"
    using assms lengths_sendable(1)
    by (intro pub_io.send_loop_seen) (simp_all add: send_requests_from.simps[of env p] Let_def)
  then show ?thesis by (simp add: send_requests_def requests_def comp_def)
qed

lemma send_data_messages_seen:
  assumes "io_ok env live" "sub_fd p h = Some x"
  shows "loop_seen env live x (kept_sub p h) (\<lambda>xs. xs = map Sent data_messages) w (send_data_messages env p h w)"
proof -
  have "loop_seen env live x (kept_sub p h) (\<lambda>xs. xs = map (\<lambda>i. Sent (pattern_message IVC_APP_MESSAGE_DATA
      (of_nat (i + 1)) (ivc_app_data_lengths ! i))) [0..<IVC_APP_DATA_COUNT]) w
      (send_data_messages_from env p 0 (replicate IVC_APP_MAX_MESSAGE_LEN 0) h w)"
    using assms lengths_sendable(2)
    by (intro sub_io.send_loop_seen) (simp_all add: send_data_messages_from.simps[of env p] Let_def)
  then show ?thesis by (simp add: send_data_messages_def data_messages_def comp_def)
qed

lemma ack_body: "ACK_BODY = linux_ack"
  by (simp add: ACK_BODY_def linux_ack_def)

lemma send_ack_seen:
  assumes "io_ok env live" "sub_fd p h = Some x"
  shows "loop_seen env live x (kept_sub p h) (\<lambda>xs. xs = [Sent (ack_message linux_ack sequence)]) w (send_ack env p sequence h w)"
proof -
  let ?m = "ack_message linux_ack sequence" and ?n = "IVC_APP_HEADER_LEN + length linux_ack"
  have l: "length linux_ack = 25" by (simp add: linux_ack_def ascii_def)
  then have len: "length ?m = ?n" "0 < length ?m" "length ?m \<le> INT_MAX" "length linux_ack \<le> UINT16_MAX"
    by (simp_all add: ack_message_def INT_MAX_def app_consts)
  have enc: "ivc_app_encode_text (Some (replicate ?n 0)) ?n IVC_APP_MESSAGE_ACK sequence (Some linux_ack) (length linux_ack) (Some 0) =
    (True, Some (?m @ []), Some ?n)"
    using encode_text_eq[of ?n "replicate ?n 0" linux_ack "length linux_ack"] len(4) by (simp add: ack_message_def)
  obtain n h1 w1 where snd: "ivc_subscriber_send (dm_libc env) (Some p) (Some (?m @ [])) ?n h w = Returned (n, h1, w1)"
    "kept_sub p h h1" "live w1 = live w" "n = c_int (int ?n) \<longrightarrow> talk env x w [Sent ?m] w1"
    using subscriber_send_law[OF assms len(2,3), where rest = "[]" and w = w] unfolding send_seen_def len(1) by blast
  have "n = c_int (int ?n) \<longrightarrow> talk env x w [Sent ?m] (say env w1)"
    using talk_trans[OF snd(4)[rule_format] talk.print[OF talk.nothing]] by simp
  with snd enc io_rules(3)[OF assms(1)] show ?thesis by (simp add: send_ack_def ack_body Let_def loop_seen_def)
qed

lemma loop_seen_more: "loop_seen env live x kept good w out \<Longrightarrow> (\<And>xs. good xs \<Longrightarrow> good' xs) \<Longrightarrow> loop_seen env live x kept good' w out"
  unfolding loop_seen_def by blast

lemma loop_seen_done: "kept h \<Longrightarrow> good [] \<Longrightarrow> loop_seen env live x kept good w (Returned (0, h, w))"
  by (auto simp: loop_seen_def intro: talk.nothing)

text \<open>Each request is answered as it arrives.\<close>

definition exchange :: "nat \<Rightarrow> io list" where
  "exchange i = [Got (requests ! i), Sent (ack_message linux_ack (of_nat (i + 1)))]"

lemma request_nth: "i < IVC_APP_REQUEST_COUNT \<Longrightarrow>
    requests ! i = pattern_message IVC_APP_MESSAGE_REQUEST (of_nat (i + 1)) (ivc_app_request_lengths ! i)"
  by (simp add: requests_def)

definition on_request ::
  "'w demo_env \<Rightarrow> ptr \<Rightarrow> nat \<Rightarrow> bytes \<Rightarrow> nat \<Rightarrow> ivc_heap \<Rightarrow> 'w \<Rightarrow> (int \<times> ivc_heap \<times> 'w) outcome" where
  "on_request env p i b n h w = (case ivc_app_decode (Some b) n (Some blank_message) of
     (ok, message) \<Rightarrow>
     if \<not> ok \<or> \<not> ivc_app_validate_pattern message IVC_APP_MESSAGE_REQUEST (of_nat (i + 1)) (ivc_app_request_lengths ! i)
     then Returned (- 1, h, say env w)
     else (case send_ack env p (am_sequence (the message)) h (say env w) of
       Freed \<Rightarrow> Freed
     | Diverged \<Rightarrow> Diverged
     | Returned (r, h, w) \<Rightarrow> if r \<noteq> 0 then Returned (- 1, h, w) else receive_requests_loop env p b (i + 1) 0 h w))"

lemma receive_requests_seen:
  assumes "io_ok env live" "sub_fd p h = Some x" "length buf = IVC_APP_MAX_MESSAGE_LEN"
  shows "loop_seen env live x (kept_sub p h) (\<lambda>xs. xs = concat (map exchange [i..<IVC_APP_REQUEST_COUNT])) w
    (receive_requests_loop env p buf i e h w)"
  using assms(2,3)
proof (induction "IVC_APP_REQUEST_COUNT - i" arbitrary: i e buf h w)
  case 0
  then show ?case
    using sub_io.kept_refl by (auto simp: receive_requests_loop.simps[of env p buf i] intro!: loop_seen_done)
next
  case (Suc k)
  have i: "i < IVC_APP_REQUEST_COUNT" using Suc(2) by simp
  have up: "[i..<IVC_APP_REQUEST_COUNT] = i # [i + 1..<IVC_APP_REQUEST_COUNT]" using i by (simp add: upt_conv_Cons)
  show ?case
  proof (rule sub_io.poll_loop_seen[OF assms(1) Suc.prems, where G = "on_request env p i"])
    show "receive_requests_loop env p buf i e h w = (case ivc_subscriber_recv (dm_libc env) (Some p) (Some buf) IVC_APP_MAX_MESSAGE_LEN h w of
         Freed \<Rightarrow> Freed | Diverged \<Rightarrow> Diverged
       | Returned (n, buf', h, w) \<Rightarrow>
         if n < 0 then Returned (- 1, h, say env w)
         else if n = 0 then
           if e + 1 > MAX_EMPTY_POLLS then Returned (- 1, h, say env w)
           else receive_requests_loop env p (the buf') i (e + 1) h (dm_usleep env POLL_INTERVAL_US w)
         else on_request env p i (the buf') (nat n) h w)" for buf e h w
      unfolding on_request_def by (subst receive_requests_loop.simps) (simp only: Let_def i if_True)
  next
    fix b :: bytes and n h w
    assume b: "length b = IVC_APP_MAX_MESSAGE_LEN" "0 < n" "n \<le> length b" "sub_fd p h = Some x"
    let ?good = "\<lambda>xs. Got (take n b) # xs = concat (map exchange [i..<IVC_APP_REQUEST_COUNT])"
    obtain ok msg where d: "ivc_app_decode (Some b) n (Some blank_message) = (ok, msg)" by fastforce
    note say = io_rules(3)[OF assms(1)]
    show "loop_seen env live x (kept_sub p h) ?good w (on_request env p i b n h w)"
    proof (cases "ok \<and> ivc_app_validate_pattern msg IVC_APP_MESSAGE_REQUEST (of_nat (i + 1)) (ivc_app_request_lengths ! i)")
      case False
      then show ?thesis using d say sub_io.kept_refl[OF b(4)] by (auto simp: on_request_def intro: loop_seen_fail)
    next
      case True
      then obtain m where m: "msg = Some m" by (cases msg) (simp_all add: ivc_app_validate_pattern_def)
      have sq: "am_sequence m = of_nat (i + 1)" using True m by (simp add: validate_pattern_eq)
      have msg: "take n b = requests ! i"
        using decode_pattern[OF _ b(3) _ kinds_valid(1) lengths_sendable(1)[OF i]] d True m request_nth[OF i] by auto
      obtain r h2 w2 where ack: "send_ack env p (of_nat (i + 1)) h (say env w) = Returned (r, h2, w2)" "kept_sub p h h2"
        "live w2 = live w" "r = 0 \<longrightarrow> talk env x (say env w) [Sent (ack_message linux_ack (of_nat (i + 1)))] w2"
        using send_ack_seen[OF assms(1) b(4), where sequence = "of_nat (i + 1)" and w = "say env w"] say
        unfolding loop_seen_def by auto
      have run: "on_request env p i b n h w = (if r \<noteq> 0 then Returned (- 1, h2, w2) else receive_requests_loop env p b (i + 1) 0 h2 w2)"
        using d True m ack(1) sq by (simp add: on_request_def)
      have "sub_fd p h2 = Some x" using sub_io.kept_fd[OF ack(2)] b(4) by simp
      then have after: "loop_seen env live x (kept_sub p h2) (\<lambda>xs. xs = concat (map exchange [i + 1..<IVC_APP_REQUEST_COUNT])) w2
          (receive_requests_loop env p b (i + 1) 0 h2 w2)" using Suc.hyps(2) by (intro Suc.hyps(1) b(1)) simp_all
      show ?thesis
      proof (cases "r = 0")
        case True
        then have "talk env x w [Sent (ack_message linux_ack (of_nat (i + 1)))] w2" using ack(4) by (blast intro: talk.print)
        with after True show ?thesis
          unfolding run using sub_io.kept_trans[OF ack(2)] ack(3) by (auto simp: up exchange_def msg elim!: loop_seen_after)
      qed (use run ack in \<open>simp add: loop_seen_fail\<close>)
    qed
  qed
qed
text \<open>What may still come when \<open>a\<close> acknowledgements and \<open>d\<close> data messages have been read.\<close>

definition replies_from :: "nat \<Rightarrow> nat \<Rightarrow> bytes list \<Rightarrow> bool" where
  "replies_from a d msgs \<longleftrightarrow> (if a < 5 then \<exists>acks final pre. msgs = pre @ [final] \<and>
      list_all2 is_ack (map of_nat [a + 1..<5]) acks \<and> is_ack 5 final \<and> pre \<in> shuffles acks (drop d data_messages)
    else msgs = [])"

lemma length_data_messages: "length data_messages = 3"
  by (simp add: data_messages_def IVC_APP_DATA_COUNT_def)

lemma replies_ack:
  assumes "a < 5" "is_ack (of_nat (a + 1)) m" "replies_from (a + 1) d msgs" "a = 4 \<Longrightarrow> d = 3"
  shows "replies_from a d (m # msgs)"
proof (cases "a = 4")
  case True
  with assms show ?thesis by (simp add: replies_from_def length_data_messages)
next
  case False
  with assms(1) have a: "a + 1 < 5" by simp
  with assms(3) obtain acks final pre where r: "msgs = pre @ [final]" "list_all2 is_ack (map of_nat [a + 2..<5]) acks"
    "is_ack 5 final" "pre \<in> shuffles acks (drop d data_messages)" by (auto simp: replies_from_def)
  have "list_all2 is_ack (map of_nat [a + 1..<5]) (m # acks)" using a assms(2) r(2) by (simp add: upt_conv_Cons)
  moreover have "m # pre \<in> shuffles (m # acks) (drop d data_messages)" using r(4) by (rule Cons_in_shuffles_leftI)
  ultimately show ?thesis
    unfolding replies_from_def if_P[OF assms(1)]
    using r(1,3) by (intro exI[of _ "m # acks"] exI[of _ final] exI[of _ "m # pre"]) simp
qed

lemma replies_data:
  assumes "a < 5" "d < 3" "replies_from a (d + 1) msgs"
  shows "replies_from a d (data_messages ! d # msgs)"
proof -
  from assms(1,3) obtain acks final pre where r: "msgs = pre @ [final]" "list_all2 is_ack (map of_nat [a + 1..<5]) acks"
    "is_ack 5 final" "pre \<in> shuffles acks (drop (d + 1) data_messages)" by (auto simp: replies_from_def)
  have "data_messages ! d # pre \<in> shuffles acks (data_messages ! d # drop (d + 1) data_messages)"
    using r(4) by (rule Cons_in_shuffles_rightI)
  moreover have "data_messages ! d # drop (d + 1) data_messages = drop d data_messages"
    using assms(2) length_data_messages by (simp add: Cons_nth_drop_Suc)
  ultimately show ?thesis
    unfolding replies_from_def if_P[OF assms(1)]
    using r(1,2,3) by (intro exI[of _ acks] exI[of _ final] exI[of _ "data_messages ! d # pre"]) simp
qed

lemma sequence_tests:
  assumes "a \<le> 5" "d \<le> 3"
  shows "(of_nat (a + 1) :: u64) \<le> of_nat IVC_APP_REQUEST_COUNT \<longleftrightarrow> a < 5"
    "(of_nat (a + 1) :: u64) = of_nat IVC_APP_REQUEST_COUNT \<longleftrightarrow> a = 4"
    "(of_nat (d + 1) :: u64) = of_nat (IVC_APP_DATA_COUNT + 1) \<longleftrightarrow> d = 3"
    "(of_nat (d + 1) :: u64) > of_nat IVC_APP_DATA_COUNT \<longleftrightarrow> d = 3"
    "unat ((of_nat (d + 1) :: u64) - 1) = d"
proof -
  have a: "unat (of_nat (a + 1) :: u64) = a + 1" using assms(1) by (intro unat_of_nat_u64) simp
  have d: "unat (of_nat (d + 1) :: u64) = d + 1" using assms(2) by (intro unat_of_nat_u64) simp
  show "(of_nat (a + 1) :: u64) \<le> of_nat IVC_APP_REQUEST_COUNT \<longleftrightarrow> a < 5"
    "(of_nat (a + 1) :: u64) = of_nat IVC_APP_REQUEST_COUNT \<longleftrightarrow> a = 4"
    using a unfolding word_le_nat_alt word_unat_eq_iff IVC_APP_REQUEST_COUNT_def by auto
  show "(of_nat (d + 1) :: u64) = of_nat (IVC_APP_DATA_COUNT + 1) \<longleftrightarrow> d = 3"
    "(of_nat (d + 1) :: u64) > of_nat IVC_APP_DATA_COUNT \<longleftrightarrow> d = 3"
    using d assms(2) unfolding word_less_nat_alt word_unat_eq_iff IVC_APP_DATA_COUNT_def by auto
  have "unat (of_nat d :: u64) = d" using assms(2) by (intro unat_of_nat_u64) simp
  then show "unat ((of_nat (d + 1) :: u64) - 1) = d" by simp
qed

definition on_reply ::
  "'w demo_env \<Rightarrow> ptr \<Rightarrow> u64 \<Rightarrow> u64 \<Rightarrow> bytes \<Rightarrow> nat \<Rightarrow> ivc_heap \<Rightarrow> 'w \<Rightarrow> (int \<times> ivc_heap \<times> 'w) outcome" where
  "on_reply env p ack data b n h w = (case ivc_app_decode (Some b) n (Some blank_message) of
     (ok, message') \<Rightarrow>
     if \<not> ok then Returned (- 1, h, say env w)
     else if am_kind (the message') = IVC_APP_MESSAGE_ACK then
       if am_sequence (the message') \<noteq> ack \<or>
          \<not> ivc_app_ack_body_is_valid (Some (am_body (the message'))) (am_body_len (the message'))
       then Returned (- 1, h, say env w)
       else if ack = of_nat IVC_APP_REQUEST_COUNT \<and> data \<noteq> of_nat (IVC_APP_DATA_COUNT + 1)
       then Returned (- 1, h, say env w)
       else receive_replies_loop env p b (ack + 1) data 0 h (say env w)
     else if am_kind (the message') = IVC_APP_MESSAGE_DATA then
       if data > of_nat IVC_APP_DATA_COUNT then Returned (- 1, h, say env w)
       else if \<not> ivc_app_validate_pattern (Some (the message')) IVC_APP_MESSAGE_DATA data (ivc_app_data_lengths ! unat (data - 1))
       then Returned (- 1, h, say env w)
       else receive_replies_loop env p b ack (data + 1) 0 h (say env w)
     else Returned (- 1, h, say env w))"

lemma on_reply_cases:
  assumes "a < 5" "d \<le> 3" "n \<le> length b"
  obtains (bad) "on_reply env p (of_nat (a + 1)) (of_nat (d + 1)) b n h w = Returned (- 1, h, say env w)"
  | (ack) "is_ack (of_nat (a + 1)) (take n b)" "a = 4 \<Longrightarrow> d = 3" "on_reply env p (of_nat (a + 1)) (of_nat (d + 1)) b n h w =
      receive_replies_loop env p b (of_nat (a + 1 + 1)) (of_nat (d + 1)) 0 h (say env w)"
  | (data) "d < 3" "take n b = data_messages ! d" "on_reply env p (of_nat (a + 1)) (of_nat (d + 1)) b n h w =
      receive_replies_loop env p b (of_nat (a + 1)) (of_nat (d + 1 + 1)) 0 h (say env w)"
proof -
  have "a \<le> 5" using assms(1) by simp
  note tests = sequence_tests[OF this assms(2)]
  have suc: "(of_nat (k + 1 + 1) :: u64) = of_nat (k + 1) + 1" for k by simp
  obtain ok msg where dec: "ivc_app_decode (Some b) n (Some blank_message) = (ok, msg)" by fastforce
  let ?K = "am_kind (the msg)" and ?V = "ivc_app_validate_pattern (Some (the msg)) IVC_APP_MESSAGE_DATA (of_nat (d + 1)) (ivc_app_data_lengths ! d)"
  let ?B = "ivc_app_ack_body_is_valid (Some (am_body (the msg))) (am_body_len (the msg))"
  have run: "on_reply env p (of_nat (a + 1)) (of_nat (d + 1)) b n h w =
    (if ok \<and> ?K = IVC_APP_MESSAGE_ACK \<and> am_sequence (the msg) = of_nat (a + 1) \<and> ?B \<and> (a = 4 \<longrightarrow> d = 3)
     then receive_replies_loop env p b (of_nat (a + 1 + 1)) (of_nat (d + 1)) 0 h (say env w)
     else if ok \<and> ?K = IVC_APP_MESSAGE_DATA \<and> d \<noteq> 3 \<and> ?V
     then receive_replies_loop env p b (of_nat (a + 1)) (of_nat (d + 1 + 1)) 0 h (say env w)
     else Returned (- 1, h, say env w))"
    unfolding on_reply_def dec prod.case tests suc by (auto simp: kind_consts)
  have msg: "ivc_app_decode (Some b) n (Some blank_message) = (True, Some (the msg))" if ok
    using dec that by (auto simp: ivc_app_decode_def Let_def split: if_splits)
  show thesis
  proof (cases "ok \<and> ?K = IVC_APP_MESSAGE_ACK \<and> am_sequence (the msg) = of_nat (a + 1) \<and> ?B \<and> (a = 4 \<longrightarrow> d = 3)")
    case True
    then have "is_ack (am_sequence (the msg)) (take n b)" using decode_ack[OF msg assms(3)] by blast
    then have "is_ack (of_nat (a + 1)) (take n b)" using True by metis
    moreover have "a = 4 \<Longrightarrow> d = 3" using True by blast
    ultimately show thesis using run[unfolded if_P[OF True]] by (rule ack)
  next
    case no: False
    show thesis
    proof (cases "ok \<and> ?K = IVC_APP_MESSAGE_DATA \<and> d \<noteq> 3 \<and> ?V")
      case True
      then have d: "d < IVC_APP_DATA_COUNT" using assms(2) by (simp add: IVC_APP_DATA_COUNT_def)
      have "take n b = pattern_message IVC_APP_MESSAGE_DATA (of_nat (d + 1)) (ivc_app_data_lengths ! d)"
        using decode_pattern[OF msg assms(3) _ kinds_valid(2) lengths_sendable(2)[OF d]] True by blast
      then have "take n b = data_messages ! d" using d by (simp add: data_messages_def)
      moreover have "d < 3" using d by (simp add: IVC_APP_DATA_COUNT_def)
      ultimately show thesis using run[unfolded if_not_P[OF no] if_P[OF True]] by (intro data)
    next
      case False
      show thesis using run[unfolded if_not_P[OF no] if_not_P[OF False]] by (rule bad)
    qed
  qed
qed

lemma receive_replies_seen:
  assumes "io_ok env live" "pub_fd p h = Some x" "length buf = IVC_APP_MAX_MESSAGE_LEN" "a \<le> 5" "d \<le> 3" "a = 5 \<longrightarrow> d = 3"
  shows "loop_seen env live x (kept_pub p h) (\<lambda>xs. \<exists>msgs. xs = map Got msgs \<and> replies_from a d msgs) w
    (receive_replies_loop env p buf (of_nat (a + 1)) (of_nat (d + 1)) e h w)"
  using assms(2-6)
proof (induction "(5 - a) + (3 - d)" arbitrary: a d e buf h w rule: less_induct)
  case less
  note tests = sequence_tests[OF less.prems(3,4)]
  let ?L = "\<lambda>buf e. receive_replies_loop env p buf (of_nat (a + 1)) (of_nat (d + 1)) e"
  let ?good = "\<lambda>a d xs. \<exists>msgs. xs = map Got msgs \<and> replies_from a d msgs"
  show ?case
  proof (cases "a < 5")
    case False
    then show ?thesis using tests(1) pub_io.kept_refl[OF less.prems(1)]
      by (subst receive_replies_loop.simps) (auto simp: replies_from_def intro!: loop_seen_done)
  next
    case a: True
    show ?thesis
    proof (rule pub_io.poll_loop_seen[OF assms(1) less.prems(1,2), where L = ?L and G = "on_reply env p (of_nat (a + 1)) (of_nat (d + 1))"])
      show "?L buf e h w = (case ivc_publisher_recv (dm_libc env) (Some p) (Some buf) IVC_APP_MAX_MESSAGE_LEN h w of
           Freed \<Rightarrow> Freed | Diverged \<Rightarrow> Diverged
         | Returned (n, buf', h, w) \<Rightarrow>
           if n < 0 then Returned (- 1, h, say env w)
           else if n = 0 then
             if e + 1 > MAX_EMPTY_POLLS then Returned (- 1, h, say env w)
             else ?L (the buf') (e + 1) h (dm_usleep env POLL_INTERVAL_US w)
           else on_reply env p (of_nat (a + 1)) (of_nat (d + 1)) (the buf') (nat n) h w)" for buf e h w
        unfolding on_reply_def by (subst receive_replies_loop.simps) (simp only: Let_def tests(1) a if_True)
    next
      fix b :: bytes and n h w
      assume b: "length b = IVC_APP_MAX_MESSAGE_LEN" "0 < n" "n \<le> length b" "pub_fd p h = Some x"
      note say = io_rules(3)[OF assms(1)] and refl = pub_io.kept_refl[OF b(4)]
      have fail: "loop_seen env live x (kept_pub p h) g w (Returned (- 1, h, say env w))" for g
        using refl say by (intro loop_seen_fail)
      have go: "loop_seen env live x (kept_pub p h) (\<lambda>xs. ?good a d (Got m # xs)) w
          (receive_replies_loop env p b (of_nat (a' + 1)) (of_nat (d' + 1)) 0 h (say env w))"
        if "(5 - a') + (3 - d') < (5 - a) + (3 - d)" "a' \<le> 5" "d' \<le> 3" "a' = 5 \<longrightarrow> d' = 3"
          "\<And>msgs. replies_from a' d' msgs \<Longrightarrow> replies_from a d (m # msgs)" for a' d' m
      proof (rule loop_seen_after[OF less.hyps[OF that(1) b(4,1) that(2-4)] talk.print[OF talk.nothing] say])
        show "?good a d (Got m # [] @ xs)" if "?good a' d' xs" for xs
          using that \<open>\<And>msgs. replies_from a' d' msgs \<Longrightarrow> replies_from a d (m # msgs)\<close> by (metis append_Nil list.map(2))
      qed
      show "loop_seen env live x (kept_pub p h) (\<lambda>xs. ?good a d (Got (take n b) # xs)) w
          (on_reply env p (of_nat (a + 1)) (of_nat (d + 1)) b n h w)"
      proof (cases rule: on_reply_cases[OF a less.prems(4) b(3), where env = env and p = p and h = h and w = w])
        case 1
        show ?thesis unfolding 1 by (rule fail)
      next
        case 2
        show ?thesis unfolding 2(3) using a less.prems(4) 2(2) by (intro go replies_ack[OF a 2(1)]) auto
      next
        case 3
        show ?thesis unfolding 3(2,3) using a by (intro go replies_data[OF a 3(1)]) (use 3(1) in auto)
      qed
    qed
  qed
qed
section \<open>The programs\<close>

lemma replies_from_start: "replies_from 0 0 msgs \<longleftrightarrow> replies_ok msgs"
proof -
  have "map of_nat [0 + 1..<5] = [1, 2, 3, 4 :: u64]" by (simp add: upt_rec)
  then show ?thesis unfolding replies_from_def replies_ok_def by simp
qed

text \<open>Two phases of a program: the second runs when the first reports success.\<close>

lemma two_phases:
  assumes "loop_seen env live x (kept h) good1 w (f h w)"
    and "\<forall>h1 w1. kept h h1 \<longrightarrow> loop_seen env live x (kept h1) good2 w1 (g h1 w1)"
    and "\<forall>h1 h2. kept h h1 \<longrightarrow> kept h1 h2 \<longrightarrow> kept h h2"
  shows "\<exists>ret h2 w2. (case f h w of
      Returned (r, h, w) \<Rightarrow>
        if r \<noteq> 0 then Returned (3, h, w)
        else (case g h w of
          Returned (r, h, w) \<Rightarrow> Returned (if r \<noteq> 0 then 3 else 0, h, w)
        | Diverged \<Rightarrow> Diverged | Freed \<Rightarrow> Freed)
    | Diverged \<Rightarrow> Diverged | Freed \<Rightarrow> Freed) = Returned (ret :: int, h2, w2) \<and> kept h h2 \<and> live w2 = live w \<and>
    (ret = 0 \<longrightarrow> (\<exists>xs ys. good1 xs \<and> good2 ys \<and> talk env x w (xs @ ys) w2))"
proof -
  obtain r h1 w1 where f: "f h w = Returned (r, h1, w1)" "kept h h1" "live w1 = live w"
    "r = 0 \<longrightarrow> (\<exists>xs. good1 xs \<and> talk env x w xs w1)" using assms(1) unfolding loop_seen_def by blast
  obtain r2 h2 w2 where g: "g h1 w1 = Returned (r2, h2, w2)" "kept h1 h2" "live w2 = live w1"
    "r2 = 0 \<longrightarrow> (\<exists>ys. good2 ys \<and> talk env x w1 ys w2)" using assms(2) f(2) unfolding loop_seen_def by blast
  show ?thesis
  proof (cases "r = 0")
    case True
    with f(4) obtain xs where "good1 xs" "talk env x w xs w1" by blast
    with g(4) have "r2 = 0 \<longrightarrow> (\<exists>xs ys. good1 xs \<and> good2 ys \<and> talk env x w (xs @ ys) w2)" using talk_trans by metis
    with True f g assms(3) show ?thesis by simp
  qed (use f in simp)
qed

lemma publisher_phases:
  assumes "io_ok env live" "pub_fd p h = Some x"
  shows "\<exists>ret h2 w2. (case send_requests env p h w of
      Returned (r, h, w) \<Rightarrow>
        if r \<noteq> 0 then Returned (3, h, w)
        else (case receive_replies env p h w of
          Returned (r, h, w) \<Rightarrow> Returned (if r \<noteq> 0 then 3 else 0, h, w)
        | Diverged \<Rightarrow> Diverged | Freed \<Rightarrow> Freed)
    | Diverged \<Rightarrow> Diverged | Freed \<Rightarrow> Freed) = Returned (ret :: int, h2, w2) \<and> kept_pub p h h2 \<and> live w2 = live w \<and>
    (ret = 0 \<longrightarrow> (\<exists>msgs. replies_ok msgs \<and> talk env x w (map Sent requests @ map Got msgs) w2))"
proof -
  have "loop_seen env live x (kept_pub p h1) (\<lambda>xs. \<exists>msgs. xs = map Got msgs \<and> replies_ok msgs) w1 (receive_replies env p h1 w1)"
    if "kept_pub p h h1" for h1 w1
    using receive_replies_seen[OF assms(1), of p h1 x "replicate IVC_APP_MAX_MESSAGE_LEN 0" 0 0 w1 0]
      pub_io.kept_fd[OF that] assms(2) by (simp add: receive_replies_def replies_from_start)
  from two_phases[where f = "send_requests env p" and g = "receive_replies env p" and h = h and w = w and kept = "kept_pub p",
      OF send_requests_seen[OF assms, of w]] this pub_io.kept_trans
  show ?thesis by blast
qed

lemma subscriber_phases:
  assumes "io_ok env live" "sub_fd p h = Some x"
  shows "\<exists>ret h2 w2. (case send_data_messages env p h w of
      Returned (r, h, w) \<Rightarrow>
        if r \<noteq> 0 then Returned (3, h, w)
        else (case receive_requests env p h w of
          Returned (r, h, w) \<Rightarrow> Returned (if r \<noteq> 0 then 3 else 0, h, w)
        | Diverged \<Rightarrow> Diverged | Freed \<Rightarrow> Freed)
    | Diverged \<Rightarrow> Diverged | Freed \<Rightarrow> Freed) = Returned (ret :: int, h2, w2) \<and> kept_sub p h h2 \<and> live w2 = live w \<and>
    (ret = 0 \<longrightarrow> talk env x w (map Sent data_messages @ concat (map exchange [0..<IVC_APP_REQUEST_COUNT])) w2)"
proof -
  have "loop_seen env live x (kept_sub p h1) (\<lambda>xs. xs = concat (map exchange [0..<IVC_APP_REQUEST_COUNT])) w1 (receive_requests env p h1 w1)"
    if "kept_sub p h h1" for h1 w1
    using receive_requests_seen[OF assms(1), of p h1 x "replicate IVC_APP_MAX_MESSAGE_LEN 0" 0 w1 0]
      sub_io.kept_fd[OF that] assms(2) by (simp add: receive_requests_def)
  from two_phases[where f = "send_data_messages env p" and g = "receive_requests env p" and h = h and w = w and kept = "kept_sub p",
      OF send_data_messages_seen[OF assms, of w]] this sub_io.kept_trans
  show ?thesis by blast
qed

lemma close_report:
  assumes "io_ok env live" "hp_managers h mp = Some \<lparr>im_fd = fd, im_active_endpoints = 0\<rparr>" "0 \<le> fd"
  shows "\<exists>ret' w'. close_and_report env mp ret h w = Returned (ret', h\<lparr>hp_managers := (hp_managers h)(mp := None)\<rparr>, w') \<and>
    live w' = live w - {#U_Fd fd, U_Mem mp#} \<and> (ret' = 0 \<longrightarrow> ret = 0 \<and>
      (\<exists>w1. ivc_close_manager (dm_libc env) (Some mp) h w = Returned (0, h\<lparr>hp_managers := (hp_managers h)(mp := None)\<rparr>, w1) \<and>
        w' = say env (say env w1)))"
proof -
  have fd: "0 \<le> im_fd \<lparr>im_fd = fd, im_active_endpoints = 0\<rparr>" using assms(3) by simp
  show ?thesis
  proof (cases rule: close_effect[OF io_rules(1)[OF assms(1)] assms(2) fd, of w])
    case (1 w')
    then show ?thesis by simp
  next
    case (2 r w')
    then show ?thesis using io_rules(3)[OF assms(1)] by (simp add: close_and_report_def Let_def)
  qed
qed

text \<open>The end of a run: the endpoint is removed and the manager closed.\<close>

text \<open>
  The end of a passing run: the endpoint was removed with result 0, then the manager was closed
  with result 0 and nothing is left on the heap; two lines are printed.
\<close>

definition removed :: "(int \<times> ivc_heap \<times> 'w) outcome \<Rightarrow> 'w demo_env \<Rightarrow> ptr \<Rightarrow> 'w \<Rightarrow> bool" where
  "removed out env mp w' \<longleftrightarrow> (\<exists>h3 w4 w5. out = Returned (0, h3, w4) \<and>
    ivc_close_manager (dm_libc env) (Some mp) h3 w4 = Returned (0, empty_heap, w5) \<and> w' = say env (say env w5))"

lemma publisher_finish:
  assumes "io_ok env live" "0 \<le> fd" "mp \<noteq> p" "hp_publishers h p = Some s" "ip_manager s = mp"
    "h = empty_heap\<lparr>hp_managers := [mp \<mapsto> \<lparr>im_fd = fd, im_active_endpoints = 1\<rparr>], hp_publishers := [p \<mapsto> s]\<rparr>"
    "live w = {#U_Pub (pa_channel_key (ip_publish_arg s)), U_Fd (ip_fd s), U_Mem p, U_Fd fd, U_Mem mp#} + L"
  shows "\<exists>ret' w'. (case ivc_unpublish (dm_libc env) (Some p) h w of
      Freed \<Rightarrow> Freed | Diverged \<Rightarrow> Diverged
    | Returned (r, h, w) \<Rightarrow> close_and_report env mp (if r < 0 then 4 else ret) h (if r < 0 then say env w else w)) =
      Returned (ret', empty_heap, w') \<and>
    (live w' = L \<or> unpublish_ioctl_refused (dm_libc env) (pa_channel_key (ip_publish_arg s)) \<and> live w' = add_mset (U_Pub (pa_channel_key (ip_publish_arg s))) L) \<and>
    (ret' = 0 \<longrightarrow> ret = 0 \<and> live w' = L \<and> removed (ivc_unpublish (dm_libc env) (Some p) h w) env mp w')"
proof -
  let ?m = "\<lparr>im_fd = fd, im_active_endpoints = 1\<rparr>"
  have m: "hp_managers h (ip_manager s) = Some ?m" "im_active_endpoints ?m \<noteq> 0" by (simp_all add: assms(5,6))
  obtain r1 w1 where c: "c_close (dm_libc env) (ip_fd s) w = (r1, w1)" by fastforce
  obtain r2 a2 w2 where i: "c_ioctl_publish (dm_libc env) (im_fd ?m) IVC_UNPUBLISH_CHANNEL (ip_publish_arg s)
    (if r1 < 0 then c_print (dm_libc env) w1 else w1) = (r2, a2, w2)" by (metis prod_cases3)
  let ?h = "empty_heap\<lparr>hp_managers := [mp \<mapsto> \<lparr>im_fd = fd, im_active_endpoints = 0\<rparr>]\<rparr>"
  have h: "(bump (ip_manager s) (- 1) h)\<lparr>hp_publishers := (hp_publishers h)(p := None)\<rparr> = ?h"
    by (simp add: assms(5,6) bump_def empty_heap_def)
  obtain w3 where u: "ivc_unpublish (dm_libc env) (Some p) h w = Returned (if r1 < 0 \<or> r2 < 0 then - 1 else 0, ?h, w3)"
    "live w3 = live w - {#U_Fd (ip_fd s)#} - (if r2 < 0 then {#} else {#U_Pub (pa_channel_key (ip_publish_arg s))#}) - {#U_Mem p#}"
    using unpublish_effect[OF io_rules(1)[OF assms(1)] assms(4) m c i] unfolding h by blast
  have l3: "live w3 = {#U_Fd fd, U_Mem mp#} + (if r2 < 0 then add_mset (U_Pub (pa_channel_key (ip_publish_arg s))) L else L)"
    unfolding u(2) assms(7) by (auto simp: add_mset_commute)
  let ?bad = "r1 < 0 \<or> r2 < 0"
  let ?w = "if ?bad then say env w3 else w3"
  have mh: "hp_managers ?h mp = Some \<lparr>im_fd = fd, im_active_endpoints = 0\<rparr>" by simp
  obtain ret' w' where cl: "close_and_report env mp (if ?bad then 4 else ret) ?h ?w =
      Returned (ret', ?h\<lparr>hp_managers := (hp_managers ?h)(mp := None)\<rparr>, w')"
    "live w' = live ?w - {#U_Fd fd, U_Mem mp#}" "ret' = 0 \<longrightarrow> (if ?bad then 4 else ret) = 0 \<and>
      (\<exists>w1. ivc_close_manager (dm_libc env) (Some mp) ?h ?w = Returned (0, ?h\<lparr>hp_managers := (hp_managers ?h)(mp := None)\<rparr>, w1) \<and>
        w' = say env (say env w1))"
    using close_report[OF assms(1) mh assms(2), of "if ?bad then 4 else ret" ?w] by blast
  have e: "?h\<lparr>hp_managers := (hp_managers ?h)(mp := None)\<rparr> = empty_heap" by (simp add: empty_heap_def)
  have l: "live w' = (if r2 < 0 then add_mset (U_Pub (pa_channel_key (ip_publish_arg s))) L else L)"
    using cl(2) l3 io_rules(3)[OF assms(1)] by simp
  show ?thesis
  proof (cases ?bad)
    case True
    then have "ret' \<noteq> 0" using cl(3) by simp
    with True l u(1) cl(1) e show ?thesis by (auto intro: refusedI(1)[OF i])
  next
    case False
    then show ?thesis using l cl(1,3) u(1) e by (auto simp: removed_def)
  qed
qed

lemma subscriber_finish:
  assumes "io_ok env live" "0 \<le> fd" "mp \<noteq> p" "hp_subscribers h p = Some s" "is_manager s = mp"
    "h = empty_heap\<lparr>hp_managers := [mp \<mapsto> \<lparr>im_fd = fd, im_active_endpoints = 1\<rparr>], hp_subscribers := [p \<mapsto> s]\<rparr>"
    "live w = {#U_Sub (sa_target_publisher_id (is_subscribe_arg s)) (sa_channel_key (is_subscribe_arg s)), U_Fd (is_fd s), U_Mem p, U_Fd fd, U_Mem mp#} + L"
  shows "\<exists>ret' w'. (case ivc_unsubscribe (dm_libc env) (Some p) h w of
      Freed \<Rightarrow> Freed | Diverged \<Rightarrow> Diverged
    | Returned (r, h, w) \<Rightarrow> close_and_report env mp (if r < 0 then 4 else ret) h (if r < 0 then say env w else w)) =
      Returned (ret', empty_heap, w') \<and>
    (live w' = L \<or> unsubscribe_ioctl_refused (dm_libc env) (sa_target_publisher_id (is_subscribe_arg s)) (sa_channel_key (is_subscribe_arg s)) \<and> live w' = add_mset (U_Sub (sa_target_publisher_id (is_subscribe_arg s)) (sa_channel_key (is_subscribe_arg s))) L) \<and>
    (ret' = 0 \<longrightarrow> ret = 0 \<and> live w' = L \<and> removed (ivc_unsubscribe (dm_libc env) (Some p) h w) env mp w')"
proof -
  let ?m = "\<lparr>im_fd = fd, im_active_endpoints = 1\<rparr>"
  have m: "hp_managers h (is_manager s) = Some ?m" "im_active_endpoints ?m \<noteq> 0" by (simp_all add: assms(5,6))
  obtain r1 w1 where c: "c_close (dm_libc env) (is_fd s) w = (r1, w1)" by fastforce
  obtain r2 a2 w2 where i: "c_ioctl_subscribe (dm_libc env) (im_fd ?m) IVC_UNSUBSCRIBE_CHANNEL (is_subscribe_arg s)
    (if r1 < 0 then c_print (dm_libc env) w1 else w1) = (r2, a2, w2)" by (metis prod_cases3)
  let ?h = "empty_heap\<lparr>hp_managers := [mp \<mapsto> \<lparr>im_fd = fd, im_active_endpoints = 0\<rparr>]\<rparr>"
  have h: "(bump (is_manager s) (- 1) h)\<lparr>hp_subscribers := (hp_subscribers h)(p := None)\<rparr> = ?h"
    by (simp add: assms(5,6) bump_def empty_heap_def)
  obtain w3 where u: "ivc_unsubscribe (dm_libc env) (Some p) h w = Returned (if r1 < 0 \<or> r2 < 0 then - 1 else 0, ?h, w3)"
    "live w3 = live w - {#U_Fd (is_fd s)#} - (if r2 < 0 then {#} else {#U_Sub (sa_target_publisher_id (is_subscribe_arg s)) (sa_channel_key (is_subscribe_arg s))#}) - {#U_Mem p#}"
    using unsubscribe_effect[OF io_rules(1)[OF assms(1)] assms(4) m c i] unfolding h by blast
  have l3: "live w3 = {#U_Fd fd, U_Mem mp#} + (if r2 < 0 then add_mset (U_Sub (sa_target_publisher_id (is_subscribe_arg s)) (sa_channel_key (is_subscribe_arg s))) L else L)"
    unfolding u(2) assms(7) by (auto simp: add_mset_commute)
  let ?bad = "r1 < 0 \<or> r2 < 0"
  let ?w = "if ?bad then say env w3 else w3"
  have mh: "hp_managers ?h mp = Some \<lparr>im_fd = fd, im_active_endpoints = 0\<rparr>" by simp
  obtain ret' w' where cl: "close_and_report env mp (if ?bad then 4 else ret) ?h ?w =
      Returned (ret', ?h\<lparr>hp_managers := (hp_managers ?h)(mp := None)\<rparr>, w')"
    "live w' = live ?w - {#U_Fd fd, U_Mem mp#}" "ret' = 0 \<longrightarrow> (if ?bad then 4 else ret) = 0 \<and>
      (\<exists>w1. ivc_close_manager (dm_libc env) (Some mp) ?h ?w = Returned (0, ?h\<lparr>hp_managers := (hp_managers ?h)(mp := None)\<rparr>, w1) \<and>
        w' = say env (say env w1))"
    using close_report[OF assms(1) mh assms(2), of "if ?bad then 4 else ret" ?w] by blast
  have e: "?h\<lparr>hp_managers := (hp_managers ?h)(mp := None)\<rparr> = empty_heap" by (simp add: empty_heap_def)
  have l: "live w' = (if r2 < 0 then add_mset (U_Sub (sa_target_publisher_id (is_subscribe_arg s)) (sa_channel_key (is_subscribe_arg s))) L else L)"
    using cl(2) l3 io_rules(3)[OF assms(1)] by simp
  show ?thesis
  proof (cases ?bad)
    case True
    then have "ret' \<noteq> 0" using cl(3) by simp
    with True l u(1) cl(1) e show ?thesis by (auto intro: refusedI(2)[OF i])
  next
    case False
    then show ?thesis using l cl(1,3) u(1) e by (auto simp: removed_def)
  qed
qed

text \<open>
  What a run of a program promises, on a channel \<open>chan\<close>: \<open>passed\<close> holds of the world it
  ends in when it exits with 0.
\<close>

definition run_ok ::
  "('w \<Rightarrow> resource multiset) \<Rightarrow> bool \<Rightarrow> resource \<Rightarrow> ('w \<Rightarrow> bool) \<Rightarrow> 'w \<Rightarrow> (int \<times> ivc_heap \<times> 'w) outcome \<Rightarrow> bool" where
  "run_ok live refused chan passed w out \<longleftrightarrow> (\<exists>ret w'. out = Returned (ret, empty_heap, w') \<and>
    (live w' = live w \<or> refused \<and> live w' = add_mset chan (live w)) \<and>
    (ret = 0 \<longrightarrow> live w' = live w \<and> passed w'))"

lemma run_ok_early: "live w' = live w \<Longrightarrow> ret \<noteq> 0 \<Longrightarrow> run_ok live refused chan passed w (Returned (ret, empty_heap, w'))"
  by (simp add: run_ok_def)

lemma run_ok_more: "run_ok live refused chan passed w out \<Longrightarrow> (\<And>w'. passed w' \<Longrightarrow> passed' w') \<Longrightarrow> run_ok live refused chan passed' w out"
  unfolding run_ok_def by blast

text \<open>
  A passing run from the moment the endpoint \<open>p\<close> exists: the conversation on its descriptor, the
  whole of it and nothing else, from the world its creation ended in to the world its removal
  starts in; in between only the byte counters of its object have changed.
\<close>

definition publisher_talked :: "'w demo_env \<Rightarrow> ptr \<Rightarrow> ptr \<Rightarrow> ivc_heap \<Rightarrow> 'w \<Rightarrow> bytes list \<Rightarrow> 'w \<Rightarrow> bool" where
  "publisher_talked env mp p h1 w2 msgs w' \<longleftrightarrow> (\<exists>s h2 w3. hp_publishers h1 p = Some s \<and> kept_pub p h1 h2 \<and>
    talk env (ip_fd s) w2 (map Sent requests @ map Got msgs) w3 \<and>
    removed (ivc_unpublish (dm_libc env) (Some p) h2 w3) env mp w')"

definition subscriber_script :: "io list" where
  "subscriber_script = map Sent data_messages @ concat (map exchange [0..<IVC_APP_REQUEST_COUNT])"

definition subscriber_talked :: "'w demo_env \<Rightarrow> ptr \<Rightarrow> ptr \<Rightarrow> ivc_heap \<Rightarrow> 'w \<Rightarrow> 'w \<Rightarrow> bool" where
  "subscriber_talked env mp p h1 w2 w' \<longleftrightarrow> (\<exists>s h2 w3. hp_subscribers h1 p = Some s \<and> kept_sub p h1 h2 \<and>
    talk env (is_fd s) w2 subscriber_script w3 \<and>
    removed (ivc_unsubscribe (dm_libc env) (Some p) h2 w3) env mp w')"

text \<open>A manager is open, and creating the endpoint has failed.\<close>

lemma run_ok_refused:
  assumes "io_ok env live" "h = empty_heap\<lparr>hp_managers := [mp \<mapsto> \<lparr>im_fd = fd, im_active_endpoints = 0\<rparr>]\<rparr>" "0 \<le> fd"
    "live w1 = {#U_Fd fd, U_Mem mp#} + live w \<or> refused \<and> live w1 = add_mset chan ({#U_Fd fd, U_Mem mp#} + live w)"
  shows "run_ok live refused chan passed w (close_and_report env mp 2 h (say env w1))"
proof -
  have m: "hp_managers h mp = Some \<lparr>im_fd = fd, im_active_endpoints = 0\<rparr>" by (simp add: assms(2))
  have e: "h\<lparr>hp_managers := (hp_managers h)(mp := None)\<rparr> = empty_heap" by (simp add: assms(2) empty_heap_def)
  obtain ret' w' where c: "close_and_report env mp 2 h (say env w1) = Returned (ret', empty_heap, w')"
    "live w' = live (say env w1) - {#U_Fd fd, U_Mem mp#}" "ret' \<noteq> 0"
    using close_report[OF assms(1) m assms(3), of 2 "say env w1"] unfolding e by auto
  then show ?thesis using assms(4) io_rules(3)[OF assms(1)] by (auto simp: run_ok_def)
qed

text \<open>The endpoint exists: the two phases, its removal and the end of \<open>main\<close>.\<close>

lemma publisher_body_run:
  assumes "io_ok env live" "h0 = empty_heap\<lparr>hp_managers := [mp \<mapsto> \<lparr>im_fd = fd, im_active_endpoints = 0\<rparr>]\<rparr>" "0 \<le> fd"
    "live w1 = {#U_Fd fd, U_Mem mp#} + live w" "created refused live mp (U_Pub key) (stored_pub key mp) h0 w1 (Some p, h1, w2)"
  shows "run_ok live (unpublish_ioctl_refused (dm_libc env) key) (U_Pub key) (\<lambda>w'. \<exists>msgs. replies_ok msgs \<and> publisher_talked env mp p h1 w2 msgs w') w
    (case (case send_requests env p h1 w2 of
        Returned (r, h, w) \<Rightarrow>
          if r \<noteq> 0 then Returned (3, h, w)
          else (case receive_replies env p h w of
            Returned (r, h, w) \<Rightarrow> Returned (if r \<noteq> 0 then 3 else 0, h, w)
          | Diverged \<Rightarrow> Diverged | Freed \<Rightarrow> Freed)
      | Diverged \<Rightarrow> Diverged | Freed \<Rightarrow> Freed) of
      Freed \<Rightarrow> Freed
    | Diverged \<Rightarrow> Diverged
    | Returned (ret, h, w) \<Rightarrow>
      (case ivc_unpublish (dm_libc env) (Some p) h w of
        Freed \<Rightarrow> Freed
      | Diverged \<Rightarrow> Diverged
      | Returned (r, h, w) \<Rightarrow>
        close_and_report env mp (if r < 0 then 4 else ret) h (if r < 0 then say env w else w)))"
    (is "run_ok _ _ _ _ _ (case ?phases of Freed \<Rightarrow> _ | Diverged \<Rightarrow> _ | Returned _ \<Rightarrow> _)")
proof -
  from assms(5) obtain s where p: "U_Mem p \<notin># live w1" "ip_manager s = mp" "pa_channel_key (ip_publish_arg s) = key"
    "h1 = (bump mp 1 h0)\<lparr>hp_publishers := (hp_publishers h0)(p \<mapsto> s)\<rparr>"
    "live w2 = {#U_Pub key, U_Fd (ip_fd s), U_Mem p#} + live w1" by (auto simp: created_def stored_pub_def)
  have "pub_fd p h1 = Some (ip_fd s)" by (simp add: p(4) pub_fd_def)
  from publisher_phases[OF assms(1) this, of w2] obtain ret h2 w3 where ph: "?phases = Returned (ret, h2, w3)"
    "kept_pub p h1 h2" "live w3 = live w2"
    "ret = 0 \<longrightarrow> (\<exists>msgs. replies_ok msgs \<and> talk env (ip_fd s) w2 (map Sent requests @ map Got msgs) w3)" by blast
  from ph(2) obtain a b where h2: "h2 = h1\<lparr>hp_publishers := (hp_publishers h1)(p \<mapsto> s\<lparr>ip_bytes_received := a, ip_bytes_sent := b\<rparr>)\<rparr>"
    by (auto simp: kept_pub_def p(4))
  let ?s = "s\<lparr>ip_bytes_received := a, ip_bytes_sent := b\<rparr>"
  have "mp \<noteq> p" using p(1) assms(4) by auto
  moreover have "h2 = empty_heap\<lparr>hp_managers := [mp \<mapsto> \<lparr>im_fd = fd, im_active_endpoints = 1\<rparr>], hp_publishers := [p \<mapsto> ?s]\<rparr>"
    by (simp add: h2 p(4) bump_def assms(2) empty_heap_def)
  ultimately obtain ret' w' where fin: "(case ivc_unpublish (dm_libc env) (Some p) h2 w3 of
        Freed \<Rightarrow> Freed | Diverged \<Rightarrow> Diverged
      | Returned (r, h, w) \<Rightarrow> close_and_report env mp (if r < 0 then 4 else ret) h (if r < 0 then say env w else w)) =
        Returned (ret', empty_heap, w')"
      "live w' = live w \<or> unpublish_ioctl_refused (dm_libc env) key \<and> live w' = add_mset (U_Pub key) (live w)"
      "ret' = 0 \<longrightarrow> ret = 0 \<and> live w' = live w \<and> removed (ivc_unpublish (dm_libc env) (Some p) h2 w3) env mp w'"
    using publisher_finish[OF assms(1,3), of mp p h2 ?s w3 "live w" ret] p(2,3,5) ph(3) assms(4) by (auto simp: h2)
  have s: "hp_publishers h1 p = Some s" by (simp add: p(4))
  have "ret' = 0 \<longrightarrow> (\<exists>msgs. replies_ok msgs \<and> publisher_talked env mp p h1 w2 msgs w')"
    using fin(3) ph(2,4) s unfolding publisher_talked_def by blast
  then show ?thesis unfolding ph(1) using fin unfolding run_ok_def by auto
qed

text \<open>
  A run that passes, as the chain of the worlds the library leaves behind: open the manager,
  create the endpoint, talk, remove the endpoint, close the manager.
\<close>

definition publisher_passed :: "'w demo_env \<Rightarrow> u64 \<Rightarrow> u64 \<Rightarrow> 'w \<Rightarrow> 'w \<Rightarrow> bool" where
  "publisher_passed env key sz w w' \<longleftrightarrow> (\<exists>mp h0 w1 p h1 w2 msgs.
    ivc_open_manager (dm_libc env) empty_heap w = Returned (Some mp, h0, w1) \<and>
    ivc_publish (dm_libc env) (Some mp) key sz h0 w1 = Returned (Some p, h1, w2) \<and>
    replies_ok msgs \<and> publisher_talked env mp p h1 w2 msgs w')"

definition subscriber_passed :: "'w demo_env \<Rightarrow> u64 \<Rightarrow> u64 \<Rightarrow> 'w \<Rightarrow> 'w \<Rightarrow> bool" where
  "subscriber_passed env publisher_id key w w' \<longleftrightarrow> (\<exists>mp h0 w1 p h1 w2.
    ivc_open_manager (dm_libc env) empty_heap w = Returned (Some mp, h0, w1) \<and>
    ivc_subscribe (dm_libc env) (Some mp) publisher_id key h0 w1 = Returned (Some p, h1, w2) \<and>
    subscriber_talked env mp p h1 w2 w')"

lemma publish_main_run:
  assumes "io_ok env live"
  shows "run_ok live (unpublish_ioctl_refused (dm_libc env) (strtoull (argv ! 1))) (U_Pub (strtoull (argv ! 1)))
    (publisher_passed env (strtoull (argv ! 1))
      (if length argv = 3 then strtoull (argv ! 2) else DEFAULT_CHANNEL_SIZE) w) w
    (publish_main env argv empty_heap w)"
proof (cases "length argv < 2 \<or> length argv > 3")
  case True
  then show ?thesis using io_rules(3)[OF assms] by (simp add: publish_main_def run_ok_early)
next
  case args: False
  note lc = io_rules(1)[OF assms] and say = io_rules(3)[OF assms]
  let ?key = "strtoull (argv ! 1)" and ?size = "if length argv = 3 then strtoull (argv ! 2) else DEFAULT_CHANNEL_SIZE"
  show ?thesis
  proof (cases rule: open_effect[OF lc, of empty_heap w])
    case (1 w1)
    then show ?thesis using args say by (simp add: publish_main_def Let_def run_ok_early)
  next
    case (2 mp fd w1)
    define h0 where "h0 = empty_heap\<lparr>hp_managers := [mp \<mapsto> \<lparr>im_fd = fd, im_active_endpoints = 0\<rparr>]\<rparr>"
    have opened: "ivc_open_manager (dm_libc env) empty_heap w = Returned (Some mp, h0, w1)"
      using 2(1) by (simp add: h0_def empty_heap_def)
    have m: "hp_managers h0 mp = Some \<lparr>im_fd = fd, im_active_endpoints = 0\<rparr>" by (simp add: h0_def)
    have "0 \<le> im_fd \<lparr>im_fd = fd, im_active_endpoints = 0\<rparr>" using 2(2) by simp
    from publish_effect[OF lc m this, of ?key ?size w1] obtain res h1 w2 where
      pub: "ivc_publish (dm_libc env) (Some mp) ?key ?size h0 w1 = Returned (res, h1, w2)"
        "created (unpublish_ioctl_refused (dm_libc env) ?key) live mp (U_Pub ?key) (stored_pub ?key mp) h0 w1 (res, h1, w2)" by (metis prod_cases3)
    show ?thesis
    proof (cases res)
      case None
      with pub(2) have "h1 = h0" "live w2 = live w1 \<or> unpublish_ioctl_refused (dm_libc env) ?key \<and> live w2 = add_mset (U_Pub ?key) (live w1)" by (auto simp: created_def)
      with run_ok_refused[OF assms h0_def 2(2), of w2] 2(5) have
        "run_ok live (unpublish_ioctl_refused (dm_libc env) ?key) (U_Pub ?key) (publisher_passed env ?key ?size w) w (close_and_report env mp 2 h1 (say env w2))" by auto
      then show ?thesis using args opened pub(1) None by (simp add: publish_main_def Let_def)
    next
      case (Some p)
      then have "created (unpublish_ioctl_refused (dm_libc env) ?key) live mp (U_Pub ?key) (stored_pub ?key mp) h0 w1 (Some p, h1, w2)" using pub(2) by simp
      from run_ok_more[OF publisher_body_run[OF assms h0_def 2(2,5) this], where passed' = "publisher_passed env ?key ?size w"]
        opened pub(1)[unfolded Some] show ?thesis
        using args unfolding publisher_passed_def by (simp add: publish_main_def Let_def)
    qed
  qed
qed

lemma subscriber_body_run:
  assumes "io_ok env live" "h0 = empty_heap\<lparr>hp_managers := [mp \<mapsto> \<lparr>im_fd = fd, im_active_endpoints = 0\<rparr>]\<rparr>" "0 \<le> fd"
    "live w1 = {#U_Fd fd, U_Mem mp#} + live w" "created refused live mp (U_Sub ident key) (stored_sub ident key mp) h0 w1 (Some p, h1, w2)"
  shows "run_ok live (unsubscribe_ioctl_refused (dm_libc env) ident key) (U_Sub ident key) (subscriber_talked env mp p h1 w2) w
    (case (case send_data_messages env p h1 w2 of
        Returned (r, h, w) \<Rightarrow>
          if r \<noteq> 0 then Returned (3, h, w)
          else (case receive_requests env p h w of
            Returned (r, h, w) \<Rightarrow> Returned (if r \<noteq> 0 then 3 else 0, h, w)
          | Diverged \<Rightarrow> Diverged | Freed \<Rightarrow> Freed)
      | Diverged \<Rightarrow> Diverged | Freed \<Rightarrow> Freed) of
      Freed \<Rightarrow> Freed
    | Diverged \<Rightarrow> Diverged
    | Returned (ret, h, w) \<Rightarrow>
      (case ivc_unsubscribe (dm_libc env) (Some p) h w of
        Freed \<Rightarrow> Freed
      | Diverged \<Rightarrow> Diverged
      | Returned (r, h, w) \<Rightarrow>
        close_and_report env mp (if r < 0 then 4 else ret) h (if r < 0 then say env w else w)))"
    (is "run_ok _ _ _ _ _ (case ?phases of Freed \<Rightarrow> _ | Diverged \<Rightarrow> _ | Returned _ \<Rightarrow> _)")
proof -
  from assms(5) obtain s where p: "U_Mem p \<notin># live w1" "is_manager s = mp" "sa_target_publisher_id (is_subscribe_arg s) = ident" "sa_channel_key (is_subscribe_arg s) = key"
    "h1 = (bump mp 1 h0)\<lparr>hp_subscribers := (hp_subscribers h0)(p \<mapsto> s)\<rparr>"
    "live w2 = {#U_Sub ident key, U_Fd (is_fd s), U_Mem p#} + live w1" by (auto simp: created_def stored_sub_def)
  have "sub_fd p h1 = Some (is_fd s)" by (simp add: p(5) sub_fd_def)
  from subscriber_phases[OF assms(1) this, of w2] obtain ret h2 w3 where ph: "?phases = Returned (ret, h2, w3)"
    "kept_sub p h1 h2" "live w3 = live w2"
    "ret = 0 \<longrightarrow> talk env (is_fd s) w2 (map Sent data_messages @ concat (map exchange [0..<IVC_APP_REQUEST_COUNT])) w3" by blast
  from ph(2) obtain a b where h2: "h2 = h1\<lparr>hp_subscribers := (hp_subscribers h1)(p \<mapsto> s\<lparr>is_bytes_received := a, is_bytes_sent := b\<rparr>)\<rparr>"
    by (auto simp: kept_sub_def p(5))
  let ?s = "s\<lparr>is_bytes_received := a, is_bytes_sent := b\<rparr>"
  have "mp \<noteq> p" using p(1) assms(4) by auto
  moreover have "h2 = empty_heap\<lparr>hp_managers := [mp \<mapsto> \<lparr>im_fd = fd, im_active_endpoints = 1\<rparr>], hp_subscribers := [p \<mapsto> ?s]\<rparr>"
    by (simp add: h2 p(5) bump_def assms(2) empty_heap_def)
  ultimately obtain ret' w' where fin: "(case ivc_unsubscribe (dm_libc env) (Some p) h2 w3 of
        Freed \<Rightarrow> Freed | Diverged \<Rightarrow> Diverged
      | Returned (r, h, w) \<Rightarrow> close_and_report env mp (if r < 0 then 4 else ret) h (if r < 0 then say env w else w)) =
        Returned (ret', empty_heap, w')"
      "live w' = live w \<or> unsubscribe_ioctl_refused (dm_libc env) ident key \<and> live w' = add_mset (U_Sub ident key) (live w)"
      "ret' = 0 \<longrightarrow> ret = 0 \<and> live w' = live w \<and> removed (ivc_unsubscribe (dm_libc env) (Some p) h2 w3) env mp w'"
    using subscriber_finish[OF assms(1,3), of mp p h2 ?s w3 "live w" ret] p(2,3,4,6) ph(3) assms(4) by (auto simp: h2)
  have s: "hp_subscribers h1 p = Some s" by (simp add: p(5))
  have "ret' = 0 \<longrightarrow> subscriber_talked env mp p h1 w2 w'"
    using fin(3) ph(2,4) s unfolding subscriber_talked_def subscriber_script_def by blast
  then show ?thesis unfolding ph(1) using fin unfolding run_ok_def by auto
qed

lemma subscribe_main_run:
  assumes "io_ok env live"
  shows "run_ok live (unsubscribe_ioctl_refused (dm_libc env) (strtoull (argv ! 1)) (strtoull (argv ! 2)))
    (U_Sub (strtoull (argv ! 1)) (strtoull (argv ! 2)))
    (subscriber_passed env (strtoull (argv ! 1)) (strtoull (argv ! 2)) w) w
    (subscribe_main env argv empty_heap w)"
proof (cases "(length argv \<noteq> 3 \<and> length argv \<noteq> 4) \<or> length argv = 4 \<and> strtoull (argv ! 3) \<noteq> of_nat IVC_APP_REQUEST_COUNT")
  case True
  then show ?thesis using io_rules(3)[OF assms] by (auto simp: subscribe_main_def Let_def run_ok_early)
next
  case False
  then have args: "length argv = 3 \<or> length argv = 4" "length argv = 4 \<Longrightarrow> strtoull (argv ! 3) = of_nat IVC_APP_REQUEST_COUNT" by auto
  note lc = io_rules(1)[OF assms] and say = io_rules(3)[OF assms]
  let ?ident = "strtoull (argv ! 1)" and ?key = "strtoull (argv ! 2)"
  show ?thesis
  proof (cases rule: open_effect[OF lc, of empty_heap w])
    case (1 w1)
    then show ?thesis using args say by (auto simp: subscribe_main_def Let_def run_ok_early)
  next
    case (2 mp fd w1)
    define h0 where "h0 = empty_heap\<lparr>hp_managers := [mp \<mapsto> \<lparr>im_fd = fd, im_active_endpoints = 0\<rparr>]\<rparr>"
    have opened: "ivc_open_manager (dm_libc env) empty_heap w = Returned (Some mp, h0, w1)"
      using 2(1) by (simp add: h0_def empty_heap_def)
    have m: "hp_managers h0 mp = Some \<lparr>im_fd = fd, im_active_endpoints = 0\<rparr>" by (simp add: h0_def)
    have "0 \<le> im_fd \<lparr>im_fd = fd, im_active_endpoints = 0\<rparr>" using 2(2) by simp
    from subscribe_effect[OF lc m this, of ?ident ?key w1] obtain res h1 w2 where
      pub: "ivc_subscribe (dm_libc env) (Some mp) ?ident ?key h0 w1 = Returned (res, h1, w2)"
        "created (unsubscribe_ioctl_refused (dm_libc env) ?ident ?key) live mp (U_Sub ?ident ?key) (stored_sub ?ident ?key mp) h0 w1 (res, h1, w2)" by (metis prod_cases3)
    show ?thesis
    proof (cases res)
      case None
      with pub(2) have "h1 = h0" "live w2 = live w1 \<or> unsubscribe_ioctl_refused (dm_libc env) ?ident ?key \<and> live w2 = add_mset (U_Sub ?ident ?key) (live w1)" by (auto simp: created_def)
      with run_ok_refused[OF assms h0_def 2(2), of w2] 2(5) have
        "run_ok live (unsubscribe_ioctl_refused (dm_libc env) ?ident ?key) (U_Sub ?ident ?key) (subscriber_passed env ?ident ?key w) w (close_and_report env mp 2 h1 (say env w2))" by auto
      then show ?thesis using args opened pub(1) None by (auto simp: subscribe_main_def Let_def)
    next
      case (Some p)
      then have "created (unsubscribe_ioctl_refused (dm_libc env) ?ident ?key) live mp (U_Sub ?ident ?key) (stored_sub ?ident ?key mp) h0 w1 (Some p, h1, w2)" using pub(2) by simp
      from run_ok_more[OF subscriber_body_run[OF assms h0_def 2(2,5) this], where passed' = "subscriber_passed env ?ident ?key w"]
        opened pub(1)[unfolded Some] show ?thesis
        using args unfolding subscriber_passed_def by (auto simp: subscribe_main_def Let_def)
    qed
  qed
qed
section \<open>Properties\<close>

text \<open>
  C11. The publisher demo always exits and cleans up, and passes only after a correct
  conversation. Whatever the arguments, the replies and the failures, \<open>main\<close> returns, every
  object is freed, and everything that was acquired is given back; only when the kernel
  refuses to take the channel back is that channel still held. It exits with 0 only at the end
  of this run and of no other: the manager was opened, the channel published, and between the
  world the publication ended in and the world its removal began in the program has, on the
  descriptor of its publisher, written the five requests, byte for byte as the encoder makes
  them, and then read the five acknowledgements in order and the three data messages in order,
  all of the latter before the last acknowledgement, and nothing else, once; then the
  publisher was removed and the manager closed, both with result 0.
\<close>

theorem publish_demo_sound:
  assumes "io_ok env live"
  shows "\<exists>ret w'. publish_main env argv empty_heap w = Returned (ret, empty_heap, w') \<and>
    (live w' = live w \<or> unpublish_ioctl_refused (dm_libc env) (strtoull (argv ! 1)) \<and>
      live w' = add_mset (U_Pub (strtoull (argv ! 1))) (live w)) \<and>
    (ret = 0 \<longrightarrow> live w' = live w \<and> publisher_passed env (strtoull (argv ! 1))
      (if length argv = 3 then strtoull (argv ! 2) else DEFAULT_CHANNEL_SIZE) w w')"
  using publish_main_run[OF assms, of argv w] unfolding run_ok_def .

definition demo_program_env :: "(errno \<times> resource multiset) demo_env" where
  "demo_program_env = \<lparr>dm_libc = demo_cenv False, dm_usleep = (\<lambda>n w. w)\<rparr>"

lemma demo_program_env_ok: "io_ok demo_program_env snd"
  using demo_cenv_ok[of False] by (auto simp: io_ok_def demo_program_env_def) (auto simp: demo_cenv_def)

text \<open>On a device where nobody answers the publisher exits, with everything given back.\<close>

theorem publish_demo_sound_witness:
  "\<exists>ret w'. publish_main demo_program_env [''publish'', ''0x7''] empty_heap (EIO, {#}) = Returned (ret, empty_heap, w') \<and>
    snd w' = {#}"
proof -
  have "\<not> unpublish_ioctl_refused (dm_libc demo_program_env) 7"
    by (simp add: unpublish_ioctl_refused_def demo_program_env_def demo_cenv_def channel_commands)
  moreover have "strtoull ''0x7'' = 7" by (simp add: strtoull_def digit_value_def c_isspace_def Let_def)
  ultimately show ?thesis
    using publish_demo_sound[OF demo_program_env_ok, of "[''publish'', ''0x7'']" "(EIO, {#})"] by auto
qed

lemma append_in_shuffles: "ys @ xs \<in> shuffles xs ys"
  by (induction ys) (auto intro: Cons_in_shuffles_rightI)

text \<open>
  C21. The subscriber demo always exits and cleans up, and passes only after a correct
  conversation. Whatever happens, \<open>main\<close> returns, every object is freed and everything acquired
  is given back, but for the channel if the kernel refuses to take it back. It exits with 0
  only at the end of this run: the manager was opened and the channel subscribed to; between
  the world the subscription ended in and the world its removal began in the program has, on
  the descriptor of its subscriber, written its three data messages and then answered each of
  the five requests, in order and byte for byte, with its acknowledgement, and nothing else,
  once; then the subscriber was removed and the manager closed, both with result 0. The two programs keep to
  one protocol: what the subscriber reads in such a run is exactly what the publisher writes,
  and what it writes is a reply that the publisher accepts.
\<close>

theorem subscribe_demo_sound:
  assumes "io_ok env live"
  shows "(\<exists>ret w'. subscribe_main env argv empty_heap w = Returned (ret, empty_heap, w') \<and>
    (live w' = live w \<or> unsubscribe_ioctl_refused (dm_libc env) (strtoull (argv ! 1)) (strtoull (argv ! 2)) \<and>
      live w' = add_mset (U_Sub (strtoull (argv ! 1)) (strtoull (argv ! 2))) (live w)) \<and>
    (ret = 0 \<longrightarrow> live w' = live w \<and> subscriber_passed env (strtoull (argv ! 1)) (strtoull (argv ! 2)) w w')) \<and>
    concat (map (\<lambda>x. case x of Got m \<Rightarrow> [m] | Sent m \<Rightarrow> []) subscriber_script) = requests \<and>
    replies_ok (concat (map (\<lambda>x. case x of Sent m \<Rightarrow> [m] | Got m \<Rightarrow> []) subscriber_script))"
proof (intro conjI)
  show "\<exists>ret w'. subscribe_main env argv empty_heap w = Returned (ret, empty_heap, w') \<and>
    (live w' = live w \<or> unsubscribe_ioctl_refused (dm_libc env) (strtoull (argv ! 1)) (strtoull (argv ! 2)) \<and>
      live w' = add_mset (U_Sub (strtoull (argv ! 1)) (strtoull (argv ! 2))) (live w)) \<and>
    (ret = 0 \<longrightarrow> live w' = live w \<and> subscriber_passed env (strtoull (argv ! 1)) (strtoull (argv ! 2)) w w')"
    using subscribe_main_run[OF assms, of argv w] unfolding run_ok_def .
  have five: "[0..<IVC_APP_REQUEST_COUNT] = [0, 1, 2, 3, 4]" by (simp add: IVC_APP_REQUEST_COUNT_def upt_rec)
  have none: "concat (map ((\<lambda>x. case x of Got m \<Rightarrow> [m] | Sent m \<Rightarrow> []) \<circ> Sent) xs) = []"
    "concat (map ((\<lambda>x. case x of Sent m \<Rightarrow> [m] | Got m \<Rightarrow> []) \<circ> Sent) xs) = xs" for xs :: "bytes list"
    by (induction xs) auto
  have "requests = map ((!) requests) [0, 1, 2, 3, 4]"
    using map_nth[of requests] by (simp add: requests_def five)
  then show "concat (map (\<lambda>x. case x of Got m \<Rightarrow> [m] | Sent m \<Rightarrow> []) subscriber_script) = requests"
    by (simp add: subscriber_script_def none exchange_def five)
  let ?ack = "ack_message linux_ack"
  have "data_messages @ [?ack 1, ?ack 2, ?ack 3, ?ack 4] \<in> shuffles [?ack 1, ?ack 2, ?ack 3, ?ack 4] data_messages"
    by (rule append_in_shuffles)
  then show "replies_ok (concat (map (\<lambda>x. case x of Sent m \<Rightarrow> [m] | Got m \<Rightarrow> []) subscriber_script))"
    unfolding replies_ok_def
    by (intro exI[of _ "[?ack 1, ?ack 2, ?ack 3, ?ack 4]"] exI[of _ "?ack 5"]
        exI[of _ "data_messages @ [?ack 1, ?ack 2, ?ack 3, ?ack 4]"])
      (simp add: subscriber_script_def none exchange_def five is_ack_def)
qed

theorem subscribe_demo_sound_witness:
  "\<exists>ret w'. subscribe_main demo_program_env [''subscribe'', ''1'', ''0x7''] empty_heap (EIO, {#}) = Returned (ret, empty_heap, w') \<and>
    snd w' = {#}"
proof -
  have "\<not> unsubscribe_ioctl_refused (dm_libc demo_program_env) 1 7"
    by (simp add: unsubscribe_ioctl_refused_def demo_program_env_def demo_cenv_def channel_commands)
  moreover have "strtoull ''0x7'' = 7" "strtoull ''1'' = 1" by (simp_all add: strtoull_def digit_value_def c_isspace_def Let_def)
  ultimately show ?thesis
    using subscribe_demo_sound[OF demo_program_env_ok, of "[''subscribe'', ''1'', ''0x7'']" "(EIO, {#})"] by auto
qed

end
