(* ===== verification/Spec2Isabelle.thy ===== *)
theory Spec2Isabelle
  imports Axivc_Spsc Axivc_Channel Axivc_Region Axivc_App_Proto Axivc_Hvc Axivc_End_To_End Axivc_Books
    Axivc_Driver Axivc_Module Axivc_Lifecycle Axivc_Uio Axivc_Conversation
begin

text \<open>
  This development verifies the inter-VM communication (IVC) software of AxVisor: a Linux
  kernel module through which two virtual machines exchange messages over a shared memory
  region, the user space library and the demo programs on top of it, and the PCI driver for
  IVSHMEM devices that is linked into the same module.

  \<^bold>\<open>The program\<close>

  A publisher asks the hypervisor for a channel; the driver maps the shared region, resets it
  and offers a character device. A subscriber in another machine finds the channel by its key,
  maps the same region, validates it and offers a device of its own. The region holds two rings
  of 32 slots of 256 bytes, one per direction. A \<open>write\<close> on a device cuts a message into
  frames, one per slot; a \<open>read\<close> on the other side puts one message together again. A
  management device takes the requests to publish and subscribe. The user space library wraps
  the devices into managers, publishers and subscribers, and two demo programs run a small
  request and reply protocol over it.

  \<^bold>\<open>Theories, in the order of the layers\<close>

  \<^item> \<open>Axivc_Prelude\<close>: C integers as words, error numbers, byte buffers, shared lemmas.
  \<^item> \<open>Axivc_Ring\<close>: \<^verbatim>\<open>ivc/ring.c\<close>, \<^verbatim>\<open>ivc/includes/ring.h\<close>. A ring is a record of its counters and slots. It
    refines a bounded FIFO queue; counters wrap around; every access is in bounds, where an
    access out of bounds would destroy the slot array.
  \<^item> \<open>Axivc_Spsc\<close>: the same operations as single memory accesses, under every interleaving of
    one producer and one consumer. They are linearizable; a call that runs without interference
    ends in exactly one state, the one the function of \<open>Axivc_Ring\<close> computes.
  \<^item> \<open>Axivc_Frame\<close>: the frame codec of \<^verbatim>\<open>ivc/message.c\<close>. Encoding and decoding are inverse; the decoder
    accepts exactly the images of well-formed frames.
  \<^item> \<open>Axivc_Sender\<close>, \<open>Axivc_Receiver\<close>: the message state machines of \<^verbatim>\<open>ivc/message.c\<close> and
    \<^verbatim>\<open>ivc/includes/message.h\<close>. What a try-write publishes; message identifiers never alias; a try-read
    refines an abstract reader of a slot stream; whatever a hostile peer writes, every delivery
    is justified by a well-formed run of slots; a protocol error is final.
  \<^item> \<open>Axivc_Channel\<close>: sender, ring and receiver together. Messages arrive in order, unchanged,
    once; draining the ring delivers everything.
  \<^item> \<open>Axivc_Region\<close>: \<^verbatim>\<open>ivc/region.c\<close>, \<^verbatim>\<open>ivc/includes/region.h\<close>. The layout from the C layout rules; the
    publisher's reset as its sequence of plain and releasing stores; validation by the
    subscriber, which never accepts a region that is only partly initialised, provided its magic
    was clear before; with a stale magic it may, and a theorem shows how.
  \<^item> \<open>Axivc_Hvc\<close>: \<^verbatim>\<open>ivc/hvc.c\<close>, \<^verbatim>\<open>ivc/includes/hvc.h\<close>, \<^verbatim>\<open>ivc/includes/utils.h\<close>. Hypercalls and address translation.
  \<^item> \<open>Axivc_Transfer\<close>, \<open>Axivc_Send\<close>, \<open>Axivc_Recv\<close>: \<open>axivc_send_message\<close>, \<open>axivc_abort_send\<close> and
    \<open>axivc_recv_message\<close> of \<^verbatim>\<open>ivc/ivc.c\<close>, with their timeouts, signals and faults, while a peer
    works on the ring. A send is complete, aborted or marks its endpoint broken; a read takes
    exactly one message; both return. A peer that rewrites a published slot can make a read
    store more than the buffer holds: a theorem exhibits the run.
  \<^item> \<open>Axivc_End_To_End\<close>: any sequence of sends on one side and of reads on the other. What the
    reads return is a prefix of what was sent successfully.
  \<^item> \<open>Axivc_Vdev\<close>, \<open>Axivc_Books\<close>: the channel devices of \<^verbatim>\<open>ivc/ivc.c\<close>, publishing, subscribing and
    removing them with every error path. The device objects live on a heap, reached through
    the addresses in the lists; a ledger of allocations, mappings, registrations and channels
    shows that no path leaks or releases twice, because the services promise nothing about a
    release of what is not held. This part is sequential: one ioctl at a time.
  \<^item> \<open>Axivc_Driver\<close>, \<open>Axivc_Module\<close>: the file operations, the ioctl handler with its rollback, and
    \<^verbatim>\<open>ivc/main.c\<close>. An ioctl does its work, which is stated for each command, or changes nothing but
    what the hypervisor refuses to take back; unloading releases everything.
  \<^item> \<open>Axivc_Lifecycle\<close>: the critical sections of the driver under every interleaving of threads.
    They refine an abstract life cycle of devices, and the tables never overflow. No device is
    used after it is freed, with one exception: publishing and subscribing read the name of the
    device once more after the lock is released, and the theorem exhibits a run on each side in
    which the device is freed before that read. This is where concurrent ioctls are covered.
  \<^item> \<open>Axivc_Uio\<close>: \<^verbatim>\<open>uio_ivshmem/uio_ivshmem.c\<close>. Probing is all or nothing and removal undoes it; however
    the interrupt handler and the control calls interleave, the interrupt stays balanced.
  \<^item> \<open>Axivc_Ulib\<close>, \<open>Axivc_Session\<close>: \<^verbatim>\<open>userspace/ivc/ivc_ulib.c\<close>, \<^verbatim>\<open>userspace/ivc/ulib.h\<close>. The objects of
    the library on the heap of a process, where following a freed pointer is an outcome of its
    own. Under every sequence of calls with live handles that outcome does not occur, counters
    are exact, and memory, descriptors and channels are accounted for, a failed publish with the
    \<open>errno\<close> of the call that failed.
  \<^item> \<open>Axivc_App_Proto\<close>, \<open>Axivc_Demo\<close>, \<open>Axivc_Conversation\<close>: \<^verbatim>\<open>demo/app_proto.c\<close>, \<^verbatim>\<open>demo/publish.c\<close>,
    \<^verbatim>\<open>demo/subscribe.c\<close>. The codec of the demo protocol; the programs always exit and clean up,
    pass only when a correct conversation took place between the creation and the removal of
    their endpoint, and agree on what that is.

  \<^bold>\<open>How code becomes definitions\<close>

  A C function is a definition of the same name. State reached through pointers is an argument
  and a result; error numbers are values; a sequence of labels with cleanup code is a sequence
  of definitions, one per label. Integers have their width where they may wrap around. A
  critical section under a lock is one step of the interleaving models, and so is every single
  access to shared memory in \<open>Axivc_Spsc\<close>.

  What is not code of the repository is a record of functions over an arbitrary world: \<open>kenv\<close>
  (clock, sleeping, locks, user memory, hypervisor, and the peer that works on the ring),
  \<open>denv\<close> and \<open>menv\<close> (allocator, memory mapper, device registry, shared memory, ioctl arguments, PCI
  registration), \<open>penv\<close> (PCI, UIO and interrupt services), \<open>cenv\<close> and \<open>demo_env\<close> (C library and system
  calls). What theorems rely on are named conditions: \<open>clock_ok\<close>, \<open>consumer_ok\<close>, \<open>producer_ok\<close>,
  \<open>user_source\<close>, \<open>user_target\<close>, the ledgers of \<open>Axivc_Books\<close> and \<open>Axivc_Uio\<close>, \<open>libc_ok\<close> and \<open>io_ok\<close>. Each has
  a concrete instance in the witness of a theorem that uses it.

  Some of these conditions simplify. The peer of a transfer (\<open>k_peer\<close>) acts between the calls of
  the message layer; its interference inside one ring operation is the subject of \<open>Axivc_Spsc\<close>,
  which reads the acquire and release accesses of the ring as sequentially consistent. The
  \<open>memset\<close> of the slots in a ring reset is one store. \<open>ledger_ok\<close> supposes that cutting a
  hypercall's 64-bit result to an \<open>int\<close> does not turn an error into 0. \<open>libc_ok\<close> supposes that an
  ioctl that fails changes nothing; the driver keeps to this except when it cannot copy the
  result to the user and the hypervisor refuses the removal too, which \<open>Axivc_Module\<close> states. The
  device counters are natural numbers; \<open>Axivc_Lifecycle\<close> shows that they are exact and never
  exceed 16, so the C integers neither wrap nor go below 0.

  \<^bold>\<open>Interfaces\<close>

  Contracts that two components share are locales, interpreted on the definitions of the model:
  the bounded queue of slots that the message layer relies on (\<open>slot_queue\<close>), the bookkeeping of
  a device table for publishers and subscribers (\<open>vdev_table\<close>), the life cycle
  of devices for both (\<open>device_life\<close>), and the endpoint that a demo program talks through, for the
  two kinds of handles of the library (\<open>endpoint_io\<close>).

  \<^bold>\<open>Loops and fuel\<close>

  Loops over slots, fragments, lists and demo messages are total functions. The loops that wait
  for a peer carry fuel, and a theorem says how much is enough: sending and reading return
  within \<open>(count + 1) * (timeout + 2)\<close> iterations when the clock runs, the timeout being 30 s in
  ticks; the wait of a subscriber for its region ends after \<open>AXIVC_SUBSCRIBE_WAIT_MS\<close>. The polling
  loops of the demos terminate by their own limit of 3000 empty polls.

  \<^bold>\<open>Not modelled\<close>

  \<^item> Log output and the texts that the programs print; printing is a call that may change \<open>errno\<close>.
  \<^item> The module's metadata, the tables of function pointers and the PCI identifier table, which
    the kernel interprets.
  \<^item> \<^verbatim>\<open>pybind/ivc_pybind.cpp\<close>, which passes every call on to the library; \<^verbatim>\<open>axcli\<close>, a separate tool in
    Rust; build files and documentation.
  \<^item> The weak memory order of the hardware beyond release stores of the region header and the
    ordered counters of the rings; caches of the mapped region.

  \<^bold>\<open>Possible extensions\<close>

  The file operations of a device and the system calls of the library are verified against
  separate contracts; composing them through a model of the file layer, and the liveness of the
  two demo programs running against each other, are the natural next steps.
\<close>

end
